(* ===== verification/Prelude.thy ===== *)
theory Prelude
  imports Main "HOL-Library.Word"
begin

text \<open>
  Shared material of the development: the named collections the component theories add
  to, the integer types of the C++ code, and lemmas on lists, options and chains of
  fallible steps that several components use.
\<close>

section \<open>Integer types of the source\<close>

text \<open>
  \<open>unsigned long long\<close>, \<open>uint64_t\<close> and \<open>size_t\<close> are 64-bit words, \<open>uint32_t\<close> is a
  32-bit word. A C \<open>int\<close> is an \<open>int\<close>; where the code narrows a wider value into an
  \<open>int\<close>, \<open>to_int32\<close> writes the two's complement narrowing out.
\<close>

type_synonym u32 = "32 word"
type_synonym u64 = "64 word"
type_synonym byte = "8 word"

definition to_int32 :: "u64 \<Rightarrow> int" where
  "to_int32 w =
     (let v = uint w mod 2 ^ 32 in if v < 2 ^ 31 then v else v - 2 ^ 32)"

lemma to_int32_small:
  assumes "unat w < 2 ^ 31"
  shows "to_int32 w = int (unat w)"
proof -
  from assms have "int (unat w) < int (2 ^ 31)" by (simp only: of_nat_less_iff)
  then have "uint w < 2 ^ 31" by (simp flip: uint_nat)
  then show ?thesis
    by (simp add: to_int32_def flip: uint_nat)
qed

section \<open>Named collections\<close>

text \<open>
  \<open>frame\<close>: what an operation leaves unchanged. \<open>abs_simps\<close>: what an operation does to
  the abstract value its state stands for.
\<close>

named_theorems frame
named_theorems abs_simps

section \<open>Lists and options\<close>

definition first_or :: "'a list \<Rightarrow> 'a option \<Rightarrow> 'a option" where
  "first_or xs q = (case xs of [] \<Rightarrow> q | x # _ \<Rightarrow> Some x)"

definition last_or :: "'a option \<Rightarrow> 'a list \<Rightarrow> 'a option" where
  "last_or p xs = (if xs = [] then p else Some (last xs))"

lemma first_or_simps [simp]:
  "first_or [] q = q" "first_or (x # xs) q = Some x"
  by (simp_all add: first_or_def)

lemma first_or_append [simp]: "first_or (xs @ ys) q = first_or xs (first_or ys q)"
  by (cases xs) simp_all

lemma last_or_simps [simp]:
  "last_or p [] = p" "last_or p (x # xs) = last_or (Some x) xs"
  by (simp_all add: last_or_def)

lemma last_or_append [simp]: "last_or p (xs @ ys) = last_or (last_or p xs) ys"
  by (auto simp: last_or_def)

lemma last_or_snoc [simp]: "last_or p (xs @ [x]) = Some x"
  by (simp add: last_or_def)

lemma first_or_None_iff [simp]: "first_or xs None = None \<longleftrightarrow> xs = []"
  by (cases xs) simp_all

lemma last_or_None_iff [simp]: "last_or None xs = None \<longleftrightarrow> xs = []"
  by (simp add: last_or_def)

lemma last_or_eq_Some: "last_or p xs = Some y \<longleftrightarrow> (xs = [] \<and> p = Some y) \<or> (xs \<noteq> [] \<and> last xs = y)"
  by (auto simp: last_or_def)

lemma first_or_eq_Some: "first_or xs None = Some y \<longleftrightarrow> (\<exists>ys. xs = y # ys)"
  by (cases xs) auto

lemma last_or_cases [simp]: "xs \<noteq> [] \<Longrightarrow> last_or p xs = Some (last xs)"
  by (simp add: last_or_def)

lemma remove1_middle [simp]: "x \<notin> set xs \<Longrightarrow> remove1 x (xs @ x # ys) = xs @ ys"
  by (induction xs) auto

section \<open>Loops of fallible steps\<close>

text \<open>A \<open>for\<close> loop whose body may crash: it stops at the first \<open>None\<close>.\<close>

fun fold_opt :: "('a \<Rightarrow> 's \<Rightarrow> 's option) \<Rightarrow> 'a list \<Rightarrow> 's \<Rightarrow> 's option" where
  "fold_opt f [] s = Some s"
| "fold_opt f (x # xs) s = (case f x s of None \<Rightarrow> None | Some s' \<Rightarrow> fold_opt f xs s')"

lemma fold_opt_append:
  "fold_opt f (xs @ ys) s = (case fold_opt f xs s of None \<Rightarrow> None | Some s' \<Rightarrow> fold_opt f ys s')"
  by (induction xs arbitrary: s) (auto split: option.split)

lemma fold_opt_invariant:
  assumes "\<And>x s. x \<in> set xs \<Longrightarrow> P s \<Longrightarrow> \<exists>s'. f x s = Some s' \<and> P s'" "P s"
  shows "\<exists>s'. fold_opt f xs s = Some s' \<and> P s'"
  using assms
proof (induction xs arbitrary: s)
  case (Cons x xs)
  from Cons.prems(1) [of x s] Cons.prems(2) obtain s1 where s1: "f x s = Some s1" "P s1" by auto
  have "\<exists>s'. fold_opt f xs s1 = Some s' \<and> P s'"
    using s1(2) Cons.prems(1) by (intro Cons.IH) auto
  with s1 show ?case by simp
qed simp

section \<open>The C remainder\<close>

definition c_rem :: "int \<Rightarrow> int \<Rightarrow> int" where
  "c_rem a b = sgn a * (\<bar>a\<bar> mod \<bar>b\<bar>)"

lemma c_rem_nonneg: "0 \<le> a \<Longrightarrow> 0 < b \<Longrightarrow> c_rem a b = a mod b"
  by (cases "a = 0") (simp_all add: c_rem_def sgn_if)

section \<open>64-bit values read as integers\<close>

lemma uint_of_int_u64:
  assumes "0 \<le> k" "k < 2 ^ 64"
  shows "uint (of_int k :: u64) = k"
  using assms by (simp add: uint_word_of_int)

lemma of_int_le_u64:
  assumes "0 \<le> k" "k < 2 ^ 64"
  shows "of_int k \<le> (w :: u64) \<longleftrightarrow> k \<le> uint w"
  using uint_of_int_u64 [OF assms] by (simp add: word_le_def)

lemma uint_diff_le: "a \<le> b \<Longrightarrow> uint (b - a) = uint b - uint (a :: 'a::len word)"
  by (simp add: uint_minus_simple_alt)

lemma uint_add_small_u64:
  "uint a + uint b < 2 ^ 64 \<Longrightarrow> uint (a + b :: u64) = uint a + uint b"
  by (simp add: uint_plus_if')

lemma unat_u64: "unat (w :: u64) = nat (uint w)"
  by (rule unat_eq_nat_uint)

lemma fold_opt_map: "fold_opt f (map g xs) s = fold_opt (\<lambda>x. f (g x)) xs s"
  by (induction xs arbitrary: s) (auto split: option.split)

end
