(* ===== verification/Wire.thy ===== *)
theory Wire
  imports Prelude
begin

text \<open>
  The wire format of \<open>src/env/co_env.h\<close>: the command codes, and the message classes, each a
  \<open>dataHeader\<close> (the command and the announced length, two \<open>int\<close>s) followed by the fields of the
  class in the layout of the x86-64 ABI. An object is the bytes it occupies, little-endian, and the
  code sends and receives these bytes as they are. The lemmas show that the fields of a class lie
  apart from each other inside the object, so that a field reads back what was stored in it.
\<close>

section \<open>Integers and memory\<close>

text \<open>An \<open>int\<close> occupies four bytes in two's complement.\<close>

definition enc32 :: "int \<Rightarrow> byte list" where
  "enc32 v = [word_of_int v, word_of_int (v div 256), word_of_int (v div 256 div 256),
     word_of_int (v div 256 div 256 div 256)]"

fun le_value :: "byte list \<Rightarrow> int" where
  "le_value [] = 0"
| "le_value (b # bs) = uint b + 256 * le_value bs"

definition dec32 :: "byte list \<Rightarrow> int" where
  "dec32 bs = sint (word_of_int (le_value bs) :: u32)"

definition peek :: "nat \<Rightarrow> nat \<Rightarrow> byte list \<Rightarrow> byte list" where
  "peek off n mem = take n (drop off mem)"

definition poke :: "nat \<Rightarrow> byte list \<Rightarrow> byte list \<Rightarrow> byte list" where
  "poke off bs mem = take off mem @ bs @ drop (off + length bs) mem"

definition get_int :: "nat \<Rightarrow> byte list \<Rightarrow> int" where
  "get_int off mem = dec32 (peek off 4 mem)"

definition put_int :: "nat \<Rightarrow> int \<Rightarrow> byte list \<Rightarrow> byte list" where
  "put_int off v = poke off (enc32 v)"

text \<open>The C string that starts at an offset: the bytes before the first zero byte, which need not lie
  in the field the string belongs to. Without a zero byte up to the end of the buffer the code reads
  past the buffer.\<close>

definition c_string :: "nat \<Rightarrow> byte list \<Rightarrow> byte list option" where
  "c_string off mem =
     (if 0 \<in> set (drop off mem) then Some (takeWhile (\<lambda>b. b \<noteq> 0) (drop off mem)) else None)"

text \<open>\<open>std::string\<close> values, as lists of characters.\<close>

definition to_str :: "byte list \<Rightarrow> string" where
  "to_str bs = map (\<lambda>b. char_of (unat b)) bs"

definition of_str :: "string \<Rightarrow> byte list" where
  "of_str s = map (\<lambda>c. of_nat (of_char c)) s"

section \<open>Commands\<close>

datatype (plugins only: code size) command =
    NOOPERATION | ADDFACE | GETGROUP | GETUSER | DELUSER | DELGROUP | LOGIN | LOGIN_RES |
    LOGIN_SUCCESS | LOGIN_NOUSER | LOGIN_ERRPASSWORD | REGISTER_RES | REGISTER_SUCCESS |
    REGISTER_USER_ALREADY_EXIST | DETECT | DETECT_RES | DETECT_SUCCESS | DETECT_NOUSER |
    MESSAGE_CREATE | MESSAGE_CREATE_RES | MESSAGE_CREATE_SUCCESS | MESSAGE_CREATE_FAILED |
    ONLINE | ONLINE_RES | ONLINE_SUCCESS | ONLINE_FAILED | OFFLINE | OFFLINE_RES |
    OFFLINE_SUCCESS | OFFLIBE_FAILED | CHECK_ISONLINE | CHECK_ISONLINE_RES |
    CHECK_ISONLINE_SUCCESS | CHECK_ISONLINE_FAILED | MESSAGE_SEND | MESSAGE_SEND_RES |
    MESSAGE_SEND_SUCCESS | MESSAGE_SEND_FAILED | MESSAGE_HISTORY | MESSAGE_HISTORY_RES |
    MESSAGE_HISTORY_COUNT_RES | MESSAGE_HISTORY_SUCCESS | MESSAGE_HISTORY_FAILED |
    MESSAGR_RECENT_SESSION | MESSAGR_RECENT_SESSION_RES | MESSAGR_RECENT_SESSION_SUCCESS |
    MESSAGR_RECENT_SESSION_FAILED | LOGIN_TOUXIANG | LOGIN_TOUXIANG_RES | LOGIN_TOUXIANG_SUCCESS
    | LOGIN_TOUXIANG_FAILED | CHANGE_TOUXIANG | CHANGE_TOUXIANG_RES | CHANGE_TOUXIANG_SUCCESS |
    CHANGE_TOUXIANG_FAILED | GET_TOUXIANG | GET_TOUXIANG_RES | GET_TOUXIANG_SUCCESS |
    GET_TOUXIANG_FAILED

primrec cmd_code :: "command \<Rightarrow> int" where
  "cmd_code NOOPERATION = 0"
| "cmd_code ADDFACE = 1"
| "cmd_code GETGROUP = 2"
| "cmd_code GETUSER = 3"
| "cmd_code DELUSER = 4"
| "cmd_code DELGROUP = 5"
| "cmd_code LOGIN = 6"
| "cmd_code LOGIN_RES = 7"
| "cmd_code LOGIN_SUCCESS = 8"
| "cmd_code LOGIN_NOUSER = 9"
| "cmd_code LOGIN_ERRPASSWORD = 10"
| "cmd_code REGISTER_RES = 11"
| "cmd_code REGISTER_SUCCESS = 12"
| "cmd_code REGISTER_USER_ALREADY_EXIST = 13"
| "cmd_code DETECT = 14"
| "cmd_code DETECT_RES = 15"
| "cmd_code DETECT_SUCCESS = 16"
| "cmd_code DETECT_NOUSER = 17"
| "cmd_code MESSAGE_CREATE = 18"
| "cmd_code MESSAGE_CREATE_RES = 19"
| "cmd_code MESSAGE_CREATE_SUCCESS = 20"
| "cmd_code MESSAGE_CREATE_FAILED = 21"
| "cmd_code ONLINE = 22"
| "cmd_code ONLINE_RES = 23"
| "cmd_code ONLINE_SUCCESS = 24"
| "cmd_code ONLINE_FAILED = 25"
| "cmd_code OFFLINE = 26"
| "cmd_code OFFLINE_RES = 27"
| "cmd_code OFFLINE_SUCCESS = 28"
| "cmd_code OFFLIBE_FAILED = 29"
| "cmd_code CHECK_ISONLINE = 30"
| "cmd_code CHECK_ISONLINE_RES = 31"
| "cmd_code CHECK_ISONLINE_SUCCESS = 32"
| "cmd_code CHECK_ISONLINE_FAILED = 33"
| "cmd_code MESSAGE_SEND = 34"
| "cmd_code MESSAGE_SEND_RES = 35"
| "cmd_code MESSAGE_SEND_SUCCESS = 36"
| "cmd_code MESSAGE_SEND_FAILED = 37"
| "cmd_code MESSAGE_HISTORY = 38"
| "cmd_code MESSAGE_HISTORY_RES = 39"
| "cmd_code MESSAGE_HISTORY_COUNT_RES = 40"
| "cmd_code MESSAGE_HISTORY_SUCCESS = 41"
| "cmd_code MESSAGE_HISTORY_FAILED = 42"
| "cmd_code MESSAGR_RECENT_SESSION = 43"
| "cmd_code MESSAGR_RECENT_SESSION_RES = 44"
| "cmd_code MESSAGR_RECENT_SESSION_SUCCESS = 45"
| "cmd_code MESSAGR_RECENT_SESSION_FAILED = 46"
| "cmd_code LOGIN_TOUXIANG = 47"
| "cmd_code LOGIN_TOUXIANG_RES = 48"
| "cmd_code LOGIN_TOUXIANG_SUCCESS = 49"
| "cmd_code LOGIN_TOUXIANG_FAILED = 50"
| "cmd_code CHANGE_TOUXIANG = 51"
| "cmd_code CHANGE_TOUXIANG_RES = 52"
| "cmd_code CHANGE_TOUXIANG_SUCCESS = 53"
| "cmd_code CHANGE_TOUXIANG_FAILED = 54"
| "cmd_code GET_TOUXIANG = 55"
| "cmd_code GET_TOUXIANG_RES = 56"
| "cmd_code GET_TOUXIANG_SUCCESS = 57"
| "cmd_code GET_TOUXIANG_FAILED = 58"

section \<open>Layout of the classes\<close>

datatype ty = Chars nat | Int32

text \<open>Whether the constructor of the class sets a field to zero.\<close>

datatype init = Zeroed | Uninit

primrec ty_size :: "ty \<Rightarrow> nat" where
  "ty_size (Chars n) = n"
| "ty_size Int32 = 4"

primrec ty_align :: "ty \<Rightarrow> nat" where
  "ty_align (Chars n) = 1"
| "ty_align Int32 = 4"

definition align_up :: "nat \<Rightarrow> nat \<Rightarrow> nat" where
  "align_up a p = (p + (a - 1)) div a * a"

type_synonym fields = "(string \<times> ty \<times> init) list"

fun layout :: "nat \<Rightarrow> fields \<Rightarrow> (string \<times> nat \<times> ty) list" where
  "layout p [] = []"
| "layout p ((f, t, _) # fs) =
     (f, align_up (ty_align t) p, t) # layout (align_up (ty_align t) p + ty_size t) fs"

fun fields_end :: "nat \<Rightarrow> fields \<Rightarrow> nat" where
  "fields_end p [] = p"
| "fields_end p ((f, t, _) # fs) = fields_end (align_up (ty_align t) p + ty_size t) fs"

text \<open>\<open>dataHeader\<close> is the first 8 bytes: \<open>m_cmd\<close> at 0 and \<open>m_dataLength\<close> at 4.\<close>

abbreviation (input) "header_size \<equiv> (8 :: nat)"
abbreviation (input) "m_cmd_off \<equiv> (0 :: nat)"
abbreviation (input) "m_dataLength_off \<equiv> (4 :: nat)"

record msg_class =
  cls_cmd :: command
  cls_len :: nat
  cls_fields :: fields

definition class_size :: "msg_class \<Rightarrow> nat" where
  "class_size c = align_up 4 (fields_end header_size (cls_fields c))"

definition mk_class :: "command \<Rightarrow> fields \<Rightarrow> msg_class" where
  "mk_class cmd fs = \<lparr>cls_cmd = cmd, cls_len = align_up 4 (fields_end header_size fs), cls_fields = fs\<rparr>"

definition offset :: "msg_class \<Rightarrow> string \<Rightarrow> nat" where
  "offset c f = (case map_of (layout header_size (cls_fields c)) f of Some (off, _) \<Rightarrow> off | None \<Rightarrow> 0)"

text \<open>The object a constructor makes from the contents \<open>junk\<close> of its memory.\<close>

fun zero_fields :: "nat \<Rightarrow> fields \<Rightarrow> byte list \<Rightarrow> byte list" where
  "zero_fields p [] mem = mem"
| "zero_fields p ((f, t, i) # fs) mem =
     (let off = align_up (ty_align t) p
      in zero_fields (off + ty_size t) fs
           (case i of Zeroed \<Rightarrow> poke off (replicate (ty_size t) 0) mem | Uninit \<Rightarrow> mem))"

definition construct :: "msg_class \<Rightarrow> byte list \<Rightarrow> byte list" where
  "construct c junk =
     zero_fields header_size (cls_fields c)
       (put_int m_dataLength_off (int (cls_len c)) (put_int m_cmd_off (cmd_code (cls_cmd c)) junk))"

section \<open>The message classes\<close>

text \<open>Each class with its command and its fields in the order of the declaration; the announced length
  is the size of the class, except where the code takes the size of another class.\<close>

definition addFaceData :: msg_class where
  "addFaceData = mk_class ADDFACE [(''m_classnum'', Chars 20, Zeroed),
     (''m_account'', Chars 20, Zeroed), (''m_password'', Chars 20, Zeroed),
     (''m_facedata'', Chars 1048576, Zeroed), (''m_cols'', Int32, Uninit),
     (''m_rows'', Int32, Uninit), (''m_type'', Int32, Uninit),
     (''m_touxiang'', Chars 50, Zeroed)]"

definition getGroupData :: msg_class where
  "getGroupData = mk_class GETGROUP []"

definition getUserData :: msg_class where
  "getUserData = mk_class GETUSER [(''m_group_id'', Chars 20, Uninit)]"

definition delUserData :: msg_class where
  "delUserData = mk_class DELUSER [(''m_group_id'', Chars 20, Zeroed),
     (''m_user_id'', Chars 20, Zeroed)]"

definition delGroupData :: msg_class where
  "delGroupData = mk_class DELGROUP [(''m_group_id'', Chars 20, Zeroed)]"

definition loginData :: msg_class where
  "loginData = mk_class LOGIN [(''m_classnum'', Chars 20, Zeroed),
     (''m_username'', Chars 20, Zeroed), (''m_password'', Chars 20, Zeroed),
     (''m_ip'', Chars 20, Zeroed)]"

definition loginResData :: msg_class where
  "loginResData = mk_class LOGIN_RES [(''m_res'', Int32, Uninit)]"

definition registerResData :: msg_class where
  "registerResData = mk_class REGISTER_RES [(''m_res'', Int32, Uninit)]"

definition detectFaceData :: msg_class where
  "detectFaceData = mk_class DETECT [(''m_classnum'', Chars 20, Zeroed),
     (''m_account'', Chars 20, Zeroed), (''m_facedata'', Chars 1048576, Zeroed),
     (''m_cols'', Int32, Uninit), (''m_rows'', Int32, Uninit), (''m_type'', Int32, Uninit)]"

definition detectFaceResData :: msg_class where
  "detectFaceResData = mk_class DETECT_RES [(''res'', Int32, Uninit)]"

definition messageCreateData :: msg_class where
  "messageCreateData = mk_class MESSAGE_CREATE [(''m_fromclassnum'', Chars 20, Zeroed),
     (''m_toclassnum'', Chars 20, Zeroed), (''m_fromaccount'', Chars 20, Zeroed),
     (''m_toaccount'', Chars 20, Zeroed), (''m_peertouxiang'', Chars 50, Zeroed)]"

definition messageCreateResData :: msg_class where
  "messageCreateResData = mk_class MESSAGE_CREATE_RES [(''res'', Int32, Uninit)]"

definition onlineData :: msg_class where
  "onlineData = mk_class ONLINE [(''m_classnum'', Chars 20, Zeroed),
     (''m_account'', Chars 20, Zeroed)]"

definition onlineResData :: msg_class where
  "onlineResData = mk_class ONLINE_RES [(''res'', Int32, Uninit)]"

definition offlineData :: msg_class where
  "offlineData = mk_class OFFLINE [(''m_classnum'', Chars 20, Zeroed),
     (''m_account'', Chars 20, Zeroed)]"

definition offlineResData :: msg_class where
  "offlineResData = mk_class OFFLINE_RES [(''res'', Int32, Uninit)]"

definition checkOnlineData :: msg_class where
  "checkOnlineData = mk_class CHECK_ISONLINE []"

definition messageSendData :: msg_class where
  "messageSendData = mk_class MESSAGE_SEND [(''fromClassNum'', Chars 20, Zeroed),
     (''toClassNum'', Chars 20, Zeroed), (''fromAccount'', Chars 20, Zeroed),
     (''toAccount'', Chars 20, Zeroed), (''updatetime'', Int32, Uninit),
     (''messageContent'', Chars 4096, Zeroed)]"

definition messageSendRes :: msg_class where
  "messageSendRes = mk_class MESSAGE_SEND_RES [(''res'', Int32, Zeroed)]"

definition messageHistoryData :: msg_class where
  "messageHistoryData = mk_class MESSAGE_HISTORY [(''fromClassNum'', Chars 20, Zeroed),
     (''toClassNum'', Chars 20, Zeroed), (''fromAccount'', Chars 20, Zeroed),
     (''toAccount'', Chars 20, Zeroed), (''lastupdatetime'', Int32, Zeroed)]"

definition messageHistoryCountResData :: msg_class where
  "messageHistoryCountResData = mk_class MESSAGE_HISTORY_COUNT_RES [(''m_count'', Int32, Zeroed),
     (''res'', Int32, Uninit)]"

definition messageHistoryResData :: msg_class where
  "messageHistoryResData = (mk_class MESSAGE_HISTORY_RES
     [(''res'', Int32, Uninit)])\<lparr>cls_len := cls_len messageHistoryCountResData\<rparr>"

definition messageRecentSessionData :: msg_class where
  "messageRecentSessionData = mk_class MESSAGR_RECENT_SESSION [(''classNum'', Chars 20, Zeroed),
     (''account'', Chars 20, Zeroed), (''lastMessage'', Chars 1024, Zeroed),
     (''touxiang'', Chars 50, Zeroed), (''lastupdatetime'', Int32, Zeroed)]"

definition messageRecentSessionResData :: msg_class where
  "messageRecentSessionResData = mk_class MESSAGR_RECENT_SESSION_RES [(''res'', Int32, Zeroed),
     (''m_count'', Int32, Zeroed)]"

definition loginTouXiang :: msg_class where
  "loginTouXiang = mk_class LOGIN_TOUXIANG [(''m_classNum'', Chars 20, Zeroed),
     (''m_account'', Chars 20, Zeroed)]"

definition loginTouXiangRes :: msg_class where
  "loginTouXiangRes = mk_class LOGIN_TOUXIANG_RES [(''m_touxiang'', Chars 50, Zeroed),
     (''res'', Int32, Uninit)]"

definition changeTouXiangData :: msg_class where
  "changeTouXiangData = mk_class CHANGE_TOUXIANG [(''m_classNum'', Chars 20, Zeroed),
     (''m_account'', Chars 20, Zeroed), (''m_touxiang'', Chars 50, Zeroed)]"

definition changeTouXiangRes :: msg_class where
  "changeTouXiangRes = mk_class CHANGE_TOUXIANG_RES [(''m_res'', Int32, Zeroed)]"

definition getTouXiangData :: msg_class where
  "getTouXiangData = mk_class GET_TOUXIANG [(''m_classNum'', Chars 20, Zeroed),
     (''m_account'', Chars 20, Zeroed)]"

definition getTouXiangRes :: msg_class where
  "getTouXiangRes = mk_class GET_TOUXIANG_RES [(''m_touxiang'', Chars 50, Zeroed),
     (''m_res'', Int32, Zeroed)]"

definition classes :: "msg_class list" where
  "classes = [addFaceData, getGroupData, getUserData, delUserData, delGroupData, loginData,
     loginResData, registerResData, detectFaceData, detectFaceResData, messageCreateData,
     messageCreateResData, onlineData, onlineResData, offlineData, offlineResData,
     checkOnlineData, messageSendData, messageSendRes, messageHistoryData,
     messageHistoryCountResData, messageHistoryResData, messageRecentSessionData,
     messageRecentSessionResData, loginTouXiang, loginTouXiangRes, changeTouXiangData,
     changeTouXiangRes, getTouXiangData, getTouXiangRes]"

lemmas class_defs =
  addFaceData_def getGroupData_def getUserData_def delUserData_def delGroupData_def loginData_def
  loginResData_def registerResData_def detectFaceData_def detectFaceResData_def
  messageCreateData_def messageCreateResData_def onlineData_def onlineResData_def offlineData_def
  offlineResData_def checkOnlineData_def messageSendData_def messageSendRes_def
  messageHistoryData_def messageHistoryCountResData_def messageHistoryResData_def
  messageRecentSessionData_def messageRecentSessionResData_def loginTouXiang_def
  loginTouXiangRes_def changeTouXiangData_def changeTouXiangRes_def getTouXiangData_def
  getTouXiangRes_def

section \<open>Memory lemmas\<close>

lemma length_enc32 [simp]: "length (enc32 v) = 4"
  by (simp add: enc32_def)

lemma length_poke [simp]: "off + length bs \<le> length mem \<Longrightarrow> length (poke off bs mem) = length mem"
  by (simp add: poke_def)

lemma length_put_int [simp]: "off + 4 \<le> length mem \<Longrightarrow> length (put_int off v mem) = length mem"
  by (simp add: put_int_def)

lemma peek_poke_same [simp]:
  "off \<le> length mem \<Longrightarrow> n = length bs \<Longrightarrow> peek off n (poke off bs mem) = bs"
  by (simp add: peek_def poke_def)

lemma peek_poke_other:
  assumes "off + length bs \<le> length mem" "off2 + n \<le> off \<or> off + length bs \<le> off2"
  shows "peek off2 n (poke off bs mem) = peek off2 n mem"
proof (rule nth_equalityI)
  show "length (peek off2 n (poke off bs mem)) = length (peek off2 n mem)"
    using assms(1) by (simp add: peek_def)
  fix i
  assume "i < length (peek off2 n (poke off bs mem))"
  then show "peek off2 n (poke off bs mem) ! i = peek off2 n mem ! i"
    using assms by (auto simp: peek_def poke_def nth_append)
qed

lemma powers_of_256:
  "(256 :: int) * 256 = 65536" "(256 :: int) * 65536 = 16777216" "(256 :: int) * 16777216 = 4294967296"
  by simp_all

lemma low_digit:
  fixes w :: int
  shows "w mod 4294967296 = 256 * (w div 256 mod 16777216) + w mod 256"
    and "w mod 16777216 = 256 * (w div 256 mod 65536) + w mod 256"
    and "w mod 65536 = 256 * (w div 256 mod 256) + w mod 256"
    by (rule zmod_zmult2_eq [of 16777216 w 256, unfolded powers_of_256], simp)
      (rule zmod_zmult2_eq [of 65536 w 256, unfolded powers_of_256], simp,
       rule zmod_zmult2_eq [of 256 w 256, unfolded powers_of_256], simp)

lemma four_digits:
  fixes v :: int
  shows "v mod 256 + 256 * (v div 256 mod 256 + 256 * (v div 256 div 256 mod 256 + 256 * (v div 256 div 256 div 256 mod 256)))
     = v mod 4294967296"
  by (simp only: low_digit(1) [of v] low_digit(2) [of "v div 256"] low_digit(3) [of "v div 256 div 256"] add.commute)

lemma le_value_enc32: "le_value (enc32 v) = v mod 4294967296"
proof -
  have "uint (word_of_int w :: byte) = w mod 256" for w by (simp add: uint_word_of_int)
  then show ?thesis
    by (simp only: enc32_def le_value.simps mult_zero_right add_0_right four_digits)
qed

lemma dec32_enc32:
  assumes "- (2 ^ 31) \<le> v" "v < 2 ^ 31"
  shows "dec32 (enc32 v) = v"
proof -
  have "dec32 (enc32 v) = sint (word_of_int (v mod 4294967296) :: u32)"
    by (simp add: dec32_def le_value_enc32)
  also have "(word_of_int (v mod 4294967296) :: u32) = word_of_int v"
    by (simp add: word_of_int_eq_iff take_bit_eq_mod)
  also have "sint (word_of_int v :: u32) = v"
    using assms by (simp add: sint_sbintrunc' signed_take_bit_int_eq_self)
  finally show ?thesis .
qed

lemma get_put_int [simp]:
  "off + 4 \<le> length mem \<Longrightarrow> - (2 ^ 31) \<le> v \<Longrightarrow> v < 2 ^ 31 \<Longrightarrow> get_int off (put_int off v mem) = v"
  by (simp add: get_int_def put_int_def dec32_enc32)

lemma to_of_str [simp]: "to_str (of_str s) = s"
proof -
  have "char_of (unat (of_nat (of_char c) :: byte)) = c" for c
    by (simp add: unat_of_nat)
  then show ?thesis by (simp add: to_str_def of_str_def comp_def)
qed

section \<open>The fields of a class lie apart\<close>

lemma align_up_ge:
  assumes "0 < a"
  shows "p \<le> align_up a p"
proof -
  let ?m = "p + (a - 1)"
  have "?m div a * a + ?m mod a = ?m" by (rule div_mult_mod_eq)
  moreover have "?m mod a < a" using assms by (rule mod_less_divisor)
  ultimately show ?thesis unfolding align_up_def using assms by linarith
qed

lemma ty_align_pos [simp]: "0 < ty_align t"
  by (cases t) simp_all

lemma fields_end_ge: "p \<le> fields_end p fs"
proof (induction p fs rule: fields_end.induct)
  case (2 p f t i fs)
  have "p \<le> align_up (ty_align t) p" by (rule align_up_ge) simp
  then show ?case using 2 by simp
qed simp

lemma layout_bounds:
  "(f, off, t) \<in> set (layout p fs) \<Longrightarrow> p \<le> off \<and> off + ty_size t \<le> fields_end p fs"
proof (induction p fs rule: layout.induct)
  case (2 p g u i fs)
  let ?o = "align_up (ty_align u) p"
  have o: "p \<le> ?o" by (rule align_up_ge) simp
  show ?case
  proof (cases "(f, off, t) = (g, ?o, u)")
    case True
    then show ?thesis using o fields_end_ge [of "?o + ty_size u" fs] by simp
  next
    case False
    then have "(f, off, t) \<in> set (layout (?o + ty_size u) fs)" using 2(2) by auto
    from 2(1) [OF this] show ?thesis using o by simp
  qed
qed simp

lemma layout_apart:
  "(f, off, t) \<in> set (layout p fs) \<Longrightarrow> (g, off2, u) \<in> set (layout p fs) \<Longrightarrow> f \<noteq> g \<Longrightarrow>
     off + ty_size t \<le> off2 \<or> off2 + ty_size u \<le> off"
proof (induction p fs rule: layout.induct)
  case (2 p h v i fs)
  let ?q = "align_up (ty_align v) p + ty_size v"
  have rest: "?q \<le> o'" if "(x, o', w) \<in> set (layout ?q fs)" for x o' w
    using layout_bounds [OF that] by simp
  from 2(2,3) consider "f = h" "off = align_up (ty_align v) p" "t = v" "(g, off2, u) \<in> set (layout ?q fs)"
    | "g = h" "off2 = align_up (ty_align v) p" "u = v" "(f, off, t) \<in> set (layout ?q fs)"
    | "(f, off, t) \<in> set (layout ?q fs)" "(g, off2, u) \<in> set (layout ?q fs)"
    using 2(4) by auto
  then show ?case
    by cases (use rest 2(1,4) in \<open>auto\<close>)
qed simp

definition has_field :: "msg_class \<Rightarrow> string \<Rightarrow> nat \<Rightarrow> ty \<Rightarrow> bool" where
  "has_field c f off t \<longleftrightarrow> (f, off, t) \<in> set (layout header_size (cls_fields c))"

lemma class_size_ge: "fields_end header_size (cls_fields c) \<le> class_size c"
  unfolding class_size_def by (rule align_up_ge) simp

lemma has_field_bounds:
  "has_field c f off t \<Longrightarrow> header_size \<le> off \<and> off + ty_size t \<le> class_size c"
  using layout_bounds class_size_ge [of c] unfolding has_field_def by (meson order_trans)

lemma map_fst_layout: "map fst (layout p fs) = map fst fs"
  by (induction p fs rule: layout.induct) simp_all

lemma offset_field:
  "distinct (map fst (cls_fields c)) \<Longrightarrow> has_field c f off t \<Longrightarrow> offset c f = off"
  by (simp add: offset_def has_field_def map_fst_layout)

section \<open>Objects\<close>

lemma peek_zero_fields:
  assumes "fields_end p fs \<le> length mem"
  shows "length (zero_fields p fs mem) = length mem \<and>
    (\<forall>off n. off + n \<le> p \<longrightarrow> peek off n (zero_fields p fs mem) = peek off n mem)"
  using assms
proof (induction p fs mem rule: zero_fields.induct)
  case (2 p f t i fs mem)
  let ?o = "align_up (ty_align t) p"
  let ?mem = "case i of Zeroed \<Rightarrow> poke ?o (replicate (ty_size t) 0) mem | Uninit \<Rightarrow> mem"
  have o: "p \<le> ?o" by (rule align_up_ge) simp
  have e: "?o + ty_size t \<le> length mem" using fields_end_ge [of "?o + ty_size t" fs] 2(2) by simp
  then have l: "length ?mem = length mem" by (simp split: init.split)
  have same: "peek off n ?mem = peek off n mem" if "off + n \<le> p" for off n
    using that o e by (simp add: peek_poke_other split: init.split)
  have "fields_end (?o + ty_size t) fs \<le> length ?mem" using 2(2) l by simp
  from 2(1) [OF refl this] show ?case using l o same by (simp add: Let_def)
qed simp

lemma zero_fields_zeroed:
  assumes "fields_end p fs \<le> length mem" "(f, off, t) \<in> set (layout p fs)" "distinct (map fst fs)"
    "map_of fs f = Some (t, Zeroed)"
  shows "peek off (ty_size t) (zero_fields p fs mem) = replicate (ty_size t) 0"
  using assms
proof (induction p fs mem rule: zero_fields.induct)
  case (2 p g u i fs mem)
  let ?o = "align_up (ty_align u) p"
  let ?mem = "case i of Zeroed \<Rightarrow> poke ?o (replicate (ty_size u) 0) mem | Uninit \<Rightarrow> mem"
  have e: "?o + ty_size u \<le> length mem" using fields_end_ge [of "?o + ty_size u" fs] 2(2) by simp
  then have le: "fields_end (?o + ty_size u) fs \<le> length ?mem" using 2(2) by (simp split: init.split)
  show ?case
  proof (cases "f = g")
    case True
    then have f: "t = u" "i = Zeroed" using 2(5) by simp_all
    have "f \<notin> fst ` set (layout (?o + ty_size u) fs)"
      using 2(4) True map_fst_layout [of "?o + ty_size u" fs] by (metis distinct.simps(2) list.map(2) list.set_map fst_conv)
    then have "off = ?o" using 2(3) True by (force simp: image_iff)
    then show ?thesis
      using peek_zero_fields [OF le] f e by (simp add: Let_def)
  next
    case False
    then have "(f, off, t) \<in> set (layout (?o + ty_size u) fs)" "map_of fs f = Some (t, Zeroed)"
      "distinct (map fst fs)" using 2(3-5) by auto
    from 2(1) [OF refl le this(1,3,2)] show ?thesis by (simp add: Let_def)
  qed
qed simp

definition well_formed :: "msg_class \<Rightarrow> bool" where
  "well_formed c \<longleftrightarrow> distinct (map fst (cls_fields c)) \<and> cls_len c < 2 ^ 31"

lemma classes_well_formed: "c \<in> set classes \<Longrightarrow> well_formed c"
  unfolding classes_def by (auto simp: well_formed_def class_defs mk_class_def class_size_def align_up_def)

lemma cmd_code_bounds: "0 \<le> cmd_code k \<and> cmd_code k < 59"
  by (cases k) simp_all

lemma construct_props:
  assumes "well_formed c" "length junk = class_size c"
  shows "length (construct c junk) = class_size c"
    and "get_int m_cmd_off (construct c junk) = cmd_code (cls_cmd c)"
    and "get_int m_dataLength_off (construct c junk) = int (cls_len c)"
proof -
  let ?h = "put_int m_dataLength_off (int (cls_len c)) (put_int m_cmd_off (cmd_code (cls_cmd c)) junk)"
  have sz: "8 \<le> length junk" "fields_end header_size (cls_fields c) \<le> length ?h"
    using class_size_ge [of c] fields_end_ge [of 8 "cls_fields c"] assms(2) by simp_all
  note z = peek_zero_fields [OF sz(2)]
  show "length (construct c junk) = class_size c"
    using z sz(1) assms(2) by (simp add: construct_def)
  have "get_int m_cmd_off (construct c junk) = get_int m_cmd_off ?h"
    "get_int m_dataLength_off (construct c junk) = get_int m_dataLength_off ?h"
    using z by (simp_all add: construct_def get_int_def)
  moreover have "get_int m_cmd_off ?h = get_int m_cmd_off (put_int m_cmd_off (cmd_code (cls_cmd c)) junk)"
    using sz(1) by (simp add: get_int_def put_int_def [of 4] peek_poke_other)
  moreover have "get_int m_cmd_off (put_int m_cmd_off (cmd_code (cls_cmd c)) junk) = cmd_code (cls_cmd c)"
    using sz(1) cmd_code_bounds [of "cls_cmd c"] by (intro get_put_int) auto
  moreover have "get_int m_dataLength_off ?h = int (cls_len c)"
    using sz(1) assms(1) by (intro get_put_int) (auto simp: well_formed_def)
  ultimately show "get_int m_cmd_off (construct c junk) = cmd_code (cls_cmd c)"
    "get_int m_dataLength_off (construct c junk) = int (cls_len c)" by simp_all
qed

section \<open>Properties\<close>

lemma constructed_zero:
  assumes "c \<in> set classes" "length junk = class_size c" "has_field c f off t" "(f, t, Zeroed) \<in> set (cls_fields c)"
  shows "peek off (ty_size t) (construct c junk) = replicate (ty_size t) 0"
proof -
  let ?h = "put_int m_dataLength_off (int (cls_len c)) (put_int m_cmd_off (cmd_code (cls_cmd c)) junk)"
  have d: "distinct (map fst (cls_fields c))" using classes_well_formed [OF assms(1)] by (simp add: well_formed_def)
  have "fields_end header_size (cls_fields c) \<le> length ?h"
    using class_size_ge [of c] fields_end_ge [of 8 "cls_fields c"] assms(2) by simp
  from zero_fields_zeroed [OF this assms(3) [unfolded has_field_def] d map_of_is_SomeI [OF d assms(4)]]
  show ?thesis by (simp add: construct_def)
qed

lemma layout_field: "(f, off, t) \<in> set (layout p fs) \<Longrightarrow> \<exists>i. (f, t, i) \<in> set fs"
  by (induction p fs rule: layout.induct) auto

lemma class_codes_distinct: "distinct (map (\<lambda>c. cmd_code (cls_cmd c)) classes)"
  by (simp add: classes_def class_defs mk_class_def)

lemma same_code: "c \<in> set classes \<Longrightarrow> d \<in> set classes \<Longrightarrow> cmd_code (cls_cmd d) = cmd_code (cls_cmd c) \<Longrightarrow> d = c"
  using class_codes_distinct by (auto simp: distinct_map dest: inj_onD)

lemma text_fields_cmd:
  "\<forall>c \<in> set classes. cls_cmd c = GETUSER \<or>
     (\<forall>(f, t, i) \<in> set (cls_fields c). case t of Chars n \<Rightarrow> i = Zeroed \<and> 0 < n | Int32 \<Rightarrow> True)"
  by (simp add: classes_def class_defs mk_class_def)

lemma counters_zeroed:
  "\<forall>c \<in> set classes. \<forall>(f, t, i) \<in> set (cls_fields c). f = ''m_count'' \<or> f = ''lastupdatetime'' \<longrightarrow> i = Zeroed"
  by (simp add: classes_def class_defs mk_class_def)

lemma text_fields_zeroed:
  assumes "c \<in> set classes" "c \<noteq> getUserData" "(f, Chars n, i) \<in> set (cls_fields c)"
  shows "i = Zeroed \<and> 0 < n"
proof -
  have h: "getUserData \<in> set classes" "cls_cmd getUserData = GETUSER"
    by (simp_all add: classes_def getUserData_def mk_class_def)
  then have "cls_cmd c \<noteq> GETUSER" using same_code [OF assms(1) h(1)] assms(2) by auto
  then show ?thesis using text_fields_cmd assms(1,3) by fastforce
qed

lemma class_lengths_cmd:
  "\<forall>c \<in> set classes. cls_len c = (if cls_cmd c = MESSAGE_HISTORY_RES then 16 else class_size c)"
  by (simp add: classes_def class_defs mk_class_def class_size_def align_up_def)

lemma class_lengths: "c \<in> set classes \<Longrightarrow> cls_len c = (if c = messageHistoryResData then 16 else class_size c)"
proof -
  have h: "messageHistoryResData \<in> set classes" "cls_cmd messageHistoryResData = MESSAGE_HISTORY_RES"
    by (simp_all add: classes_def messageHistoryResData_def mk_class_def)
  show "c \<in> set classes \<Longrightarrow> ?thesis" using class_lengths_cmd same_code [OF _ h(1)] h by metis
qed

lemma dec32_zero: "dec32 [0, 0, 0, 0] = 0"
  by (simp add: dec32_def)


text \<open>Storing the bytes of one field of an object changes this field only: it reads back the bytes, and
  every other field and the two words of the header keep theirs.\<close>

theorem field_roundtrip:
  assumes "c \<in> set classes" "length obj = class_size c" "has_field c f off t" "length bs = ty_size t"
    and "has_field c g off2 u" "g \<noteq> f"
  shows "length (poke off bs obj) = class_size c \<and> offset c f = off \<and>
    peek off (ty_size t) (poke off bs obj) = bs \<and>
    peek off2 (ty_size u) (poke off bs obj) = peek off2 (ty_size u) obj \<and>
    get_int m_cmd_off (poke off bs obj) = get_int m_cmd_off obj \<and>
    get_int m_dataLength_off (poke off bs obj) = get_int m_dataLength_off obj"
proof -
  note b = has_field_bounds [OF assms(3)]
  have "off + ty_size t \<le> off2 \<or> off2 + ty_size u \<le> off"
    using layout_apart assms(3,5,6) unfolding has_field_def by metis
  then show ?thesis
    using assms(2,4) b classes_well_formed [OF assms(1)] offset_field [OF _ assms(3)]
    by (auto simp: peek_poke_other get_int_def well_formed_def)
qed

text \<open>The sizes of the classes, and the lengths their constructors announce: they agree for every class but
  one. \<open>messageHistoryResData\<close> takes the size of \<open>messageHistoryCountResData\<close> and announces 16 bytes
  for an object of 12.\<close>

theorem announced_lengths:
  "map class_size classes =
     [1048708, 8, 28, 48, 28, 88, 12, 12, 1048636, 12, 140, 12, 48, 12, 48, 12, 8, 4188, 12, 92, 16, 12,
      1128, 16, 48, 64, 100, 12, 48, 64] \<and>
   map cls_len classes = map (\<lambda>c. if cls_cmd c = MESSAGE_HISTORY_RES then 16 else class_size c) classes"
  by (simp add: classes_def class_defs mk_class_def class_size_def align_up_def)


theorem field_roundtrip_witness:
  "peek 8 20 (poke 8 (replicate 20 65) (replicate 48 1)) = replicate 20 65 \<and>
   peek 28 20 (poke 8 (replicate 20 65) (replicate 48 1)) = replicate 20 1"
proof -
  have "has_field onlineData ''m_classnum'' 8 (Chars 20)" "has_field onlineData ''m_account'' 28 (Chars 20)"
    "class_size onlineData = 48" "onlineData \<in> set classes"
    by (simp_all add: has_field_def onlineData_def mk_class_def align_up_def class_size_def classes_def)
  from field_roundtrip [OF this(4) _ this(1) _ this(2), of "replicate 48 1" "replicate 20 65"] this(3)
  show ?thesis by (simp add: peek_def)
qed

end
