(* ===== verification/Intrusive_List.thy ===== *)
theory Intrusive_List
  imports Prelude
begin

text \<open>
  The intrusive doubly linked lists of \<open>src/coroutine/co_routine.cpp\<close>: the templates
  \<open>RemoveFromLink\<close>, \<open>AddTail\<close>, \<open>PopHead\<close> and \<open>Join\<close>, which link timeout items into
  the slots of the timeout ring and the active and timeout lists of the event loop, and
  condition items into a condition variable. The model keeps the pointers: a node has
  \<open>pPrev\<close>, \<open>pNext\<close> and \<open>pLink\<close>, a list has \<open>head\<close> and \<open>tail\<close>, and a null pointer is
  \<open>None\<close>. An operation that may fail an assertion or follow a null pointer returns an
  option, with \<open>None\<close> for the crash; the refinement lemmas show that on well-formed
  stores it does not crash and what it does to the lists the store represents.
\<close>

section \<open>The pointer store\<close>

record ('n, 'l) links =
  pPrev :: "'n \<Rightarrow> 'n option"
  pNext :: "'n \<Rightarrow> 'n option"
  pLink :: "'n \<Rightarrow> 'l option"
  lhead :: "'l \<Rightarrow> 'n option"
  ltail :: "'l \<Rightarrow> 'n option"

definition set_prev :: "'n \<Rightarrow> 'n option \<Rightarrow> ('n, 'l) links \<Rightarrow> ('n, 'l) links" where
  "set_prev n v s = s\<lparr>pPrev := (pPrev s)(n := v)\<rparr>"

definition set_next :: "'n \<Rightarrow> 'n option \<Rightarrow> ('n, 'l) links \<Rightarrow> ('n, 'l) links" where
  "set_next n v s = s\<lparr>pNext := (pNext s)(n := v)\<rparr>"

definition set_plink :: "'n \<Rightarrow> 'l option \<Rightarrow> ('n, 'l) links \<Rightarrow> ('n, 'l) links" where
  "set_plink n v s = s\<lparr>pLink := (pLink s)(n := v)\<rparr>"

definition set_head :: "'l \<Rightarrow> 'n option \<Rightarrow> ('n, 'l) links \<Rightarrow> ('n, 'l) links" where
  "set_head l v s = s\<lparr>lhead := (lhead s)(l := v)\<rparr>"

definition set_tail :: "'l \<Rightarrow> 'n option \<Rightarrow> ('n, 'l) links \<Rightarrow> ('n, 'l) links" where
  "set_tail l v s = s\<lparr>ltail := (ltail s)(l := v)\<rparr>"

lemma set_prev_sel [simp]:
  "pPrev (set_prev n v s) = (pPrev s)(n := v)" "pNext (set_prev n v s) = pNext s"
  "pLink (set_prev n v s) = pLink s" "lhead (set_prev n v s) = lhead s"
  "ltail (set_prev n v s) = ltail s"
  by (simp_all add: set_prev_def)

lemma set_next_sel [simp]:
  "pPrev (set_next n v s) = pPrev s" "pNext (set_next n v s) = (pNext s)(n := v)"
  "pLink (set_next n v s) = pLink s" "lhead (set_next n v s) = lhead s"
  "ltail (set_next n v s) = ltail s"
  by (simp_all add: set_next_def)

lemma set_plink_sel [simp]:
  "pPrev (set_plink n v s) = pPrev s" "pNext (set_plink n v s) = pNext s"
  "pLink (set_plink n v s) = (pLink s)(n := v)" "lhead (set_plink n v s) = lhead s"
  "ltail (set_plink n v s) = ltail s"
  by (simp_all add: set_plink_def)

lemma set_head_sel [simp]:
  "pPrev (set_head l v s) = pPrev s" "pNext (set_head l v s) = pNext s"
  "pLink (set_head l v s) = pLink s" "lhead (set_head l v s) = (lhead s)(l := v)"
  "ltail (set_head l v s) = ltail s"
  by (simp_all add: set_head_def)

lemma set_tail_sel [simp]:
  "pPrev (set_tail l v s) = pPrev s" "pNext (set_tail l v s) = pNext s"
  "pLink (set_tail l v s) = pLink s" "lhead (set_tail l v s) = lhead s"
  "ltail (set_tail l v s) = (ltail s)(l := v)"
  by (simp_all add: set_tail_def)

text \<open>A zeroed store (\<open>calloc\<close>, \<open>memset\<close>): every pointer is null.\<close>

definition empty_links :: "('n, 'l) links" where
  "empty_links = \<lparr>pPrev = (\<lambda>_. None), pNext = (\<lambda>_. None), pLink = (\<lambda>_. None),
     lhead = (\<lambda>_. None), ltail = (\<lambda>_. None)\<rparr>"

section \<open>The operations\<close>

definition RemoveFromLink :: "'n \<Rightarrow> ('n, 'l) links \<Rightarrow> ('n, 'l) links option" where
  "RemoveFromLink ap s =
     (case pLink s ap of
        None \<Rightarrow> Some s
      | Some lst \<Rightarrow>
          if lhead s lst = None \<or> ltail s lst = None then None
          else
            let s1 =
              (if lhead s lst = Some ap then
                 (let s' = set_head lst (pNext s ap) s
                  in case lhead s' lst of None \<Rightarrow> s' | Some h \<Rightarrow> set_prev h None s')
               else (case pPrev s ap of None \<Rightarrow> s | Some p \<Rightarrow> set_next p (pNext s ap) s));
                os2 =
              (if ltail s1 lst = Some ap then
                 (let s' = set_tail lst (pPrev s1 ap) s1
                  in Some (case ltail s' lst of None \<Rightarrow> s' | Some t \<Rightarrow> set_next t None s'))
               else (case pNext s1 ap of
                       None \<Rightarrow> None
                     | Some nx \<Rightarrow> Some (set_prev nx (pPrev s1 ap) s1)))
            in map_option (\<lambda>s2. set_plink ap None (set_prev ap None (set_next ap None s2))) os2)"

definition AddTail :: "'l \<Rightarrow> 'n \<Rightarrow> ('n, 'l) links \<Rightarrow> ('n, 'l) links" where
  "AddTail apLink ap s =
     (if pLink s ap \<noteq> None then s
      else
        (let s1 =
           (case ltail s apLink of
              Some t \<Rightarrow>
                set_tail apLink (Some ap)
                  (set_prev ap (Some t) (set_next ap None (set_next t (Some ap) s)))
            | None \<Rightarrow>
                set_prev ap None (set_next ap None
                  (set_head apLink (Some ap) (set_tail apLink (Some ap) s))))
         in set_plink ap (Some apLink) s1))"

definition PopHead :: "'l \<Rightarrow> ('n, 'l) links \<Rightarrow> ('n, 'l) links" where
  "PopHead apLink s =
     (case lhead s apLink of
        None \<Rightarrow> s
      | Some lp \<Rightarrow>
          let s1 =
            (if lhead s apLink = ltail s apLink
             then set_head apLink None (set_tail apLink None s)
             else set_head apLink (pNext s lp) s);
              s2 = set_plink lp None (set_prev lp None (set_next lp None s1))
          in case lhead s2 apLink of None \<Rightarrow> s2 | Some h \<Rightarrow> set_prev h None s2)"

text \<open>The loop of \<open>Join\<close> that redirects every node of the other list; on a cyclic chain it
  would not return.\<close>

partial_function (option) relink ::
  "'l \<Rightarrow> 'n option \<Rightarrow> ('n, 'l) links \<Rightarrow> ('n, 'l) links option" where
  "relink apLink lp s =
     (case lp of
        None \<Rightarrow> Some s
      | Some n \<Rightarrow> relink apLink (pNext s n) (set_plink n (Some apLink) s))"

declare relink.simps [code]

definition Join :: "'l \<Rightarrow> 'l \<Rightarrow> ('n, 'l) links \<Rightarrow> ('n, 'l) links option" where
  "Join apLink apOther s =
     (case lhead s apOther of
        None \<Rightarrow> Some s
      | Some lp \<Rightarrow>
          map_option
            (\<lambda>s1.
               (let s2 =
                  (case ltail s1 apLink of
                     Some t \<Rightarrow>
                       (let s' = set_prev lp (Some t) (set_next t (Some lp) s1)
                        in set_tail apLink (ltail s' apOther) s')
                   | None \<Rightarrow>
                       set_tail apLink (ltail s1 apOther)
                         (set_head apLink (lhead s1 apOther) s1))
                in set_head apOther None (set_tail apOther None s2)))
            (relink apLink (Some lp) s))"

section \<open>What a store represents\<close>

text \<open>
  \<open>dseg s p xs q\<close>: the nodes \<open>xs\<close> are chained in this order, the first one's \<open>pPrev\<close> is
  \<open>p\<close> and the last one's \<open>pNext\<close> is \<open>q\<close>. \<open>represents s L\<close>: every list of the store is
  such a chain, \<open>L\<close> gives its nodes in order, and \<open>pLink\<close> of a node is the one list it
  is in.
\<close>

fun dseg :: "('n, 'l) links \<Rightarrow> 'n option \<Rightarrow> 'n list \<Rightarrow> 'n option \<Rightarrow> bool" where
  "dseg s p [] q = True"
| "dseg s p (x # xs) q =
     (pPrev s x = p \<and> pNext s x = first_or xs q \<and> dseg s (Some x) xs q)"

definition dlist :: "('n, 'l) links \<Rightarrow> 'l \<Rightarrow> 'n list \<Rightarrow> bool" where
  "dlist s l xs \<longleftrightarrow>
     distinct xs \<and> lhead s l = first_or xs None \<and> ltail s l = last_or None xs \<and>
     dseg s None xs None"

definition represents :: "('n, 'l) links \<Rightarrow> ('l \<Rightarrow> 'n list) \<Rightarrow> bool" where
  "represents s L \<longleftrightarrow>
     (\<forall>l. dlist s l (L l)) \<and> (\<forall>n l. pLink s n = Some l \<longleftrightarrow> n \<in> set (L l))"

lemma dseg_append [simp]:
  "dseg s p (xs @ ys) q \<longleftrightarrow> dseg s p xs (first_or ys q) \<and> dseg s (last_or p xs) ys q"
  by (induction xs arbitrary: p) auto

lemma dseg_frame:
  assumes "\<And>x. x \<in> set xs \<Longrightarrow> pPrev s' x = pPrev s x"
    and "\<And>x. x \<in> set xs \<Longrightarrow> pNext s' x = pNext s x"
  shows "dseg s' p xs q = dseg s p xs q"
  using assms by (induction xs arbitrary: p) auto

lemma dseg_upd [simp]:
  "n \<notin> set xs \<Longrightarrow> dseg (set_prev n v s) p xs q = dseg s p xs q"
  "n \<notin> set xs \<Longrightarrow> dseg (set_next n v s) p xs q = dseg s p xs q"
  "dseg (set_plink m w s) p xs q = dseg s p xs q"
  "dseg (set_head l v s) p xs q = dseg s p xs q"
  "dseg (set_tail l v s) p xs q = dseg s p xs q"
  by (rule dseg_frame; auto)+

lemma dlist_frame:
  assumes "\<And>x. x \<in> set xs \<Longrightarrow> pPrev s' x = pPrev s x"
    and "\<And>x. x \<in> set xs \<Longrightarrow> pNext s' x = pNext s x"
    and "lhead s' l = lhead s l" "ltail s' l = ltail s l"
  shows "dlist s' l xs = dlist s l xs"
  unfolding dlist_def using dseg_frame [OF assms(1,2)] assms(3,4) by simp

lemma represents_dlist: "represents s L \<Longrightarrow> dlist s l (L l)"
  by (simp add: represents_def)

lemma represents_pLink: "represents s L \<Longrightarrow> pLink s n = Some l \<longleftrightarrow> n \<in> set (L l)"
  by (simp add: represents_def)

lemma represents_unlinked: "represents s L \<Longrightarrow> pLink s n = None \<longleftrightarrow> (\<forall>l. n \<notin> set (L l))"
  by (metis not_None_eq represents_pLink)

lemma represents_unique:
  "represents s L \<Longrightarrow> n \<in> set (L l) \<Longrightarrow> n \<in> set (L k) \<Longrightarrow> l = k"
  by (metis option.inject represents_pLink)

lemma represents_distinct: "represents s L \<Longrightarrow> distinct (L l)"
  by (auto simp: represents_def dlist_def)

lemma represents_lhead: "represents s L \<Longrightarrow> lhead s l = first_or (L l) None"
  by (auto simp: represents_def dlist_def)

lemma represents_ltail: "represents s L \<Longrightarrow> ltail s l = last_or None (L l)"
  by (auto simp: represents_def dlist_def)

lemma represents_empty: "represents empty_links (\<lambda>_. [])"
  by (simp add: represents_def dlist_def empty_links_def)

text \<open>Zeroing a node that is in no list changes nothing.\<close>

lemma represents_zeroed:
  assumes "represents l L" "\<forall>k. n \<notin> set (L k)"
  shows "represents (set_plink n None (set_prev n None (set_next n None l))) L"
  unfolding represents_def
proof (intro conjI allI)
  show "dlist (set_plink n None (set_prev n None (set_next n None l))) k (L k)" for k
    using represents_dlist [OF assms(1), of k] assms(2) by (simp add: dlist_def)
  show "pLink (set_plink n None (set_prev n None (set_next n None l))) m = Some k \<longleftrightarrow> m \<in> set (L k)"
    for m k using represents_pLink [OF assms(1), of m k] assms(2) by auto
qed

text \<open>The list of an operation changes and every other list keeps its pointers.\<close>

lemma represents_updI:
  assumes "represents s L"
    and "dlist s' l xs"
    and "\<And>k x. k \<noteq> l \<Longrightarrow> x \<in> set (L k) \<Longrightarrow> pPrev s' x = pPrev s x \<and> pNext s' x = pNext s x"
    and "\<And>k. k \<noteq> l \<Longrightarrow> lhead s' k = lhead s k \<and> ltail s' k = ltail s k"
    and "\<And>n k. pLink s' n = Some k \<longleftrightarrow> (if k = l then n \<in> set xs else n \<in> set (L k))"
  shows "represents s' (L(l := xs))"
  unfolding represents_def
proof (intro conjI allI)
  fix k
  show "dlist s' k ((L(l := xs)) k)"
  proof (cases "k = l")
    case True
    with assms(2) show ?thesis by simp
  next
    case False
    with assms(3,4) have "dlist s' k (L k) = dlist s k (L k)" by (intro dlist_frame) auto
    with represents_dlist [OF assms(1), of k] False show ?thesis by simp
  qed
qed (use assms(5) in auto)

section \<open>Refinement of the operations\<close>

lemma AddTail_linked: "pLink s n \<noteq> None \<Longrightarrow> AddTail l n s = s"
  by (simp add: AddTail_def)

lemma AddTail_fresh:
  assumes r: "represents s L" and n: "\<forall>k. n \<notin> set (L k)"
  shows "represents (AddTail l n s) (L(l := L l @ [n]))"
proof (rule represents_updI [OF r])
  have pl: "pLink s n = None" using r n by (simp add: represents_unlinked)
  note d = represents_dlist [OF r, of l]
  show "dlist (AddTail l n s) l (L l @ [n])"
  proof (cases "L l" rule: rev_cases)
    case Nil
    then show ?thesis using d pl by (simp add: AddTail_def dlist_def)
  next
    case (snoc ys t)
    have "t \<noteq> n" "n \<notin> set ys" using n snoc by (metis UnCI list.set_intros(1) set_append)+
    moreover have "t \<notin> set ys" using represents_distinct [OF r, of l] snoc by simp
    ultimately show ?thesis using d pl snoc
      by (simp add: AddTail_def dlist_def)
  qed
  show "pPrev (AddTail l n s) x = pPrev s x \<and> pNext (AddTail l n s) x = pNext s x"
    if "k \<noteq> l" "x \<in> set (L k)" for k x
  proof -
    have "x \<noteq> n" using that n by auto
    moreover have "ltail s l \<noteq> Some x"
      using that represents_unique [OF r, of x k l] represents_ltail [OF r, of l]
      by (auto simp: last_or_eq_Some)
    ultimately show ?thesis
      using pl by (auto simp: AddTail_def split: option.split)
  qed
  show "lhead (AddTail l n s) k = lhead s k \<and> ltail (AddTail l n s) k = ltail s k" if "k \<noteq> l" for k
    using that pl by (simp add: AddTail_def split: option.split)
  show "pLink (AddTail l n s) m = Some k \<longleftrightarrow>
      (if k = l then m \<in> set (L l @ [n]) else m \<in> set (L k))" for m k
    using pl n represents_pLink [OF r, of m k]
    by (auto simp: AddTail_def split: option.split)
qed

lemma PopHead_empty: "represents s L \<Longrightarrow> L l = [] \<Longrightarrow> PopHead l s = s"
  using represents_lhead [of s L l] by (simp add: PopHead_def)

lemma PopHead_refines:
  assumes r: "represents s L"
  shows "represents (PopHead l s) (L(l := tl (L l)))"
proof (cases "L l")
  case Nil
  then show ?thesis using r PopHead_empty [OF r, of l] by (simp add: fun_upd_idem)
next
  case (Cons n ys)
  note d = represents_dlist [OF r, of l]
  have n: "n \<notin> set ys" using represents_distinct [OF r, of l] Cons by simp
  have hd: "lhead s l = Some n" using represents_lhead [OF r, of l] Cons by simp
  have tl: "ltail s l = Some n \<longleftrightarrow> ys = []"
    using represents_ltail [OF r, of l] Cons n by (auto simp: last_or_eq_Some)
  show ?thesis
  proof (rule represents_updI [OF r])
    show "dlist (PopHead l s) l (tl (L l))"
      using d Cons n hd tl by (cases ys) (auto simp: PopHead_def dlist_def Let_def)
    show "pPrev (PopHead l s) x = pPrev s x \<and> pNext (PopHead l s) x = pNext s x"
      if "k \<noteq> l" "x \<in> set (L k)" for k x
    proof -
      have "x \<notin> set (L l)" using represents_unique [OF r] that by blast
      then show ?thesis using Cons d hd tl
        by (cases ys) (auto simp: PopHead_def Let_def dlist_def)
    qed
    show "lhead (PopHead l s) k = lhead s k \<and> ltail (PopHead l s) k = ltail s k" if "k \<noteq> l" for k
      using that by (simp add: PopHead_def Let_def split: option.split)
    show "pLink (PopHead l s) m = Some k \<longleftrightarrow>
        (if k = l then m \<in> set (tl (L l)) else m \<in> set (L k))" for m k
    proof -
      have "pLink (PopHead l s) m = (if m = n then None else pLink s m)"
        using hd by (simp add: PopHead_def Let_def split: option.split)
      moreover have "n \<in> set (L k) \<longleftrightarrow> k = l" using represents_unique [OF r, of n k l] Cons by auto
      ultimately show ?thesis
        using represents_pLink [OF r, of m k] Cons n by auto
    qed
  qed
qed

lemma RemoveFromLink_unlinked:
  "pLink s n = None \<Longrightarrow> RemoveFromLink n s = Some s"
  by (simp add: RemoveFromLink_def)

text \<open>
  What \<open>RemoveFromLink\<close> does to the pointers of a list \<open>xs @ n # ys\<close>, in one formula for the
  four cases (first, last, only and inner node).
\<close>

definition unlinked :: "'n \<Rightarrow> 'l \<Rightarrow> 'n list \<Rightarrow> 'n list \<Rightarrow> ('n, 'l) links \<Rightarrow> ('n, 'l) links" where
  "unlinked n l xs ys s =
     (let p = last_or None xs; q = first_or ys None;
          s1 = (case p of None \<Rightarrow> set_head l q s | Some x \<Rightarrow> set_next x q s);
          s2 = (case q of None \<Rightarrow> set_tail l p s1 | Some y \<Rightarrow> set_prev y p s1)
      in set_plink n None (set_prev n None (set_next n None s2)))"

lemma links_eqI:
  "pPrev s = pPrev t \<Longrightarrow> pNext s = pNext t \<Longrightarrow> pLink s = pLink t \<Longrightarrow> lhead s = lhead t \<Longrightarrow>
   ltail s = ltail t \<Longrightarrow> s = (t :: ('n, 'l) links)"
  by simp

lemma RemoveFromLink_unlinked_eq:
  assumes d: "dlist s l (xs @ n # ys)" and pl: "pLink s n = Some l"
  shows "RemoveFromLink n s = Some (unlinked n l xs ys s)"
proof -
  have f: "pPrev s n = last_or None xs" "pNext s n = first_or ys None"
    "n \<notin> set xs" "n \<notin> set ys" "distinct (xs @ ys)"
    "dseg s None xs (Some n)" "dseg s (Some n) ys None"
    using d by (auto simp: dlist_def)
  have h: "lhead s l = first_or xs (Some n)" "lhead s l = Some n \<longleftrightarrow> xs = []" "lhead s l \<noteq> None"
    using d by (cases xs; auto simp: dlist_def)+
  have t: "ltail s l = last_or (Some n) ys" "ltail s l = Some n \<longleftrightarrow> ys = []" "ltail s l \<noteq> None"
    using d by (cases ys rule: rev_cases; auto simp: dlist_def)+
  show ?thesis
    using f h(2,3) t(2,3) pl
    by (cases xs rule: rev_cases; cases ys)
      (auto simp: RemoveFromLink_def unlinked_def Let_def intro!: links_eqI)
qed

lemma unlinked_dlist:
  assumes "dlist s l (xs @ n # ys)"
  shows "dlist (unlinked n l xs ys s) l (xs @ ys)"
proof -
  have f: "lhead s l = first_or xs (Some n)" "ltail s l = last_or (Some n) ys"
    "n \<notin> set xs" "n \<notin> set ys" "distinct xs" "distinct ys" "set xs \<inter> set ys = {}"
    "dseg s None xs (Some n)" "dseg s (Some n) ys None"
    using assms by (auto simp: dlist_def)
  show ?thesis
  proof (cases xs rule: rev_cases)
    case Nil
    with f show ?thesis
      by (cases ys) (auto simp: unlinked_def dlist_def Let_def)
  next
    case (snoc zs z)
    with f show ?thesis
      by (cases ys) (auto simp: unlinked_def dlist_def Let_def)
  qed
qed

lemma unlinked_frame:
  "x \<notin> set (xs @ n # ys) \<Longrightarrow> pPrev (unlinked n l xs ys s) x = pPrev s x"
  "x \<notin> set (xs @ n # ys) \<Longrightarrow> pNext (unlinked n l xs ys s) x = pNext s x"
  "k \<noteq> l \<Longrightarrow> lhead (unlinked n l xs ys s) k = lhead s k"
  "k \<noteq> l \<Longrightarrow> ltail (unlinked n l xs ys s) k = ltail s k"
  "pLink (unlinked n l xs ys s) = (pLink s)(n := None)"
  by (cases xs rule: rev_cases; cases ys; simp add: unlinked_def Let_def)+

lemma RemoveFromLink_linked:
  assumes r: "represents s L" and n: "n \<in> set (L l)"
  shows "\<exists>s'. RemoveFromLink n s = Some s' \<and> represents s' (L(l := remove1 n (L l)))"
proof -
  obtain xs ys where eq: "L l = xs @ n # ys" and nx: "n \<notin> set xs"
    using n by (metis split_list_first)
  have ny: "n \<notin> set ys" using represents_distinct [OF r, of l] eq by auto
  have pl: "pLink s n = Some l" using n by (simp add: represents_pLink [OF r])
  note d = represents_dlist [OF r, of l, unfolded eq]
  have "represents (unlinked n l xs ys s) (L(l := xs @ ys))"
  proof (rule represents_updI [OF r unlinked_dlist [OF d]])
    fix k m x assume "k \<noteq> l"
    show "lhead (unlinked n l xs ys s) k = lhead s k \<and> ltail (unlinked n l xs ys s) k = ltail s k"
      using \<open>k \<noteq> l\<close> by (simp add: unlinked_frame)
    assume "x \<in> set (L k)"
    then have "x \<notin> set (xs @ n # ys)" using represents_unique [OF r] \<open>k \<noteq> l\<close> eq by metis
    then show "pPrev (unlinked n l xs ys s) x = pPrev s x \<and>
        pNext (unlinked n l xs ys s) x = pNext s x"
      by (simp add: unlinked_frame)
  next
    show "pLink (unlinked n l xs ys s) m = Some k \<longleftrightarrow>
        (if k = l then m \<in> set (xs @ ys) else m \<in> set (L k))" for m k
    proof (cases "m = n")
      case True
      with represents_unique [OF r n, of k] eq nx ny show ?thesis by (auto simp: unlinked_frame)
    next
      case False
      with represents_pLink [OF r, of m k] eq show ?thesis by (auto simp: unlinked_frame)
    qed
  qed
  moreover have "remove1 n (L l) = xs @ ys" using nx eq by simp
  ultimately show ?thesis using RemoveFromLink_unlinked_eq [OF d pl] by auto
qed

lemma RemoveFromLink_refines:
  assumes r: "represents s L"
  shows "\<exists>s'. RemoveFromLink n s = Some s' \<and> represents s' (\<lambda>k. remove1 n (L k))"
proof (cases "\<exists>l. n \<in> set (L l)")
  case True
  then obtain l where n: "n \<in> set (L l)" by blast
  have "L(l := remove1 n (L l)) = (\<lambda>k. remove1 n (L k))"
  proof
    show "(L(l := remove1 n (L l))) k = remove1 n (L k)" for k
    proof (cases "k = l")
      case False
      then have "n \<notin> set (L k)" using represents_unique [OF r n, of k] by blast
      with False show ?thesis by (simp add: remove1_idem)
    qed simp
  qed
  then show ?thesis using RemoveFromLink_linked [OF r n] by simp
next
  case False
  then have "(\<lambda>k. remove1 n (L k)) = L" by (auto simp: fun_eq_iff remove1_idem)
  moreover have "pLink s n = None" using False represents_unlinked [OF r] by blast
  ultimately show ?thesis using r RemoveFromLink_unlinked by fastforce
qed

text \<open>The redirecting loop of \<open>Join\<close> returns on every chain that ends in a null pointer.\<close>

lemma relink_chain:
  assumes "dseg s p xs None"
  shows "relink l (first_or xs None) s =
    Some (s\<lparr>pLink := (\<lambda>m. if m \<in> set xs then Some l else pLink s m)\<rparr>)"
  using assms
proof (induction xs arbitrary: s p)
  case Nil
  then show ?case by (simp add: relink.simps)
next
  case (Cons x xs)
  then have "dseg (set_plink x (Some l) s) (Some x) xs None" by simp
  note IH = Cons.IH [OF this]
  have "pNext s x = first_or xs None" using Cons.prems by simp
  then have "relink l (Some x) s = relink l (first_or xs None) (set_plink x (Some l) s)"
    by (simp add: relink.simps)
  also have "\<dots> = Some (s\<lparr>pLink := (\<lambda>m. if m \<in> set (x # xs) then Some l else pLink s m)\<rparr>)"
    unfolding IH by (auto intro!: links_eqI simp: fun_eq_iff)
  finally show ?case by simp
qed

text \<open>What \<open>Join\<close> does to the pointers when the other list holds \<open>y # ys\<close>.\<close>

definition joined :: "'l \<Rightarrow> 'l \<Rightarrow> 'n list \<Rightarrow> 'n \<Rightarrow> 'n list \<Rightarrow> ('n, 'l) links \<Rightarrow> ('n, 'l) links" where
  "joined l k xs y ys s =
     (let s1 = s\<lparr>pLink := (\<lambda>m. if m \<in> set (y # ys) then Some l else pLink s m)\<rparr>;
          s2 = (case last_or None xs of
                  None \<Rightarrow> set_head l (Some y) s1
                | Some t \<Rightarrow> set_prev y (Some t) (set_next t (Some y) s1))
      in set_head k None (set_tail k None (set_tail l (Some (last (y # ys))) s2)))"

lemma Join_eq:
  assumes "dlist s l xs" "dlist s k (y # ys)" "l \<noteq> k"
  shows "Join l k s = Some (joined l k xs y ys s)"
proof -
  have f: "ltail s l = last_or None xs" "lhead s k = Some y" "ltail s k = last_or (Some y) ys"
    using assms by (auto simp: dlist_def)
  have "relink l (first_or (y # ys) None) s =
      Some (s\<lparr>pLink := (\<lambda>m. if m \<in> set (y # ys) then Some l else pLink s m)\<rparr>)"
    using assms(2) by (intro relink_chain [of _ None]) (simp add: dlist_def)
  then show ?thesis using f assms(3)
    by (cases xs rule: rev_cases)
      (auto simp: Join_def joined_def Let_def last_or_def fun_eq_iff intro!: links_eqI)
qed

lemma joined_sel:
  "l \<noteq> k \<Longrightarrow> pLink (joined l k xs y ys s) m =
     (if m \<in> set (y # ys) then Some l else pLink s m)"
  "l \<noteq> k \<Longrightarrow> lhead (joined l k xs y ys s) =
     (lhead s)(l := (if xs = [] then Some y else lhead s l), k := None)"
  "l \<noteq> k \<Longrightarrow> ltail (joined l k xs y ys s) = (ltail s)(l := last_or (Some y) ys, k := None)"
  "pPrev (joined l k xs y ys s) =
     (if xs = [] then pPrev s else (pPrev s)(y := Some (last xs)))"
  "pNext (joined l k xs y ys s) =
     (if xs = [] then pNext s else (pNext s)(last xs := Some y))"
  by (auto simp: joined_def Let_def last_or_def fun_eq_iff split: option.splits if_splits)

lemma joined_dlist:
  assumes "dlist s l xs" "dlist s k (y # ys)" "l \<noteq> k" "set xs \<inter> set (y # ys) = {}"
  shows "dlist (joined l k xs y ys s) l (xs @ y # ys)"
proof -
  let ?s = "joined l k xs y ys s"
  have "dseg ?s None xs (Some y)"
  proof (cases xs rule: rev_cases)
    case (snoc zs z)
    have "dseg ?s None zs (Some z) = dseg s None zs (Some z)"
      using snoc assms by (intro dseg_frame) (auto simp: joined_sel dlist_def)
    then show ?thesis using snoc assms by (auto simp: joined_sel dlist_def)
  qed simp
  moreover have "dseg ?s (Some y) ys None = dseg s (Some y) ys None"
  proof (rule dseg_frame)
    have "xs \<noteq> [] \<Longrightarrow> last xs \<notin> set ys" using assms(4) by (meson disjoint_iff last_in_set list.set_intros(2))
    then show "x \<in> set ys \<Longrightarrow> pPrev ?s x = pPrev s x" "x \<in> set ys \<Longrightarrow> pNext ?s x = pNext s x" for x
      using assms(2) by (auto simp: joined_sel dlist_def)
  qed
  ultimately show ?thesis using assms
    by (cases xs) (auto simp: joined_sel dlist_def last_or_def)
qed

lemma Join_refines:
  assumes r: "represents s L" and lk: "l \<noteq> k"
  shows "\<exists>s'. Join l k s = Some s' \<and> represents s' (L(l := L l @ L k, k := []))"
proof (cases "L k")
  case Nil
  then have "L(l := L l @ L k, k := []) = L" by auto
  with Nil r show ?thesis
    using represents_lhead [OF r, of k] by (simp add: Join_def)
next
  case (Cons y ys)
  let ?s = "joined l k (L l) y ys s"
  note dl = represents_dlist [OF r, of l]
  note dk = represents_dlist [OF r, of k, unfolded Cons]
  have uq: "x \<in> set (L j) \<Longrightarrow> x \<in> set (L i) \<Longrightarrow> i = j" for x i j
    using represents_unique [OF r] by blast
  have dis: "set (L l) \<inter> set (y # ys) = {}" using uq [of _ l k] lk Cons by auto
  have "represents ?s (L(l := L l @ L k, k := []))"
    unfolding represents_def
  proof (intro conjI allI)
    fix j
    show "dlist ?s j ((L(l := L l @ L k, k := [])) j)"
    proof (cases "j = l \<or> j = k")
      case True
      then show ?thesis
        using joined_dlist [OF dl dk lk dis] Cons lk by (auto simp: joined_sel dlist_def)
    next
      case False
      then have o: "x \<in> set (L j) \<Longrightarrow> x \<noteq> y \<and> (L l \<noteq> [] \<longrightarrow> x \<noteq> last (L l))" for x
        using uq [of x j k] uq [of x j l] Cons by auto
      then have "dlist ?s j (L j) = dlist s j (L j)"
        using False lk by (intro dlist_frame) (auto simp: joined_sel)
      then show ?thesis using False represents_dlist [OF r, of j] by simp
    qed
  next
    fix m j
    show "pLink ?s m = Some j \<longleftrightarrow> m \<in> set ((L(l := L l @ L k, k := [])) j)"
    proof (cases "m \<in> set (L k)")
      case True
      then have "pLink ?s m = Some l" using Cons lk by (simp add: joined_sel)
      moreover have "m \<in> set ((L(l := L l @ L k, k := [])) j) \<longleftrightarrow> j = l"
      proof (cases "j = l \<or> j = k")
        case False
        then have "m \<notin> set (L j)" using True represents_unique [OF r, of m k j] by blast
        with False show ?thesis by simp
      qed (use True lk in auto)
      ultimately show ?thesis by auto
    next
      case False
      then have "pLink ?s m = pLink s m" using Cons lk by (simp add: joined_sel)
      then show ?thesis using False represents_pLink [OF r, of m j] by auto
    qed
  qed
  then show ?thesis using Join_eq [OF dl dk lk] by blast
qed

section \<open>The interface the clients use\<close>

text \<open>
  The timeout ring, the event loop and the condition variables only rely on the following
  contract: \<open>rep s L\<close> says which lists a store holds, and each operation changes these
  lists in the obvious way. Their lemmas are proved once from it.
\<close>

locale fifo_links =
  fixes addtail :: "'l \<Rightarrow> 'n \<Rightarrow> 's \<Rightarrow> 's"
    and remove :: "'n \<Rightarrow> 's \<Rightarrow> 's option"
    and pop :: "'l \<Rightarrow> 's \<Rightarrow> 's"
    and join :: "'l \<Rightarrow> 'l \<Rightarrow> 's \<Rightarrow> 's option"
    and rep :: "'s \<Rightarrow> ('l \<Rightarrow> 'n list) \<Rightarrow> bool"
  assumes rep_fun: "rep s L \<Longrightarrow> rep s M \<Longrightarrow> L = M"
    and rep_disjoint: "rep s L \<Longrightarrow> n \<in> set (L l) \<Longrightarrow> n \<in> set (L k) \<Longrightarrow> l = k"
    and rep_distinct: "rep s L \<Longrightarrow> distinct (L l)"
    and addtail_fresh: "rep s L \<Longrightarrow> \<forall>k. n \<notin> set (L k) \<Longrightarrow>
      rep (addtail l n s) (L(l := L l @ [n]))"
    and addtail_linked: "rep s L \<Longrightarrow> n \<in> set (L k) \<Longrightarrow> addtail l n s = s"
    and remove_any: "rep s L \<Longrightarrow> \<exists>s'. remove n s = Some s' \<and> rep s' (\<lambda>k. remove1 n (L k))"
    and pop_any: "rep s L \<Longrightarrow> rep (pop l s) (L(l := tl (L l)))"
    and join_any: "rep s L \<Longrightarrow> l \<noteq> k \<Longrightarrow>
      \<exists>s'. join l k s = Some s' \<and> rep s' (L(l := L l @ L k, k := []))"
begin

text \<open>Appending fresh nodes one by one keeps their order.\<close>

lemma addtail_all:
  assumes "rep s L" "distinct ns" "\<forall>n \<in> set ns. \<forall>k. n \<notin> set (L k)"
  shows "rep (fold (addtail l) ns s) (L(l := L l @ ns))"
  using assms
proof (induction ns arbitrary: s L)
  case Nil
  then show ?case by (simp add: fun_upd_idem)
next
  case (Cons n ns)
  let ?L = "L(l := L l @ [n])"
  have r: "rep (addtail l n s) ?L" using Cons.prems by (intro addtail_fresh) auto
  have "\<forall>m \<in> set ns. \<forall>k. m \<notin> set (?L k)" "distinct ns" using Cons.prems by auto
  from Cons.IH [OF r this(2,1)]
  have "rep (fold (addtail l) ns (addtail l n s)) (?L(l := ?L l @ ns))" .
  then show ?case by (simp add: fun_upd_same del: fun_upd_apply)
qed

text \<open>Unlinking a node and appending it to a list moves it there, wherever it was before.\<close>

lemma move_to:
  assumes "rep s L"
  shows "\<exists>s'. remove n s = Some s' \<and>
    rep (addtail l n s') (\<lambda>k. if k = l then remove1 n (L l) @ [n] else remove1 n (L k))"
proof -
  obtain s' where s': "remove n s = Some s'" "rep s' (\<lambda>k. remove1 n (L k))"
    using remove_any [OF assms] by blast
  have "\<forall>k. n \<notin> set (remove1 n (L k))" using rep_distinct [OF assms] by simp
  note addtail_fresh [OF s'(2) this, of l]
  moreover have "(\<lambda>k. remove1 n (L k))(l := remove1 n (L l) @ [n]) =
      (\<lambda>k. if k = l then remove1 n (L l) @ [n] else remove1 n (L k))" by auto
  ultimately show ?thesis using s'(1) by auto
qed

text \<open>Joining several lists into one empties them and concatenates their nodes.\<close>

lemma join_all:
  assumes "rep s L" "distinct ks" "l \<notin> set ks"
  shows "\<exists>s'. fold_opt (join l) ks s = Some s' \<and>
    rep s' (\<lambda>k. if k = l then L l @ concat (map L ks) else if k \<in> set ks then [] else L k)"
  using assms
proof (induction ks arbitrary: s L)
  case Nil
  have "(\<lambda>k. if k = l then L l @ concat (map L []) else if k \<in> set [] then [] else L k) = L"
    by auto
  with Nil show ?case by (simp only: fold_opt.simps) simp
next
  case (Cons a ks)
  then have al: "l \<noteq> a" by auto
  obtain s1 where s1: "join l a s = Some s1" "rep s1 (L(l := L l @ L a, a := []))"
    using join_any [OF Cons.prems(1) al] by blast
  let ?L = "L(l := L l @ L a, a := [])"
  obtain s2 where s2: "fold_opt (join l) ks s1 = Some s2"
    "rep s2 (\<lambda>k. if k = l then ?L l @ concat (map ?L ks) else if k \<in> set ks then [] else ?L k)"
    using Cons.IH [OF s1(2)] Cons.prems by auto
  have "concat (map ?L ks) = concat (map L ks)"
    using Cons.prems by (intro arg_cong [of _ _ concat] map_cong) auto
  then have "(\<lambda>k. if k = l then ?L l @ concat (map ?L ks) else if k \<in> set ks then [] else ?L k) =
      (\<lambda>k. if k = l then L l @ concat (map L (a # ks)) else if k \<in> set (a # ks) then [] else L k)"
    using al by (auto simp del: fun_upd_apply simp: fun_upd_def)
  with s1(1) s2 show ?case by simp
qed

end

lemma dseg_determines:
  "dseg s p xs None \<Longrightarrow> dseg s p ys None \<Longrightarrow> first_or xs None = first_or ys None \<Longrightarrow> xs = ys"
proof (induction xs arbitrary: p ys)
  case Nil
  then show ?case by (cases ys) auto
next
  case (Cons x xs)
  then obtain zs where ys: "ys = x # zs" by (cases ys) auto
  with Cons.prems have "dseg s (Some x) xs None" "dseg s (Some x) zs None"
    "first_or xs None = first_or zs None" by auto
  with Cons.IH ys show ?case by blast
qed

lemma represents_fun:
  assumes "represents s L" "represents s M"
  shows "L = M"
proof
  show "L l = M l" for l
    using represents_dlist [OF assms(1), of l] represents_dlist [OF assms(2), of l]
    by (intro dseg_determines [of s None]) (auto simp: dlist_def)
qed

interpretation links: fifo_links AddTail RemoveFromLink PopHead Join represents
proof unfold_locales
  show "AddTail l n s = s" if "represents s L" "n \<in> set (L k)" for s :: "('n, 'l) links" and L n k l
    using that by (intro AddTail_linked) (auto simp flip: represents_pLink)
qed (auto intro: represents_fun represents_unique represents_distinct AddTail_fresh
    RemoveFromLink_refines PopHead_refines Join_refines)

section \<open>Property\<close>

text \<open>C8
  The pointer surgery implements lists: on every well-formed store \<open>RemoveFromLink\<close> and \<open>Join\<close>
  return (no assertion fails, no null pointer is followed, the loop ends), \<open>RemoveFromLink\<close> takes
  the node out of whichever list it is in, \<open>PopHead\<close> drops the first node, \<open>AddTail\<close> appends a node
  that is in no list and leaves the store alone otherwise, and \<open>Join\<close> moves all nodes of one list
  behind those of the other; the resulting stores are well formed again.\<close>

theorem intrusive_lists_refine:
  assumes "represents s L" "l \<noteq> k"
  shows "(\<exists>t. RemoveFromLink n s = Some t \<and> represents t (\<lambda>j. remove1 n (L j))) \<and>
    represents (PopHead l s) (L(l := tl (L l))) \<and>
    (if \<exists>j. n \<in> set (L j) then AddTail l n s = s
     else represents (AddTail l n s) (L(l := L l @ [n]))) \<and>
    (\<exists>t. Join l k s = Some t \<and> represents t (L(l := L l @ L k, k := [])))"
  using links.remove_any [OF assms(1)] links.pop_any [OF assms(1)] links.join_any [OF assms]
    links.addtail_fresh [OF assms(1)] links.addtail_linked [OF assms(1)] by auto

theorem intrusive_lists_refine_witness:
  "\<exists>t. Join (1 :: nat) 2 (AddTail 2 (7 :: nat) (AddTail 1 5 empty_links)) = Some t \<and>
     represents t (\<lambda>k. if k = 1 then [5, 7] else [])"
proof -
  have "represents (AddTail (1 :: nat) (5 :: nat) empty_links) ((\<lambda>_. [])(1 := [5]))"
    using links.addtail_fresh [OF represents_empty, of "5 :: nat" "1 :: nat"] by simp
  from links.addtail_fresh [OF this, of 7 2]
  have "represents (AddTail (2 :: nat) (7 :: nat) (AddTail 1 5 empty_links)) ((\<lambda>_. [])(1 := [5], 2 := [7]))"
    by simp
  from intrusive_lists_refine [OF this, of 1 2] obtain t where
    t: "Join (1 :: nat) 2 (AddTail 2 (7 :: nat) (AddTail 1 5 empty_links)) = Some t"
    "represents t (((\<lambda>_. [])(1 := [5], 2 := [7]))(1 := [5, 7], 2 := []))" by auto
  moreover have "((\<lambda>_. [])(1 := [5], 2 := [7]))(1 := [5, 7], 2 := []) =
      (\<lambda>k :: nat. if k = 1 then [5, 7 :: nat] else [])" by auto
  ultimately show ?thesis by auto
qed

end
