(* ===== verification/Timeout_Ring.thy ===== *)
theory Timeout_Ring
  imports Intrusive_List
begin

text \<open>
  The timeout ring of \<open>src/coroutine/co_routine.cpp\<close>: \<open>AllocTimeout\<close>, \<open>AddTimeout\<close> and
  \<open>TakeAllTimeout\<close>. The ring is an array of \<open>iItemSize\<close> lists, one per millisecond; the
  slot of the time \<open>ullStart\<close> is \<open>llStartIdx mod iItemSize\<close>, and an item that expires \<open>d\<close>
  milliseconds after \<open>ullStart\<close> is linked into the slot \<open>d\<close> places further, or into the
  last slot when \<open>d\<close> is beyond the ring. The lists are the intrusive lists of
  \<open>Intrusive_List\<close>; the proofs use their contract only.
\<close>

section \<open>State\<close>

text \<open>The lists a timeout item can be linked into: a slot of the ring, or one of the two
  lists of the event loop.\<close>

datatype link_id = Slot nat | ActiveList | TimeoutList

record 'n stTimeout =
  lnk :: "('n, link_id) links"
  iItemSize :: int
  ullStart :: u64
  llStartIdx :: int
  ullExpireTime :: "'n \<Rightarrow> u64"

section \<open>Operations\<close>

text \<open>The clock: the seconds and microseconds of \<open>gettimeofday\<close>.\<close>

definition GetTickMS :: "int \<Rightarrow> int \<Rightarrow> u64" where
  "GetTickMS tv_sec tv_usec = of_int tv_sec * 1000 + of_int (tv_usec div 1000)"

text \<open>\<open>now\<close> is the value of \<open>GetTickMS()\<close>; \<open>expire\<close> the (arbitrary) expiry fields.\<close>

definition AllocTimeout :: "int \<Rightarrow> u64 \<Rightarrow> ('n \<Rightarrow> u64) \<Rightarrow> 'n stTimeout" where
  "AllocTimeout iSize now expire =
     \<lparr>lnk = empty_links, iItemSize = iSize, ullStart = now, llStartIdx = 0,
      ullExpireTime = expire\<rparr>"

text \<open>The two error returns are the line numbers the code returns.\<close>

definition AddTimeout ::
  "'n \<Rightarrow> u64 \<Rightarrow> ('n, 'z) stTimeout_scheme \<Rightarrow> int \<times> ('n, 'z) stTimeout_scheme" where
  "AddTimeout apItem allNow s0 =
     (let s = (if ullStart s0 = 0 then s0\<lparr>ullStart := allNow, llStartIdx := 0\<rparr> else s0)
      in if allNow < ullStart s then (390, s)
         else if ullExpireTime s apItem < allNow then (397, s)
         else
           let diff = ullExpireTime s apItem - ullStart s;
               diff' = (if of_int (iItemSize s) \<le> diff then of_int (iItemSize s - 1) else diff);
               idx = (of_int (llStartIdx s) + diff') mod of_int (iItemSize s)
           in (0, s\<lparr>lnk := AddTail (Slot (unat (idx :: u64))) apItem (lnk s)\<rparr>))"

text \<open>
  The count is narrowed into an \<open>int\<close> before it is compared with the ring size. The
  index of the loop is the C remainder, which for a non-negative dividend is \<open>mod\<close>.
\<close>

definition TakeAllTimeout ::
  "u64 \<Rightarrow> link_id \<Rightarrow> ('n, 'z) stTimeout_scheme \<Rightarrow> ('n, 'z) stTimeout_scheme option" where
  "TakeAllTimeout allNow apResult s0 =
     (let s = (if ullStart s0 = 0 then s0\<lparr>ullStart := allNow, llStartIdx := 0\<rparr> else s0)
      in if allNow < ullStart s then Some s
         else
           let cnt0 = to_int32 (allNow - ullStart s + 1);
               cnt = (if iItemSize s < cnt0 then iItemSize s else cnt0)
           in if cnt < 0 then Some s
              else map_option
                (\<lambda>l. s\<lparr>lnk := l, ullStart := allNow, llStartIdx := llStartIdx s + (cnt - 1)\<rparr>)
                (fold_opt
                   (\<lambda>i. Join apResult (Slot (nat (c_rem (llStartIdx s + int i) (iItemSize s)))))
                   [0..<nat cnt] (lnk s)))"

section \<open>The invariant of the ring\<close>

definition slot_at :: "('n, 'z) stTimeout_scheme \<Rightarrow> int \<Rightarrow> link_id" where
  "slot_at s d = Slot (nat ((llStartIdx s + d) mod iItemSize s))"

text \<open>
  \<open>L\<close> gives the lists. An item linked \<open>d\<close> slots after the start expires no earlier than
  that slot's time, the start index never overtakes the start time, and times stay below
  \<open>2 ^ 62\<close> milliseconds.
\<close>

definition ring_inv :: "('n, 'z) stTimeout_scheme \<Rightarrow> (link_id \<Rightarrow> 'n list) \<Rightarrow> bool" where
  "ring_inv s L \<longleftrightarrow>
     represents (lnk s) L \<and> 0 < iItemSize s \<and> iItemSize s < 2 ^ 31 \<and>
     0 \<le> llStartIdx s \<and> llStartIdx s \<le> uint (ullStart s) \<and> uint (ullStart s) < 2 ^ 62 \<and>
     (\<forall>d n. 0 \<le> d \<and> d < iItemSize s \<and> n \<in> set (L (slot_at s d)) \<longrightarrow>
        uint (ullStart s) + d \<le> uint (ullExpireTime s n)) \<and>
     (\<forall>i. iItemSize s \<le> int i \<longrightarrow> L (Slot i) = []) \<and>
     (ullStart s = 0 \<longrightarrow> (\<forall>i. L (Slot i) = []))"

lemma ring_invD:
  assumes "ring_inv s L"
  shows "represents (lnk s) L" "0 < iItemSize s" "iItemSize s < 2 ^ 31"
    "0 \<le> llStartIdx s" "llStartIdx s \<le> uint (ullStart s)" "uint (ullStart s) < 2 ^ 62"
    "\<And>d n. 0 \<le> d \<Longrightarrow> d < iItemSize s \<Longrightarrow> n \<in> set (L (slot_at s d)) \<Longrightarrow>
       uint (ullStart s) + d \<le> uint (ullExpireTime s n)"
    "\<And>i. iItemSize s \<le> int i \<Longrightarrow> L (Slot i) = []"
    "\<And>i. ullStart s = 0 \<Longrightarrow> L (Slot i) = []"
  using assms unfolding ring_inv_def by blast+

lemma AllocTimeout_inv:
  assumes "0 < sz" "sz < 2 ^ 31" "uint now < 2 ^ 62"
  shows "ring_inv (AllocTimeout sz now e) (\<lambda>_. [])"
  using assms by (simp add: ring_inv_def AllocTimeout_def represents_empty)

text \<open>For the next hundred thousand years the clock is in the range the proofs ask for.\<close>

lemma GetTickMS_range:
  assumes "0 \<le> tv_sec" "tv_sec < 2 ^ 50" "0 \<le> tv_usec" "tv_usec < 1000000"
  shows "uint (GetTickMS tv_sec tv_usec) = tv_sec * 1000 + tv_usec div 1000"
    and "uint (GetTickMS tv_sec tv_usec) + 2147483647 < 2 ^ 62"
proof -
  have eq: "GetTickMS tv_sec tv_usec = of_int (tv_sec * 1000 + tv_usec div 1000)" by (simp add: GetTickMS_def)
  have r: "0 \<le> tv_sec * 1000 + tv_usec div 1000" "tv_sec * 1000 + tv_usec div 1000 < 2 ^ 61"
    using assms by auto
  then show u: "uint (GetTickMS tv_sec tv_usec) = tv_sec * 1000 + tv_usec div 1000"
    unfolding eq by (intro uint_of_int_u64) auto
  show "uint (GetTickMS tv_sec tv_usec) + 2147483647 < 2 ^ 62" unfolding u using r by simp
qed

text \<open>The slots of two different distances are different, and every slot has a distance.\<close>

lemma slot_at_inj:
  assumes "0 < iItemSize s" "0 \<le> llStartIdx s" "0 \<le> d" "d < iItemSize s" "0 \<le> e" "e < iItemSize s"
    and "slot_at s d = slot_at s e"
  shows "d = e"
proof -
  have "(llStartIdx s + d) mod iItemSize s = (llStartIdx s + e) mod iItemSize s"
    using assms by (auto simp: slot_at_def nat_eq_iff2 pos_mod_sign split: if_splits)
  then have "iItemSize s dvd (llStartIdx s + d) - (llStartIdx s + e)" by (simp only: mod_eq_dvd_iff)
  then have "iItemSize s dvd (d - e)" by simp
  moreover have "\<bar>d - e\<bar> < iItemSize s" using assms by auto
  ultimately have "d - e = 0" using zdvd_not_zless [of "\<bar>d - e\<bar>" "iItemSize s"] by fastforce
  then show ?thesis by simp
qed

lemma slot_has_distance:
  assumes "0 < iItemSize s" "int i < iItemSize s"
  shows "\<exists>d. 0 \<le> d \<and> d < iItemSize s \<and> slot_at s d = Slot i"
proof (intro exI conjI)
  let ?d = "(int i - llStartIdx s) mod iItemSize s"
  show "0 \<le> ?d" "?d < iItemSize s" using assms by auto
  have "(llStartIdx s + ?d) mod iItemSize s = int i mod iItemSize s" by (simp add: mod_simps)
  then show "slot_at s ?d = Slot i" using assms by (simp add: slot_at_def)
qed

section \<open>Adding an item\<close>

text \<open>The start the code uses: an untouched ring is moved to the current time.\<close>

definition started :: "u64 \<Rightarrow> ('n, 'z) stTimeout_scheme \<Rightarrow> ('n, 'z) stTimeout_scheme" where
  "started now s = (if ullStart s = 0 then s\<lparr>ullStart := now, llStartIdx := 0\<rparr> else s)"

lemma started_sel [simp]:
  "lnk (started now s) = lnk s" "iItemSize (started now s) = iItemSize s"
  "ullExpireTime (started now s) = ullExpireTime s"
  by (simp_all add: started_def)

lemma started_inv:
  assumes "ring_inv s L" "uint now < 2 ^ 62"
  shows "ring_inv (started now s) L"
proof (cases "ullStart s = 0")
  case True
  with ring_invD [OF assms(1)] assms(2) show ?thesis
    by (simp add: ring_inv_def started_def slot_at_def)
qed (use assms in \<open>simp add: started_def\<close>)

text \<open>The slot an item is linked into: its distance from the start, capped at the last.\<close>

definition distance :: "('n, 'z) stTimeout_scheme \<Rightarrow> 'n \<Rightarrow> int" where
  "distance s n = min (uint (ullExpireTime s n) - uint (ullStart s)) (iItemSize s - 1)"

lemma AddTimeout_links:
  assumes inv: "ring_inv s L" and now: "uint now < 2 ^ 62"
    and le: "ullStart (started now s) \<le> now" "now \<le> ullExpireTime s n"
    and ex: "uint (ullExpireTime s n) < 2 ^ 62"
  shows "AddTimeout n now s =
    (0, (started now s)\<lparr>lnk :=
       AddTail (slot_at (started now s) (distance (started now s) n)) n (lnk s)\<rparr>)"
proof -
  let ?s = "started now s"
  note I = ring_invD [OF started_inv [OF inv now]]
  let ?diff = "ullExpireTime s n - ullStart ?s"
  let ?d = "distance ?s n"
  define diff' where
    "diff' = (if of_int (iItemSize s) \<le> ?diff then of_int (iItemSize s - 1) else ?diff)"
  have u: "uint ?diff = uint (ullExpireTime s n) - uint (ullStart ?s)"
    using le by (intro uint_diff_le) auto
  have d: "uint diff' = ?d"
  proof (cases "iItemSize s \<le> uint ?diff")
    case True
    then show ?thesis using I(2,3) u
      by (simp add: diff'_def of_int_le_u64 uint_of_int_u64 distance_def del: of_int_diff)
  next
    case False
    then show ?thesis using I(2,3) u by (simp add: diff'_def of_int_le_u64 distance_def)
  qed
  have "uint (ullStart ?s) \<le> uint (ullExpireTime s n)"
    using le by (meson order_trans word_le_def)
  then have d0: "0 \<le> ?d" "?d < 2 ^ 31" using I(2,3) by (simp_all add: distance_def)
  have start: "uint (of_int (llStartIdx ?s) :: u64) = llStartIdx ?s"
    using I(4,5,6) by (intro uint_of_int_u64) auto
  have "uint (of_int (llStartIdx ?s) + diff' :: u64) = llStartIdx ?s + ?d"
    using I(5,6) d d0 start by (subst uint_add_small_u64) auto
  moreover have "uint (of_int (iItemSize s) :: u64) = iItemSize s"
    using I(2,3) by (intro uint_of_int_u64) auto
  ultimately have "unat ((of_int (llStartIdx ?s) + diff') mod of_int (iItemSize s) :: u64) =
      nat ((llStartIdx ?s + ?d) mod iItemSize s)"
    by (simp add: unat_u64 uint_mod_distrib)
  then show ?thesis
    using le unfolding AddTimeout_def started_def [symmetric] Let_def diff'_def
    by (cases "of_int (iItemSize s) \<le> ?diff") (simp_all add: slot_at_def not_less del: of_int_diff)
qed

lemma distance_range:
  assumes "0 < iItemSize s" "ullStart s \<le> ullExpireTime s n"
  shows "0 \<le> distance s n" "distance s n < iItemSize s"
  using assms by (auto simp: distance_def word_le_def)

text \<open>Linking a fresh item keeps the invariant.\<close>

lemma AddTimeout_inv:
  assumes inv: "ring_inv s L" and now: "uint now < 2 ^ 62"
    and le: "ullStart (started now s) \<le> now" "now \<le> ullExpireTime s n"
    and ex: "uint (ullExpireTime s n) < 2 ^ 62" and fresh: "\<forall>k. n \<notin> set (L k)"
    and nz: "ullStart (started now s) \<noteq> 0"
  shows "\<exists>s'. AddTimeout n now s = (0, s') \<and>
    ring_inv s' (L(slot_at (started now s) (distance (started now s) n) :=
      L (slot_at (started now s) (distance (started now s) n)) @ [n])) \<and>
    ullStart s' = ullStart (started now s) \<and> ullExpireTime s' = ullExpireTime s"
proof -
  let ?s = "started now s"
  let ?d = "distance ?s n"
  let ?l = "slot_at ?s ?d"
  let ?s' = "?s\<lparr>lnk := AddTail ?l n (lnk s)\<rparr>"
  note I = ring_invD [OF started_inv [OF inv now]]
  have st: "ullStart ?s \<le> ullExpireTime s n" using le by (rule order_trans)
  have d: "0 \<le> ?d" "?d < iItemSize ?s" using distance_range [of ?s n] I(2) st by simp_all
  have sl: "slot_at ?s' e = slot_at ?s e" for e by (simp add: slot_at_def)
  have "ring_inv ?s' (L(?l := L ?l @ [n]))"
    unfolding ring_inv_def
  proof (intro conjI allI impI)
    show "represents (lnk ?s') (L(?l := L ?l @ [n]))"
      using links.addtail_fresh [OF I(1) fresh, of ?l] by simp
    show "uint (ullStart ?s') + e \<le> uint (ullExpireTime ?s' m)"
      if a: "0 \<le> e \<and> e < iItemSize ?s' \<and> m \<in> set ((L(?l := L ?l @ [n])) (slot_at ?s' e))" for e m
    proof (cases "slot_at ?s e = ?l \<and> m = n")
      case True
      then have "e = ?d" using slot_at_inj [of ?s e ?d] I(2,4) a d by simp
      then show ?thesis using True by (simp add: distance_def)
    next
      case False
      then have "m \<in> set (L (slot_at ?s e))" using a by (auto simp: sl split: if_splits)
      then show ?thesis using I(7) [of e m] a by simp
    qed
    show "(L(?l := L ?l @ [n])) (Slot i) = []" if "iItemSize ?s' \<le> int i" for i
    proof -
      have "nat ((llStartIdx ?s + ?d) mod iItemSize ?s) < nat (iItemSize ?s)" using I(2) by simp
      then have "Slot i \<noteq> ?l" using that I(2) by (auto simp: slot_at_def)
      then show ?thesis using I(8) [of i] that by simp
    qed
  qed (use I nz in simp_all)
  then show ?thesis using AddTimeout_links [OF inv now le ex] by auto
qed

text \<open>The error returns: a clock that stepped behind the start of the ring, and an expiry in
  the past. Neither links the item.\<close>

lemma AddTimeout_errors:
  "now < ullStart (started now s) \<Longrightarrow> AddTimeout n now s = (390, started now s)"
  "ullStart (started now s) \<le> now \<Longrightarrow> ullExpireTime s n < now \<Longrightarrow> AddTimeout n now s = (397, started now s)"
  by (simp_all add: AddTimeout_def started_def Let_def not_less split: if_splits)

section \<open>Taking the items that are due\<close>

text \<open>The number of slots a call at time \<open>now\<close> takes, and the slots, oldest first.\<close>

definition take_count :: "u64 \<Rightarrow> ('n, 'z) stTimeout_scheme \<Rightarrow> int" where
  "take_count now s = min (uint now - uint (ullStart s) + 1) (iItemSize s)"

definition taken_slots :: "u64 \<Rightarrow> ('n, 'z) stTimeout_scheme \<Rightarrow> link_id list" where
  "taken_slots now s = map (\<lambda>i. slot_at s (int i)) [0..<nat (take_count now s)]"

text \<open>The lists after the call.\<close>

definition taken :: "u64 \<Rightarrow> link_id \<Rightarrow> ('n, 'z) stTimeout_scheme \<Rightarrow>
    (link_id \<Rightarrow> 'n list) \<Rightarrow> link_id \<Rightarrow> 'n list" where
  "taken now res s L k =
     (if k = res then L res @ concat (map L (taken_slots now s))
      else if k \<in> set (taken_slots now s) then [] else L k)"

text \<open>What a call needs of the clock: it has not stepped behind the start, it has not run
  ahead of it by \<open>2 ^ 31\<close> milliseconds, and it is in range.\<close>

definition clock_ok :: "u64 \<Rightarrow> ('n, 'z) stTimeout_scheme \<Rightarrow> bool" where
  "clock_ok now s \<longleftrightarrow> uint now < 2 ^ 62 \<and> ullStart (started now s) \<le> now \<and>
     uint now - uint (ullStart (started now s)) + 1 < 2 ^ 31"

lemma set_taken_slots:
  "0 < iItemSize s \<Longrightarrow> set (taken_slots now s) = slot_at s ` {0..<take_count now s}"
proof -
  have "{0..<take_count now s} = int ` {0..<nat (take_count now s)}"
    by (simp add: image_int_atLeastLessThan)
  then show ?thesis by (auto simp: taken_slots_def)
qed

lemma distinct_taken_slots:
  assumes "0 < iItemSize s" "0 \<le> llStartIdx s"
  shows "distinct (taken_slots now s)"
  unfolding taken_slots_def distinct_map
proof (intro conjI inj_onI)
  fix i j assume "i \<in> set [0..<nat (take_count now s)]" "j \<in> set [0..<nat (take_count now s)]"
    and eq: "slot_at s (int i) = slot_at s (int j)"
  then have "int i < iItemSize s" "int j < iItemSize s" by (auto simp: take_count_def)
  with slot_at_inj [OF assms _ _ _ _ eq] show "i = j" by simp
qed simp

lemma TakeAllTimeout_eq:
  assumes inv: "ring_inv s L" and clk: "clock_ok now s" and res: "\<forall>i. res \<noteq> Slot i"
  shows "\<exists>l. TakeAllTimeout now res s = Some ((started now s)\<lparr>lnk := l, ullStart := now,
      llStartIdx := llStartIdx (started now s) + (take_count now (started now s) - 1)\<rparr>) \<and>
    represents l (taken now res (started now s) L)"
proof -
  let ?s = "started now s"
  let ?n = "take_count now ?s"
  have now: "uint now < 2 ^ 62" and le: "ullStart ?s \<le> now"
    and gap: "uint now - uint (ullStart ?s) + 1 < 2 ^ 31"
    using clk by (auto simp: clock_ok_def)
  note I = ring_invD [OF started_inv [OF inv now]]
  have le': "uint (ullStart ?s) \<le> uint now" using le by (simp add: word_le_def)
  have "uint (now - ullStart ?s + 1) = uint now - uint (ullStart ?s) + 1"
    using gap by (subst uint_add_small_u64) (simp_all add: uint_diff_le [OF le])
  then have cnt: "to_int32 (now - ullStart ?s + 1) = uint now - uint (ullStart ?s) + 1"
    using gap le' by (simp add: to_int32_def Let_def)
  have n: "(if iItemSize ?s < uint now - uint (ullStart ?s) + 1 then iItemSize ?s
      else uint now - uint (ullStart ?s) + 1) = ?n" by (simp add: take_count_def)
  have n0: "\<not> ?n < 0" using I(2) le' by (simp add: take_count_def)
  have idx: "(\<lambda>i. Join res (Slot (nat (c_rem (llStartIdx ?s + int i) (iItemSize ?s))))) =
      (\<lambda>i. Join res (slot_at ?s (int i)))"
    using I(2,4) by (simp add: slot_at_def c_rem_nonneg)
  obtain l where l: "fold_opt (Join res) (taken_slots now ?s) (lnk ?s) = Some l"
    "represents l (taken now res ?s L)"
    using links.join_all [OF I(1) distinct_taken_slots [of ?s now] , of res] I(2,4) res
    unfolding taken_def [abs_def] by (auto simp: taken_slots_def slot_at_def)
  have "TakeAllTimeout now res s = map_option (\<lambda>l. ?s\<lparr>lnk := l, ullStart := now,
      llStartIdx := llStartIdx ?s + (?n - 1)\<rparr>)
      (fold_opt (Join res) (taken_slots now ?s) (lnk ?s))"
    using le n0 unfolding TakeAllTimeout_def started_def [symmetric] Let_def cnt n idx
    by (simp add: not_less taken_slots_def fold_opt_map)
  then show ?thesis using l by auto
qed

text \<open>The call keeps the invariant: what it leaves behind expires after \<open>now\<close>.\<close>

lemma TakeAllTimeout_inv:
  assumes inv: "ring_inv s L" and clk: "clock_ok now s" and res: "\<forall>i. res \<noteq> Slot i"
  shows "\<exists>s'. TakeAllTimeout now res s = Some s' \<and>
    ring_inv s' (taken now res (started now s) L) \<and> ullStart s' = now \<and>
    ullExpireTime s' = ullExpireTime s \<and> iItemSize s' = iItemSize s"
proof -
  let ?s = "started now s" and ?L = "taken now res (started now s) L"
  let ?n = "take_count now ?s"
  have now: "uint now < 2 ^ 62" using clk by (simp add: clock_ok_def)
  have le: "uint (ullStart ?s) \<le> uint now" using clk by (simp add: clock_ok_def word_le_def)
  note I = ring_invD [OF started_inv [OF inv now]]
  obtain l where l: "TakeAllTimeout now res s = Some (?s\<lparr>lnk := l, ullStart := now,
      llStartIdx := llStartIdx ?s + (?n - 1)\<rparr>)" "represents l ?L"
    using TakeAllTimeout_eq [OF assms] by blast
  let ?s' = "?s\<lparr>lnk := l, ullStart := now, llStartIdx := llStartIdx ?s + (?n - 1)\<rparr>"
  have n: "1 \<le> ?n" "?n \<le> iItemSize ?s" using I(2) le by (auto simp: take_count_def)
  have "ring_inv ?s' ?L"
    unfolding ring_inv_def
  proof (intro conjI allI impI)
    show "llStartIdx ?s' \<le> uint (ullStart ?s')" using I(5) by (simp add: take_count_def)
    fix d m assume a: "0 \<le> d \<and> d < iItemSize ?s' \<and> m \<in> set (?L (slot_at ?s' d))"
    have sl: "slot_at ?s' d = slot_at ?s (d + (?n - 1))" by (simp add: slot_at_def algebra_simps)
    have sl': "slot_at ?s (e - iItemSize ?s) = slot_at ?s e" for e
      by (simp add: slot_at_def mod_simps add_diff_eq)
    have m: "m \<in> set (L (slot_at ?s (d + (?n - 1))))"
      and nt: "slot_at ?s (d + (?n - 1)) \<notin> slot_at ?s ` {0..<?n}"
      using a res I(2) unfolding sl by (auto simp: taken_def set_taken_slots slot_at_def split: if_splits)
    have "d + (?n - 1) < iItemSize ?s"
    proof (rule ccontr)
      assume "\<not> ?thesis"
      then have "d + (?n - 1) - iItemSize ?s \<in> {0..<?n}" using a n by auto
      with nt sl' show False by (metis imageI)
    qed
    moreover from this have "?n = uint now - uint (ullStart ?s) + 1"
    proof (rule_tac ccontr)
      assume "\<not> ?thesis"
      then have "?n = iItemSize ?s" by (auto simp: take_count_def min_def split: if_splits)
      moreover assume "d + (?n - 1) < iItemSize ?s"
      ultimately have "d + (?n - 1) \<in> {0..<?n}" using a n by auto
      with nt show False by blast
    qed
    ultimately show "uint (ullStart ?s') + d \<le> uint (ullExpireTime ?s' m)"
      using I(7) [OF _ _ m] a n by simp
  next
    show "?L (Slot i) = []" if "iItemSize ?s' \<le> int i" for i
      using that I(8) [of i] res by (auto simp: taken_def)
    show "?L (Slot i) = []" if "ullStart ?s' = 0" for i
    proof -
      have "ullStart ?s = 0" using that clk by (simp add: clock_ok_def)
      then show ?thesis using I(9) res by (auto simp: taken_def)
    qed
  qed (use I l now n in simp_all)
  then show ?thesis using l(1) by auto
qed

text \<open>Every item whose time has come is taken, and no item is lost: it is in the result or
  still in its slot.\<close>

lemma taken_due:
  assumes inv: "ring_inv s L" and clk: "clock_ok now s"
    and m: "m \<in> set (L (Slot i))" and due: "ullExpireTime s m \<le> now"
  shows "m \<in> set (taken now res (started now s) L res)"
proof -
  let ?s = "started now s"
  have now: "uint now < 2 ^ 62" using clk by (simp add: clock_ok_def)
  note I = ring_invD [OF started_inv [OF inv now]]
  have "int i < iItemSize ?s" using I(8) [of i] m by fastforce
  then obtain d where d: "0 \<le> d" "d < iItemSize ?s" "slot_at ?s d = Slot i"
    using slot_has_distance [OF I(2)] by blast
  have "uint (ullStart ?s) + d \<le> uint (ullExpireTime ?s m)" using I(7) [OF d(1,2)] m d(3) by simp
  also have "\<dots> \<le> uint now" using due by (simp add: word_le_def)
  finally have "d \<in> {0..<take_count now ?s}" using d by (simp add: take_count_def)
  then have "Slot i \<in> set (taken_slots now ?s)"
    using d(3) set_taken_slots [OF I(2)] by (metis imageI)
  then show ?thesis using m by (auto simp: taken_def)
qed

lemma taken_kept:
  assumes "\<forall>i. res \<noteq> Slot i"
  shows "(\<exists>k. m \<in> set (taken now res s L k)) \<longleftrightarrow> (\<exists>k. m \<in> set (L k))"
  by (auto simp: taken_def; metis)

text \<open>The remaining items are due later than \<open>now\<close>.\<close>

lemma taken_rest:
  assumes inv: "ring_inv s L" and clk: "clock_ok now s" and res: "\<forall>i. res \<noteq> Slot i"
    and m: "m \<in> set (taken now res (started now s) L (Slot i))"
  shows "now < ullExpireTime s m"
proof (rule ccontr)
  assume "\<not> ?thesis"
  then have "ullExpireTime s m \<le> now" by simp
  moreover have "m \<in> set (L (Slot i))" using m res by (auto simp: taken_def split: if_splits)
  ultimately have mem: "m \<in> set (taken now res (started now s) L res)"
    by (intro taken_due [OF inv clk])
  obtain l where "represents l (taken now res (started now s) L)"
    using TakeAllTimeout_eq [OF inv clk res] by blast
  from links.rep_disjoint [OF this mem m] res show False by blast
qed

text \<open>A clock that stepped ahead by at least \<open>2 ^ 31\<close> but less than \<open>2 ^ 32 - 1\<close> milliseconds
  makes the narrowed count negative, and the call does nothing.\<close>

lemma TakeAllTimeout_stalls:
  assumes "ullStart s \<noteq> 0" "ullStart s \<le> now" "0 < iItemSize s"
    and "2 ^ 31 \<le> uint now - uint (ullStart s) + 1" "uint now - uint (ullStart s) + 1 < 2 ^ 32"
  shows "TakeAllTimeout now res s = Some s"
proof -
  have "uint (now - ullStart s + 1) = uint now - uint (ullStart s) + 1"
    using assms(5) by (subst uint_add_small_u64) (simp_all add: uint_diff_le [OF assms(2)])
  then have "to_int32 (now - ullStart s + 1) < 0"
    using assms(4,5) by (simp add: to_int32_def Let_def)
  then show ?thesis using assms(1-3) by (simp add: TakeAllTimeout_def Let_def not_less)
qed

section \<open>Properties\<close>

text \<open>C7
  \<open>TakeAllTimeout\<close> is exact on a well-formed ring with a sane clock: it takes every item whose
  expiry is not after \<open>now\<close>, leaves behind only items that expire later, appends to the result
  list in slot order, loses no item and keeps the ring well formed with its start at \<open>now\<close>.\<close>

theorem TakeAllTimeout_exact:
  assumes "ring_inv s L" "clock_ok now s" "\<forall>i. res \<noteq> Slot i"
  shows "\<exists>t M. TakeAllTimeout now res s = Some t \<and> ring_inv t M \<and> ullStart t = now \<and>
    M res = L res @ concat (map L (taken_slots now (started now s))) \<and>
    (\<forall>m i. m \<in> set (L (Slot i)) \<and> ullExpireTime s m \<le> now \<longrightarrow> m \<in> set (M res)) \<and>
    (\<forall>m i. m \<in> set (M (Slot i)) \<longrightarrow> now < ullExpireTime t m) \<and>
    (\<forall>m. (\<exists>k. m \<in> set (M k)) \<longleftrightarrow> (\<exists>k. m \<in> set (L k)))"
proof -
  let ?M = "taken now res (started now s) L"
  obtain t where t: "TakeAllTimeout now res s = Some t" "ring_inv t ?M" "ullStart t = now"
    "ullExpireTime t = ullExpireTime s" using TakeAllTimeout_inv [OF assms] by blast
  moreover have "?M res = L res @ concat (map L (taken_slots now (started now s)))"
    by (simp add: taken_def)
  ultimately show ?thesis
    using taken_due [OF assms(1,2)] taken_rest [OF assms] taken_kept [OF assms(3)] by metis
qed

text \<open>C28
  \<open>AddTimeout\<close> either links the item or returns one of its two errors, and keeps the ring well formed in
  any case. The error of line 390 is for a clock behind the start of the ring, the one of line 397 for an
  item that has expired already; with both the lists are those of before. Any other item is linked into the
  slot of its distance from the start (the last slot when the distance is beyond the ring), so that
  every later \<open>TakeAllTimeout\<close> past its expiry finds it.\<close>

theorem AddTimeout_placed:
  assumes "ring_inv s L" "uint now < 2 ^ 62" "uint (ullExpireTime s n) < 2 ^ 62" "\<forall>k. n \<notin> set (L k)" "now \<noteq> 0"
  shows "\<exists>ret t M. AddTimeout n now s = (ret, t) \<and> ring_inv t M \<and>
    (if now < ullStart (started now s) then ret = 390 \<and> lnk t = lnk s \<and> M = L
     else if ullExpireTime s n < now then ret = 397 \<and> lnk t = lnk s \<and> M = L
     else ret = 0 \<and>
       (let k = slot_at (started now s) (distance (started now s) n) in M = L(k := L k @ [n])) \<and>
       (\<forall>later res. (\<forall>i. res \<noteq> Slot i) \<and> clock_ok later t \<and> ullExpireTime s n \<le> later \<longrightarrow>
          n \<in> set (taken later res (started later t) M res)))"
proof (cases "now < ullStart (started now s) \<or> ullExpireTime s n < now")
  case True
  then show ?thesis
    using AddTimeout_errors [of now s n] started_inv [OF assms(1,2)] by (cases "now < ullStart (started now s)") auto
next
  case False
  then have le: "ullStart (started now s) \<le> now" "now \<le> ullExpireTime s n" by auto
  have nz: "ullStart (started now s) \<noteq> 0" using assms(5) by (simp add: started_def)
  let ?k = "slot_at (started now s) (distance (started now s) n)"
  obtain t where t: "AddTimeout n now s = (0, t)" "ring_inv t (L(?k := L ?k @ [n]))"
    "ullExpireTime t = ullExpireTime s"
    using AddTimeout_inv [OF assms(1,2) le assms(3,4) nz] by blast
  obtain i where i: "?k = Slot i" by (simp add: slot_at_def)
  have "n \<in> set ((L(?k := L ?k @ [n])) (Slot i))" by (simp add: i)
  then have "n \<in> set (taken later res (started later t) (L(?k := L ?k @ [n])) res)"
    if "\<forall>i. res \<noteq> Slot i" "clock_ok later t" "ullExpireTime s n \<le> later" for later res
    using taken_due [OF t(2) that(2)] t(3) that(3) by metis
  then show ?thesis using t(1,2) le unfolding Let_def
    by (intro exI [of _ 0] exI [of _ t] exI [of _ "L(?k := L ?k @ [n])"]) (simp add: not_less)
qed

text \<open>A clock that is between \<open>2 ^ 31\<close> and \<open>2 ^ 32 - 2\<close> milliseconds ahead of the start of the ring
  stops the timeouts for good: the count is narrowed to a negative \<open>int\<close>, \<open>TakeAllTimeout\<close>
  returns without taking an item and without moving the start.\<close>

theorem TakeAllTimeout_stall_window:
  assumes "ullStart s \<noteq> 0" "ullStart s \<le> now" "0 < iItemSize s"
    and "2 ^ 31 \<le> uint now - uint (ullStart s) + 1" "uint now - uint (ullStart s) + 1 < 2 ^ 32"
  shows "TakeAllTimeout now res s = Some s"
  by (rule TakeAllTimeout_stalls [OF assms])

definition demo_ring :: "nat stTimeout" where
  "demo_ring = AllocTimeout 100 1000 (\<lambda>n. 1000 + of_nat n)"

lemma demo_ring_inv: "ring_inv demo_ring (\<lambda>_. [])"
  unfolding demo_ring_def by (rule AllocTimeout_inv) simp_all

lemma demo_ring_sel [simp]:
  "ullStart demo_ring = 1000" "iItemSize demo_ring = 100" "llStartIdx demo_ring = 0"
  "ullExpireTime demo_ring n = 1000 + of_nat n" "started now demo_ring = demo_ring"
  by (simp_all add: demo_ring_def AllocTimeout_def started_def)

theorem AddTimeout_placed_witness:
  "(\<exists>t M. AddTimeout (5 :: nat) 1002 demo_ring = (0, t) \<and> ring_inv t M \<and> M (Slot 5) = [5]) \<and>
   (\<exists>t. AddTimeout (5 :: nat) 900 demo_ring = (390, t) \<and> ring_inv t (\<lambda>_. [])) \<and>
   (\<exists>t. AddTimeout (5 :: nat) 1100 demo_ring = (397, t) \<and> ring_inv t (\<lambda>_. []))"
  using AddTimeout_placed [OF demo_ring_inv, of 1002 5] AddTimeout_placed [OF demo_ring_inv, of 900 5]
    AddTimeout_placed [OF demo_ring_inv, of 1100 5]
  by (auto simp: Let_def distance_def slot_at_def intro!: exI [of _ "(\<lambda>_. [])(Slot 5 := [5])"])

theorem TakeAllTimeout_exact_witness:
  "\<exists>s t M. AddTimeout (5 :: nat) 1002 demo_ring = (0, s) \<and>
     TakeAllTimeout 1010 TimeoutList s = Some t \<and> ring_inv t M \<and> 5 \<in> set (M TimeoutList)"
proof -
  have e: "5 + (1000 :: u64) = 1005" by simp
  obtain s where s: "AddTimeout (5 :: nat) 1002 demo_ring = (0, s)"
    "ring_inv s ((\<lambda>_. [])(Slot 5 := [5]))" "ullStart s = 1000" "ullExpireTime s = ullExpireTime demo_ring"
    using AddTimeout_inv [OF demo_ring_inv, of 1002 5] by (auto simp: distance_def slot_at_def)
  have "clock_ok 1010 s" using s(3) by (simp add: clock_ok_def started_def)
  from TakeAllTimeout_exact [OF s(2) this, of TimeoutList] obtain t M where
    t: "TakeAllTimeout 1010 TimeoutList s = Some t" "ring_inv t M"
      "\<forall>m i. m \<in> set (((\<lambda>_. [])(Slot 5 := [5])) (Slot i)) \<and> ullExpireTime s m \<le> 1010 \<longrightarrow>
         m \<in> set (M TimeoutList)" by auto
  have "5 \<in> set (M TimeoutList)" using t(3) [rule_format, of 5 5] s(4) by (simp add: e)
  with s(1) t(1,2) show ?thesis by blast
qed

theorem TakeAllTimeout_stall_window_witness:
  "TakeAllTimeout (1000 + 2 ^ 31) TimeoutList demo_ring = Some demo_ring"
  by (rule TakeAllTimeout_stall_window) (simp_all add: word_le_def)

end
