(* ===== verification/Event_Loop.thy ===== *)
theory Event_Loop
  imports Timeout_Ring
begin

unbundle bit_operations_syntax

text \<open>
  The event loop of \<open>src/coroutine/co_routine.cpp\<close>: the translation between poll and epoll
  event masks, the callback \<open>OnPollPreparePfn\<close> that detaches a poll from the timeout ring
  when one of its descriptors is ready, and one iteration of \<open>co_eventloop\<close>, which collects
  the ready items and the due timeouts and processes them. Processing an item resumes its
  coroutine; what a coroutine does until it yields is the parameter \<open>resume\<close>.
\<close>

section \<open>Event masks\<close>

type_synonym short = "16 word"

abbreviation "POLLIN \<equiv> (0x001 :: short)"
abbreviation "POLLOUT \<equiv> (0x004 :: short)"
abbreviation "POLLERR \<equiv> (0x008 :: short)"
abbreviation "POLLHUP \<equiv> (0x010 :: short)"
abbreviation "POLLRDNORM \<equiv> (0x040 :: short)"
abbreviation "POLLWRNORM \<equiv> (0x100 :: short)"
abbreviation "EPOLLIN \<equiv> (0x001 :: u32)"
abbreviation "EPOLLOUT \<equiv> (0x004 :: u32)"
abbreviation "EPOLLERR \<equiv> (0x008 :: u32)"
abbreviation "EPOLLHUP \<equiv> (0x010 :: u32)"
abbreviation "EPOLLRDNORM \<equiv> (0x040 :: u32)"
abbreviation "EPOLLWRNORM \<equiv> (0x100 :: u32)"

definition PollEvent2Epoll :: "short \<Rightarrow> u32" where
  "PollEvent2Epoll events =
     (let e = 0;
          e = (if events AND POLLIN \<noteq> 0 then e OR EPOLLIN else e);
          e = (if events AND POLLOUT \<noteq> 0 then e OR EPOLLOUT else e);
          e = (if events AND POLLHUP \<noteq> 0 then e OR EPOLLHUP else e);
          e = (if events AND POLLERR \<noteq> 0 then e OR EPOLLERR else e);
          e = (if events AND POLLRDNORM \<noteq> 0 then e OR EPOLLRDNORM else e);
          e = (if events AND POLLWRNORM \<noteq> 0 then e OR EPOLLWRNORM else e)
      in e)"

definition EpollEvent2Poll :: "u32 \<Rightarrow> short" where
  "EpollEvent2Poll events =
     (let e = 0;
          e = (if events AND EPOLLIN \<noteq> 0 then e OR POLLIN else e);
          e = (if events AND EPOLLOUT \<noteq> 0 then e OR POLLOUT else e);
          e = (if events AND EPOLLHUP \<noteq> 0 then e OR POLLHUP else e);
          e = (if events AND EPOLLERR \<noteq> 0 then e OR POLLERR else e);
          e = (if events AND EPOLLRDNORM \<noteq> 0 then e OR POLLRDNORM else e);
          e = (if events AND EPOLLWRNORM \<noteq> 0 then e OR POLLWRNORM else e)
      in e)"

text \<open>The events the translation knows.\<close>

definition poll_mask :: short where
  "poll_mask = POLLIN OR POLLOUT OR POLLHUP OR POLLERR OR POLLRDNORM OR POLLWRNORM"

section \<open>The state of the loop\<close>

text \<open>
  The fields of \<open>stTimeoutItem_t\<close>, \<open>stPollItem_t\<close> and \<open>stPoll_t\<close> the loop reads, by node.
  \<open>pfnPrepare\<close> is true where the callback is \<open>OnPollPreparePfn\<close> and false where it is null,
  \<open>pfnProcess\<close> is true where it is one of the callbacks that resume the coroutine \<open>pArg\<close>.
  \<open>proc_log\<close> records each processing callback with the node's flag and expiry at the time.
\<close>

record ('n, 'co) stCoEpoll = "'n stTimeout" +
  pfnPrepare :: "'n \<Rightarrow> bool"
  pfnProcess :: "'n \<Rightarrow> bool"
  pArg :: "'n \<Rightarrow> 'co"
  bTimeout :: "'n \<Rightarrow> bool"
  pPoll :: "'n \<Rightarrow> 'n"
  revents :: "'n \<Rightarrow> short"
  iRaiseCnt :: "'n \<Rightarrow> int"
  iAllEventDetach :: "'n \<Rightarrow> bool"
  proc_log :: "('n \<times> bool \<times> u64) list"

section \<open>One iteration\<close>

definition OnPollPreparePfn ::
  "'n \<Rightarrow> u32 \<Rightarrow> link_id \<Rightarrow> ('n, 'co, 'z) stCoEpoll_scheme \<Rightarrow> ('n, 'co, 'z) stCoEpoll_scheme option" where
  "OnPollPreparePfn ap e active s =
     (let p = pPoll s ap;
          s1 = s\<lparr>revents := (revents s)(ap := EpollEvent2Poll e),
                 iRaiseCnt := (iRaiseCnt s)(p := iRaiseCnt s p + 1)\<rparr>
      in if iAllEventDetach s1 p then Some s1
         else
           let s2 = s1\<lparr>iAllEventDetach := (iAllEventDetach s1)(p := True)\<rparr>
           in map_option (\<lambda>l. s2\<lparr>lnk := AddTail active p l\<rparr>) (RemoveFromLink p (lnk s2)))"

text \<open>The loop over the events that \<open>co_epoll_wait\<close> returned.\<close>

definition prepare_event ::
  "'n \<times> u32 \<Rightarrow> ('n, 'co, 'z) stCoEpoll_scheme \<Rightarrow> ('n, 'co, 'z) stCoEpoll_scheme option" where
  "prepare_event ev s =
     (case ev of (item, e) \<Rightarrow>
        if pfnPrepare s item then OnPollPreparePfn item e ActiveList s
        else Some (s\<lparr>lnk := AddTail ActiveList item (lnk s)\<rparr>))"

text \<open>The loop that marks the items of the timeout list.\<close>

partial_function (option) mark_timeouts ::
  "'n option \<Rightarrow> ('n, 'co, 'z) stCoEpoll_scheme \<Rightarrow> ('n, 'co, 'z) stCoEpoll_scheme option" where
  "mark_timeouts lp s =
     (case lp of
        None \<Rightarrow> Some s
      | Some n \<Rightarrow>
          (let s1 = s\<lparr>bTimeout := (bTimeout s)(n := True)\<rparr>
           in mark_timeouts (pNext (lnk s1) n) s1))"

text \<open>The loop that processes the active list. \<open>None\<close> is a crash or a loop that does not end.\<close>

definition process_item ::
  "('co \<Rightarrow> ('n, 'co, 'z) stCoEpoll_scheme \<Rightarrow> ('n, 'co, 'z) stCoEpoll_scheme option) \<Rightarrow> 'n \<Rightarrow>
   ('n, 'co, 'z) stCoEpoll_scheme \<Rightarrow> ('n, 'co, 'z) stCoEpoll_scheme option" where
  "process_item resume lp s =
     (if pfnProcess s lp
      then resume (pArg s lp)
             (s\<lparr>proc_log := proc_log s @ [(lp, bTimeout s lp, ullExpireTime s lp)]\<rparr>)
      else Some s)"

partial_function (option) process_active ::
  "('co \<Rightarrow> ('n, 'co, 'z) stCoEpoll_scheme \<Rightarrow> ('n, 'co, 'z) stCoEpoll_scheme option) \<Rightarrow> u64 \<Rightarrow>
   ('n, 'co, 'z) stCoEpoll_scheme \<Rightarrow> ('n, 'co, 'z) stCoEpoll_scheme option" where
  "process_active resume now s =
     (case lhead (lnk s) ActiveList of
        None \<Rightarrow> Some s
      | Some lp \<Rightarrow>
          (let s1 = s\<lparr>lnk := PopHead ActiveList (lnk s)\<rparr>
           in if bTimeout s1 lp \<and> now < ullExpireTime s1 lp
              then
                (case AddTimeout lp now s1 of
                   (ret, s2) \<Rightarrow>
                     if ret = 0
                     then process_active resume now (s2\<lparr>bTimeout := (bTimeout s2)(lp := False)\<rparr>)
                     else Option.bind (process_item resume lp s2) (process_active resume now))
              else Option.bind (process_item resume lp s1) (process_active resume now)))"

text \<open>Up to the join: the items that are processed next are in the active list.\<close>

definition collect_active ::
  "('n \<times> u32) list \<Rightarrow> u64 \<Rightarrow> ('n, 'co, 'z) stCoEpoll_scheme \<Rightarrow> ('n, 'co, 'z) stCoEpoll_scheme option" where
  "collect_active events now s =
     (let s0 = s\<lparr>lnk := set_head TimeoutList None (set_tail TimeoutList None (lnk s))\<rparr>
      in Option.bind (fold_opt prepare_event events s0) (\<lambda>s1.
         Option.bind (TakeAllTimeout now TimeoutList s1) (\<lambda>s2.
         Option.bind (mark_timeouts (lhead (lnk s2) TimeoutList) s2) (\<lambda>s3.
         map_option (\<lambda>l. s3\<lparr>lnk := l\<rparr>) (Join ActiveList TimeoutList (lnk s3))))))"

definition eventloop_iteration ::
  "('co \<Rightarrow> ('n, 'co, 'z) stCoEpoll_scheme \<Rightarrow> ('n, 'co, 'z) stCoEpoll_scheme option) \<Rightarrow> ('n \<times> u32) list \<Rightarrow> u64 \<Rightarrow>
   ('n, 'co, 'z) stCoEpoll_scheme \<Rightarrow> ('n, 'co, 'z) stCoEpoll_scheme option" where
  "eventloop_iteration resume events now s =
     Option.bind (collect_active events now s) (process_active resume now)"

section \<open>Event masks: what survives the translation\<close>

lemma and_power_of_2:
  "w AND 2 ^ k = (if bit w k then 2 ^ k else (0 :: 'a::len word))"
  by (rule bit_word_eqI) (auto simp: bit_simps)

lemma mask_tests:
  fixes e :: "'a::len word"
  shows "e AND 1 = (if bit e 0 then 1 else 0)" "e AND 4 = (if bit e 2 then 4 else 0)"
    "e AND 8 = (if bit e 3 then 8 else 0)" "e AND 16 = (if bit e 4 then 16 else 0)"
    "e AND 64 = (if bit e 6 then 64 else 0)" "e AND 256 = (if bit e 8 then 256 else 0)"
  using and_power_of_2 [of e 0] and_power_of_2 [of e 2] and_power_of_2 [of e 3]
    and_power_of_2 [of e 4] and_power_of_2 [of e 6] and_power_of_2 [of e 8] by simp_all

lemma poll_mask_split:
  "e AND poll_mask = (e AND POLLIN) OR (e AND POLLOUT) OR (e AND POLLHUP) OR
     (e AND POLLERR) OR (e AND POLLRDNORM) OR (e AND POLLWRNORM)"
  unfolding poll_mask_def by (simp only: bit.conj_disj_distrib)

section \<open>Invariants of the loop\<close>

lemma ring_inv_sub:
  assumes "ring_inv s L" "represents l M" "\<And>i. set (M (Slot i)) \<subseteq> set (L (Slot i))"
  shows "ring_inv (s\<lparr>lnk := l\<rparr>) M"
proof -
  have sl: "slot_at (s\<lparr>lnk := l\<rparr>) d = slot_at s d" for d by (simp add: slot_at_def)
  note I = ring_invD [OF assms(1)]
  have "M (Slot i) = []" if "L (Slot i) = []" for i using assms(3) [of i] that by simp
  moreover have "n \<in> set (L (slot_at s d))" if "n \<in> set (M (slot_at s d))" for n d
    using assms(3) that unfolding slot_at_def by blast
  ultimately show ?thesis using I assms(2) unfolding ring_inv_def sl by simp
qed

text \<open>Only the listed fields of the ring matter to its invariant.\<close>

lemma ring_inv_cong:
  "lnk t = lnk s \<Longrightarrow> iItemSize t = iItemSize s \<Longrightarrow> ullStart t = ullStart s \<Longrightarrow>
   llStartIdx t = llStartIdx s \<Longrightarrow> ullExpireTime t = ullExpireTime s \<Longrightarrow>
   ring_inv t L = ring_inv s L"
  by (simp add: ring_inv_def slot_at_def)

text \<open>The items whose poll is detached, in the order of the events that raise them.\<close>

fun raised :: "('n \<Rightarrow> 'n) \<Rightarrow> ('n \<Rightarrow> bool) \<Rightarrow> ('n \<times> u32) list \<Rightarrow> 'n list" where
  "raised pp det [] = []"
| "raised pp det ((i, e) # es) =
     (if det (pp i) then raised pp det es
      else pp i # raised pp (det(pp i := True)) es)"

lemma raised_not_detached: "p \<in> set (raised pp det es) \<Longrightarrow> \<not> det p"
  by (induction pp det es rule: raised.induct) (auto split: if_splits)

lemma raised_all: "(i, e) \<in> set es \<Longrightarrow> \<not> det (pp i) \<Longrightarrow> pp i \<in> set (raised pp det es)"
  by (induction pp det es rule: raised.induct) (auto split: if_splits, metis)

lemma raised_detached: "p \<notin> set (raised pp (det(p := True)) es)"
  using raised_not_detached [of p pp "det(p := True)" es] by auto

lemma distinct_raised: "distinct (raised pp det es)"
  by (induction pp det es rule: raised.induct)
    (simp_all add: raised_detached del: fun_upd_apply)

definition detach :: "'n list \<Rightarrow> (link_id \<Rightarrow> 'n list) \<Rightarrow> link_id \<Rightarrow> 'n list" where
  "detach ps L k = filter (\<lambda>n. n \<notin> set ps) (L k) @ (if k = ActiveList then ps else [])"

lemma detach_Nil [simp]: "detach [] L = L"
  by (simp add: detach_def fun_eq_iff)

lemma detach_Cons: "p \<notin> set ps \<Longrightarrow> detach ps (detach [p] L) = detach (p # ps) L"
  by (auto simp: detach_def fun_eq_iff filter_empty_conv intro!: filter_cong)

lemma detach_slots: "set (detach ps L (Slot i)) \<subseteq> set (L (Slot i))"
  by (auto simp: detach_def)

lemma detach_one:
  assumes "represents l L"
  shows "\<exists>l'. RemoveFromLink p l = Some l' \<and> represents (AddTail ActiveList p l') (detach [p] L)"
proof -
  have "remove1 p (L k) = filter (\<lambda>n. n \<notin> set [p]) (L k)" for k
    using represents_distinct [OF assms, of k]
    by (simp add: distinct_remove1_removeAll removeAll_filter_not_eq) (metis eq_commute)
  then have "(\<lambda>k. if k = ActiveList then remove1 p (L ActiveList) @ [p] else remove1 p (L k)) =
      detach [p] L" by (auto simp: detach_def fun_eq_iff)
  with links.move_to [OF assms, of p ActiveList] show ?thesis by simp
qed

text \<open>The fields that neither the event callbacks nor the marking of timeouts touch.\<close>

definition same_items :: "('n, 'co, 'z) stCoEpoll_scheme \<Rightarrow> ('n, 'co, 'z) stCoEpoll_scheme \<Rightarrow> bool" where
  "same_items s t \<longleftrightarrow> iItemSize t = iItemSize s \<and> ullStart t = ullStart s \<and>
     llStartIdx t = llStartIdx s \<and> ullExpireTime t = ullExpireTime s \<and>
     pfnPrepare t = pfnPrepare s \<and> pfnProcess t = pfnProcess s \<and> pArg t = pArg s \<and>
     pPoll t = pPoll s \<and> proc_log t = proc_log s \<and> stCoEpoll.more t = stCoEpoll.more s"

lemma same_items_refl: "same_items s s"
  by (simp add: same_items_def)

lemma same_items_trans: "same_items s t \<Longrightarrow> same_items t u \<Longrightarrow> same_items s u"
  by (simp add: same_items_def)

section \<open>The phases of an iteration\<close>

lemma prepare_event_spec:
  assumes inv: "ring_inv s L" and pre: "pfnPrepare s i"
  shows "\<exists>t. prepare_event (i, e) s = Some t \<and> same_items s t \<and> bTimeout t = bTimeout s \<and>
    ring_inv t (if iAllEventDetach s (pPoll s i) then L else detach [pPoll s i] L) \<and>
    iAllEventDetach t = (iAllEventDetach s)(pPoll s i := True)"
proof (cases "iAllEventDetach s (pPoll s i)")
  case True
  then have eq: "(iAllEventDetach s)(pPoll s i := True) = iAllEventDetach s" by (simp add: fun_upd_idem)
  have "ring_inv (s\<lparr>revents := v, iRaiseCnt := c\<rparr>) L" for v c
    using inv by (subst ring_inv_cong [of _ s]) simp_all
  with True eq pre show ?thesis
    by (simp add: prepare_event_def OnPollPreparePfn_def Let_def same_items_def)
next
  case False
  obtain l where l: "RemoveFromLink (pPoll s i) (lnk s) = Some l"
    "represents (AddTail ActiveList (pPoll s i) l) (detach [pPoll s i] L)"
    using detach_one [OF ring_invD(1) [OF inv]] by blast
  let ?l = "AddTail ActiveList (pPoll s i) l"
  have "ring_inv (s\<lparr>lnk := ?l\<rparr>) (detach [pPoll s i] L)"
    using ring_inv_sub [OF inv l(2) detach_slots] .
  then have "ring_inv (s\<lparr>revents := v, iRaiseCnt := c, iAllEventDetach := d, lnk := ?l\<rparr>)
      (detach [pPoll s i] L)" for v c d
    by (subst ring_inv_cong [of _ "s\<lparr>lnk := ?l\<rparr>"]) simp_all
  with False l pre show ?thesis
    by (simp add: prepare_event_def OnPollPreparePfn_def Let_def same_items_def)
qed

lemma prepare_events_spec:
  assumes "ring_inv s L" "\<forall>(i, e) \<in> set es. pfnPrepare s i"
  shows "\<exists>t. fold_opt prepare_event es s = Some t \<and> same_items s t \<and> bTimeout t = bTimeout s \<and>
    ring_inv t (detach (raised (pPoll s) (iAllEventDetach s) es) L)"
  using assms
proof (induction es arbitrary: s L)
  case Nil
  then show ?case by (simp add: same_items_refl)
next
  case (Cons ev es)
  obtain i e where ev: "ev = (i, e)" by (cases ev)
  let ?p = "pPoll s i"
  have pre: "pfnPrepare s i" using Cons.prems(2) ev by simp
  obtain t where t: "prepare_event (i, e) s = Some t" "same_items s t" "bTimeout t = bTimeout s"
    "ring_inv t (if iAllEventDetach s ?p then L else detach [?p] L)"
    "iAllEventDetach t = (iAllEventDetach s)(?p := True)"
    using prepare_event_spec [OF Cons.prems(1) pre] by blast
  have "\<forall>(i, e) \<in> set es. pfnPrepare t i" using Cons.prems(2) t(2) by (auto simp: same_items_def)
  from Cons.IH [OF t(4) this] obtain u where u: "fold_opt prepare_event es t = Some u"
    "same_items t u" "bTimeout u = bTimeout t"
    "ring_inv u (detach (raised (pPoll t) (iAllEventDetach t) es)
      (if iAllEventDetach s ?p then L else detach [?p] L))" by blast
  have pp: "pPoll t = pPoll s" using t(2) by (simp add: same_items_def)
  have "ring_inv u (detach (raised (pPoll s) (iAllEventDetach s) (ev # es)) L)"
  proof (cases "iAllEventDetach s ?p")
    case True
    then have "(iAllEventDetach s)(?p := True) = iAllEventDetach s" by (simp add: fun_upd_idem)
    with True u(4) show ?thesis by (simp add: ev pp t(5))
  next
    case False
    have "?p \<notin> set (raised (pPoll s) ((iAllEventDetach s)(?p := True)) es)"
      by (rule raised_detached)
    with False u(4) show ?thesis by (simp add: ev pp t(5) detach_Cons)
  qed
  then show ?case using t u same_items_trans by (auto simp: ev)
qed

lemma mark_timeouts_chain:
  assumes "dseg (lnk s) p xs None"
  shows "mark_timeouts (first_or xs None) s =
    Some (s\<lparr>bTimeout := (\<lambda>n. n \<in> set xs \<or> bTimeout s n)\<rparr>)"
  using assms
proof (induction xs arbitrary: s p)
  case Nil
  then show ?case by (simp add: mark_timeouts.simps)
next
  case (Cons x xs)
  let ?s = "s\<lparr>bTimeout := (bTimeout s)(x := True)\<rparr>"
  have "dseg (lnk ?s) (Some x) xs None" using Cons.prems by simp
  note IH = Cons.IH [OF this]
  have "mark_timeouts (Some x) s = mark_timeouts (first_or xs None) ?s"
    using Cons.prems by (subst mark_timeouts.simps) (simp add: Let_def)
  also have "\<dots> = Some (s\<lparr>bTimeout := (\<lambda>n. n \<in> set (x # xs) \<or> bTimeout s n)\<rparr>)"
    unfolding IH by (auto simp: fun_eq_iff intro!: arg_cong [of _ _ "\<lambda>b. s\<lparr>bTimeout := b\<rparr>"])
  finally show ?case by simp
qed

section \<open>What the loop relies on from the coroutines\<close>

text \<open>
  \<open>keeps_clock\<close>: a resumed coroutine leaves the start of the ring and the record of the
  callbacks alone. \<open>AddTimeout\<close> called from \<open>co_poll\<close> satisfies it, because the start is set.

  \<open>yields\<close>: a resumed coroutine yields, keeps the ring well formed, keeps what is already in
  the active list with its fields, and may append further items to it by signalling condition
  variables, as often as the measure \<open>pot\<close> of the coroutines' own state allows.
\<close>

definition keeps_clock ::
  "('co \<Rightarrow> ('n, 'co, 'z) stCoEpoll_scheme \<Rightarrow> ('n, 'co, 'z) stCoEpoll_scheme option) \<Rightarrow> bool" where
  "keeps_clock resume \<longleftrightarrow>
     (\<forall>co s t. resume co s = Some t \<longrightarrow> ullStart s \<noteq> 0 \<longrightarrow>
        ullStart t = ullStart s \<and> proc_log t = proc_log s)"

definition loop_inv ::
  "u64 \<Rightarrow> ('n, 'co, 'z) stCoEpoll_scheme \<Rightarrow> (link_id \<Rightarrow> 'n list) \<Rightarrow> bool" where
  "loop_inv now s L \<longleftrightarrow> ring_inv s L \<and> ullStart s = now \<and>
     (\<forall>n \<in> set (L ActiveList). uint (ullExpireTime s n) < 2 ^ 62)"

definition same_fields ::
  "'n \<Rightarrow> ('n, 'co, 'z) stCoEpoll_scheme \<Rightarrow> ('n, 'co, 'z) stCoEpoll_scheme \<Rightarrow> bool" where
  "same_fields n s t \<longleftrightarrow> ullExpireTime t n = ullExpireTime s n \<and> bTimeout t n = bTimeout s n \<and>
     pfnProcess t n = pfnProcess s n \<and> pArg t n = pArg s n"

definition yields ::
  "('z \<Rightarrow> nat) \<Rightarrow> u64 \<Rightarrow>
   ('co \<Rightarrow> ('n, 'co, 'z) stCoEpoll_scheme \<Rightarrow> ('n, 'co, 'z) stCoEpoll_scheme option) \<Rightarrow> bool" where
  "yields pot now resume \<longleftrightarrow>
     (\<forall>co s L. loop_inv now s L \<longrightarrow>
        (\<exists>t M woken. resume co s = Some t \<and> loop_inv now t M \<and> proc_log t = proc_log s \<and>
           M ActiveList = L ActiveList @ woken \<and> (\<forall>n \<in> set (L ActiveList). same_fields n s t) \<and>
           M TimeoutList = L TimeoutList \<and>
           pot (stCoEpoll.more t) + length woken \<le> pot (stCoEpoll.more s)))"

text \<open>An item the loop puts back into the ring instead of processing it.\<close>

definition rearms :: "u64 \<Rightarrow> ('n, 'co, 'z) stCoEpoll_scheme \<Rightarrow> 'n \<Rightarrow> bool" where
  "rearms now s n \<longleftrightarrow> bTimeout s n \<and> now < ullExpireTime s n"

definition log_of :: "u64 \<Rightarrow> ('n, 'co, 'z) stCoEpoll_scheme \<Rightarrow> 'n list \<Rightarrow> ('n \<times> bool \<times> u64) list" where
  "log_of now s ns = map (\<lambda>n. (n, bTimeout s n, ullExpireTime s n))
     (filter (\<lambda>n. pfnProcess s n \<and> \<not> rearms now s n) ns)"

lemma log_of_cong:
  "(\<And>n. n \<in> set ns \<Longrightarrow> same_fields n s t) \<Longrightarrow> log_of now t ns = log_of now s ns"
  by (auto simp: log_of_def rearms_def same_fields_def intro!: map_cong filter_cong)

lemma log_of_Nil [simp]: "log_of now s [] = []"
  by (simp add: log_of_def)

lemma log_of_Cons:
  "log_of now s (n # ns) =
     (if pfnProcess s n \<and> \<not> rearms now s n then [(n, bTimeout s n, ullExpireTime s n)] else []) @
     log_of now s ns"
  by (simp add: log_of_def)

lemma loop_invD:
  assumes "loop_inv now s L"
  shows "ring_inv s L" "ullStart s = now" "uint now < 2 ^ 62"
    "\<And>n. n \<in> set (L ActiveList) \<Longrightarrow> uint (ullExpireTime s n) < 2 ^ 62"
  using assms ring_invD(6) [of s L] by (auto simp: loop_inv_def)

lemma loop_inv_cong:
  assumes "loop_inv now s L" "lnk t = lnk s" "iItemSize t = iItemSize s" "ullStart t = ullStart s"
    "llStartIdx t = llStartIdx s" "ullExpireTime t = ullExpireTime s"
  shows "loop_inv now t L"
  using assms ring_inv_cong [of t s L] by (simp add: loop_inv_def)

lemma loop_inv_pop:
  assumes inv: "loop_inv now s L" and L: "L ActiveList = n # ns"
  shows "loop_inv now (s\<lparr>lnk := PopHead ActiveList (lnk s)\<rparr>) (L(ActiveList := ns))"
proof -
  note I = loop_invD [OF inv]
  have "represents (PopHead ActiveList (lnk s)) (L(ActiveList := ns))"
    using links.pop_any [OF ring_invD(1) [OF I(1)], of ActiveList] L by simp
  with ring_inv_sub [OF I(1)] I(2,4) L show ?thesis by (simp add: loop_inv_def)
qed

lemma popped_fresh:
  assumes inv: "loop_inv now s L" and L: "L ActiveList = n # ns"
  shows "\<forall>k. n \<notin> set ((L(ActiveList := ns)) k)"
proof
  note r = ring_invD(1) [OF loop_invD(1) [OF inv]]
  show "n \<notin> set ((L(ActiveList := ns)) k)" for k
  proof (cases "k = ActiveList")
    case True
    then show ?thesis using links.rep_distinct [OF r, of ActiveList] L by simp
  next
    case False
    then show ?thesis using links.rep_disjoint [OF r, of n ActiveList k] L by auto
  qed
qed

text \<open>An item whose expiry is still ahead goes back into the ring.\<close>

lemma loop_inv_rearm:
  assumes inv: "loop_inv now s M" and fresh: "\<forall>k. n \<notin> set (M k)"
    and ahead: "now < ullExpireTime s n" and ex: "uint (ullExpireTime s n) < 2 ^ 62"
    and nz: "now \<noteq> 0"
  shows "\<exists>i. loop_inv now (snd (AddTimeout n now s)) (M(Slot i := M (Slot i) @ [n])) \<and>
    AddTimeout n now s = (0, s\<lparr>lnk := AddTail (Slot i) n (lnk s)\<rparr>)"
proof -
  note I = loop_invD [OF inv]
  have st: "started now s = s" using I(2) nz by (simp add: started_def)
  have le: "ullStart (started now s) \<le> now" "now \<le> ullExpireTime s n" using st I(2) ahead by auto
  obtain i where i: "slot_at s (distance s n) = Slot i" by (simp add: slot_at_def)
  have eq: "AddTimeout n now s = (0, s\<lparr>lnk := AddTail (Slot i) n (lnk s)\<rparr>)"
    using AddTimeout_links [OF I(1,3) le ex] unfolding st i .
  have "ring_inv (s\<lparr>lnk := AddTail (Slot i) n (lnk s)\<rparr>) (M(Slot i := M (Slot i) @ [n]))"
    using AddTimeout_inv [OF I(1,3) le ex fresh] nz I(2) unfolding st i eq by simp
  then have "loop_inv now (s\<lparr>lnk := AddTail (Slot i) n (lnk s)\<rparr>) (M(Slot i := M (Slot i) @ [n]))"
    using I(2,4) by (simp add: loop_inv_def)
  with eq show ?thesis by auto
qed

section \<open>Processing the active list\<close>

text \<open>The unrolling of the loop for an active list that starts with \<open>n\<close>.\<close>

lemma process_active_done:
  "loop_inv now s L \<Longrightarrow> L ActiveList = [] \<Longrightarrow> process_active resume now s = Some s"
  using links.rep_fun represents_lhead [OF ring_invD(1) [OF loop_invD(1)], of now s L ActiveList]
  by (simp add: process_active.simps)

lemma process_active_head:
  assumes "loop_inv now s L" "L ActiveList = n # ns"
  shows "process_active resume now s =
    (let s1 = s\<lparr>lnk := PopHead ActiveList (lnk s)\<rparr>
     in if rearms now s n
        then (case AddTimeout n now s1 of
                (ret, s2) \<Rightarrow>
                  if ret = 0
                  then process_active resume now (s2\<lparr>bTimeout := (bTimeout s2)(n := False)\<rparr>)
                  else Option.bind (process_item resume n s2) (process_active resume now))
        else Option.bind (process_item resume n s1) (process_active resume now))"
proof -
  have "lhead (lnk s) ActiveList = Some n"
    using represents_lhead [OF ring_invD(1) [OF loop_invD(1) [OF assms(1)]], of ActiveList] assms(2)
    by simp
  then show ?thesis by (subst process_active.simps) (simp add: Let_def rearms_def)
qed

lemma process_item_spec:
  assumes Y: "yields pot now resume" and inv: "loop_inv now s L"
  shows "\<exists>t M woken. process_item resume n s = Some t \<and> loop_inv now t M \<and>
    proc_log t = proc_log s @ (if pfnProcess s n then [(n, bTimeout s n, ullExpireTime s n)] else []) \<and>
    M ActiveList = L ActiveList @ woken \<and> (\<forall>m \<in> set (L ActiveList). same_fields m s t) \<and>
    M TimeoutList = L TimeoutList \<and>
    pot (stCoEpoll.more t) + length woken \<le> pot (stCoEpoll.more s)"
proof (cases "pfnProcess s n")
  case True
  let ?s = "s\<lparr>proc_log := proc_log s @ [(n, bTimeout s n, ullExpireTime s n)]\<rparr>"
  have "loop_inv now ?s L" by (rule loop_inv_cong [OF inv]) simp_all
  then obtain t M woken where t: "resume (pArg s n) ?s = Some t" "loop_inv now t M"
    "proc_log t = proc_log ?s" "M ActiveList = L ActiveList @ woken"
    "\<forall>m \<in> set (L ActiveList). same_fields m ?s t" "M TimeoutList = L TimeoutList"
    "pot (stCoEpoll.more t) + length woken \<le> pot (stCoEpoll.more ?s)"
    using Y unfolding yields_def by meson
  show ?thesis
    by (rule exI [of _ t], rule exI [of _ M], rule exI [of _ woken])
      (use t True in \<open>simp add: process_item_def same_fields_def\<close>)
next
  case False
  then show ?thesis
    by (intro exI [of _ s] exI [of _ L] exI [of _ "[]"])
      (use inv in \<open>simp add: process_item_def same_fields_def\<close>)
qed

lemma process_active_spec:
  assumes Y: "yields pot now resume" and inv: "loop_inv now s L" and nz: "now \<noteq> 0"
  shows "\<exists>t M rest. process_active resume now s = Some t \<and> loop_inv now t M \<and>
    M ActiveList = [] \<and> M TimeoutList = L TimeoutList \<and>
    proc_log t = proc_log s @ log_of now s (L ActiveList) @ rest \<and>
    length rest \<le> pot (stCoEpoll.more s)"
  using inv
proof (induction "pot (stCoEpoll.more s) + length (L ActiveList)" arbitrary: s L rule: less_induct)
  case less
  show ?case
  proof (cases "L ActiveList")
    case Nil
    with less.prems show ?thesis
      by (intro exI [of _ s] exI [of _ L] exI [of _ "[]"]) (simp add: process_active_done)
  next
    case (Cons n ns)
    let ?s = "s\<lparr>lnk := PopHead ActiveList (lnk s)\<rparr>" and ?L = "L(ActiveList := ns)"
    note inv1 = loop_inv_pop [OF less.prems Cons]
    note fresh = popped_fresh [OF less.prems Cons]
    note step = process_active_head [OF less.prems Cons, of resume, unfolded Let_def]
    have dist: "n \<notin> set ns" using fresh by (metis fun_upd_same)
    have len: "length (L ActiveList) = Suc (length ns)" using Cons by simp
    show ?thesis
    proof (cases "rearms now s n")
      case True
      have "now < ullExpireTime ?s n" using True by (simp add: rearms_def)
      moreover have "uint (ullExpireTime ?s n) < 2 ^ 62"
        using loop_invD(4) [OF less.prems, of n] Cons by simp
      ultimately obtain i where i: "loop_inv now (snd (AddTimeout n now ?s)) (?L(Slot i := ?L (Slot i) @ [n]))"
        "AddTimeout n now ?s = (0, ?s\<lparr>lnk := AddTail (Slot i) n (lnk ?s)\<rparr>)"
        using loop_inv_rearm [OF inv1 fresh _ _ nz] by blast
      let ?t = "snd (AddTimeout n now ?s)" and ?M = "?L(Slot i := ?L (Slot i) @ [n])"
      let ?u = "?t\<lparr>bTimeout := (bTimeout ?t)(n := False)\<rparr>"
      have u: "loop_inv now ?u ?M" by (rule loop_inv_cong [OF i(1)]) simp_all
      have M: "?M ActiveList = ns" "?M TimeoutList = L TimeoutList" by simp_all
      have su: "stCoEpoll.more ?u = stCoEpoll.more s" "proc_log ?u = proc_log s"
        by (simp_all add: i(2))
      have "pot (stCoEpoll.more ?u) + length (?M ActiveList) < pot (stCoEpoll.more s) + length (L ActiveList)"
        using su M len by simp
      from less.hyps [OF this u] obtain v N rest where v: "process_active resume now ?u = Some v"
        "loop_inv now v N" "N ActiveList = []" "N TimeoutList = ?M TimeoutList"
        "proc_log v = proc_log ?u @ log_of now ?u (?M ActiveList) @ rest"
        "length rest \<le> pot (stCoEpoll.more ?u)" by blast
      have "log_of now ?u ns = log_of now s ns"
        using dist by (intro log_of_cong) (auto simp: same_fields_def i(2))
      then have "log_of now ?u (?M ActiveList) = log_of now s (L ActiveList)"
        using True by (simp only: M) (simp add: log_of_Cons Cons)
      moreover have "process_active resume now s = process_active resume now ?u"
        unfolding step using True i(2) by simp
      ultimately show ?thesis using v su M by metis
    next
      case False
      obtain t M woken where t: "process_item resume n ?s = Some t" "loop_inv now t M"
        "proc_log t = proc_log ?s @ (if pfnProcess ?s n then [(n, bTimeout ?s n, ullExpireTime ?s n)] else [])"
        "M ActiveList = ?L ActiveList @ woken" "\<forall>m \<in> set (?L ActiveList). same_fields m ?s t"
        "M TimeoutList = ?L TimeoutList"
        "pot (stCoEpoll.more t) + length woken \<le> pot (stCoEpoll.more ?s)"
        using process_item_spec [OF Y inv1, of n] by blast
      have "pot (stCoEpoll.more t) + length (M ActiveList) < pot (stCoEpoll.more s) + length (L ActiveList)"
        using t(4,7) len by simp
      from less.hyps [OF this t(2)] obtain v N rest where v: "process_active resume now t = Some v"
        "loop_inv now v N" "N ActiveList = []" "N TimeoutList = M TimeoutList"
        "proc_log v = proc_log t @ log_of now t (M ActiveList) @ rest"
        "length rest \<le> pot (stCoEpoll.more t)" by blast
      have "log_of now t ns = log_of now s ns"
        using t(5) by (intro log_of_cong) (auto simp: same_fields_def)
      then have "proc_log v = proc_log s @ log_of now s (L ActiveList) @ (log_of now t woken @ rest)"
        using v(5) t(3,4) False by (simp add: log_of_def Cons)
      moreover have "length (log_of now t woken) \<le> length woken"
        unfolding log_of_def by simp
      then have "length (log_of now t woken @ rest) \<le> pot (stCoEpoll.more s)"
        using v(6) t(7) by simp
      moreover have "process_active resume now s = Some v"
        unfolding step using False t(1) v(1) by simp
      ultimately show ?thesis using v t(6) by (metis fun_upd_other link_id.distinct(5))
    qed
  qed
qed

text \<open>With no assumption on what the coroutines do to the lists: a callback that sees its item
  timed out never runs early.\<close>

definition only_due :: "u64 \<Rightarrow> ('n \<times> bool \<times> u64) list \<Rightarrow> bool" where
  "only_due now log \<longleftrightarrow> (\<forall>(n, b, e) \<in> set log. b \<longrightarrow> e \<le> now)"

lemma only_due_append [simp]: "only_due now (xs @ ys) \<longleftrightarrow> only_due now xs \<and> only_due now ys"
  by (simp add: only_due_def ball_Un)

lemma process_item_log:
  assumes K: "keeps_clock resume" and "ullStart s \<noteq> 0" "process_item resume n s = Some t"
  shows "ullStart t = ullStart s"
    "proc_log t = proc_log s @ (if pfnProcess s n then [(n, bTimeout s n, ullExpireTime s n)] else [])"
  using assms unfolding process_item_def keeps_clock_def
  by (force split: if_splits)+

lemma AddTimeout_zero:
  assumes "AddTimeout n now s = (ret, t)" "ullStart s = now" "now \<le> ullExpireTime s n" "now \<noteq> 0"
  shows "ret = 0 \<and> ullStart t = now"
proof -
  have "\<not> ullExpireTime s n < now" "\<not> now < ullStart s" "ullStart s \<noteq> 0" using assms(2-4) by auto
  with assms(1,2) show ?thesis unfolding AddTimeout_def Let_def by auto
qed

lemma AddTimeout_log:
  "AddTimeout n now s = (ret, t) \<Longrightarrow> proc_log t = proc_log s"
  by (auto simp: AddTimeout_def Let_def split: if_splits)

lemma process_active_due:
  assumes "process_active resume now s = Some t" and "keeps_clock resume" "now \<noteq> 0"
    and "ullStart s = now" "only_due now (proc_log s)"
  shows "only_due now (proc_log t)"
  using assms
proof (induction rule: process_active.raw_induct [rotated, consumes 1, case_names 1])
  case (1 pa resume now s t)
  note K = "1.prems"(1) and nz = "1.prems"(2)
  have goon: "only_due now (proc_log t)"
    if u: "Option.bind (process_item resume n u) (pa resume now) = Some t" "ullStart u = now"
      "only_due now (proc_log u)" "\<not> (bTimeout u n \<and> now < ullExpireTime u n)" for n u
  proof -
    obtain v where v: "process_item resume n u = Some v" "pa resume now v = Some t"
      using u(1) by (auto simp: Option.bind_eq_Some_conv)
    note p = process_item_log [OF K _ v(1)]
    have "ullStart v = now" "only_due now (proc_log v)"
      using p u(2-4) nz by (auto simp: only_due_def not_less)
    with "1.IH" [OF v(2) K nz] show ?thesis by blast
  qed
  show ?case
  proof (cases "lhead (lnk s) ActiveList")
    case None
    with 1 show ?thesis by simp
  next
    case (Some n)
    let ?s = "s\<lparr>lnk := PopHead ActiveList (lnk s)\<rparr>"
    show ?thesis
    proof (cases "bTimeout ?s n \<and> now < ullExpireTime ?s n")
      case True
      obtain ret u where a: "AddTimeout n now ?s = (ret, u)" by force
      have z: "ret = 0" "ullStart u = now"
        using AddTimeout_zero [OF a] True "1.prems" nz by auto
      have "pa resume now (u\<lparr>bTimeout := (bTimeout u)(n := False)\<rparr>) = Some t"
        using "1.hyps" Some True a z by (simp add: Let_def)
      moreover have "proc_log u = proc_log s" using AddTimeout_log [OF a] by simp
      ultimately show ?thesis using "1.IH" [OF _ K nz] z(2) "1.prems"(4) by fastforce
    next
      case False
      then show ?thesis using "1.hyps" "1.prems" Some by (intro goon [of n ?s]) (auto simp: Let_def)
    qed
  qed
qed

section \<open>A whole iteration\<close>

text \<open>The items an iteration takes out of the ring.\<close>

definition timed_out ::
  "u64 \<Rightarrow> ('n \<times> u32) list \<Rightarrow> ('n, 'co, 'z) stCoEpoll_scheme \<Rightarrow> (link_id \<Rightarrow> 'n list) \<Rightarrow> 'n list" where
  "timed_out now es s L =
     taken now TimeoutList (started now s) (detach (raised (pPoll s) (iAllEventDetach s) es) L)
       TimeoutList"

lemma memset_noop:
  assumes "represents l L" "L k = []"
  shows "set_head k None (set_tail k None l) = l"
  using represents_lhead [OF assms(1), of k] represents_ltail [OF assms(1), of k] assms(2)
  by (intro links_eqI) (simp_all add: fun_upd_idem)

lemma started_same_items:
  "same_items s t \<Longrightarrow> iItemSize (started now t) = iItemSize (started now s)"
  "same_items s t \<Longrightarrow> ullStart (started now t) = ullStart (started now s)"
  "same_items s t \<Longrightarrow> llStartIdx (started now t) = llStartIdx (started now s)"
  by (auto simp: same_items_def started_def)

lemma taken_same_items:
  assumes "same_items s t"
  shows "taken now r (started now t) L = taken now r (started now s) L"
  using started_same_items [OF assms, of now]
  by (simp add: taken_def taken_slots_def take_count_def slot_at_def fun_eq_iff)

lemma clock_ok_same_items: "same_items s t \<Longrightarrow> clock_ok now t = clock_ok now s"
  using started_same_items [of s t now] by (simp add: clock_ok_def)

lemma TakeAllTimeout_loop:
  assumes inv: "ring_inv s L" and clk: "clock_ok now s"
  shows "\<exists>l x. TakeAllTimeout now TimeoutList s = Some (s\<lparr>lnk := l, ullStart := now, llStartIdx := x\<rparr>) \<and>
    ring_inv (s\<lparr>lnk := l, ullStart := now, llStartIdx := x\<rparr>) (taken now TimeoutList (started now s) L)"
proof -
  have res: "\<forall>i. TimeoutList \<noteq> Slot i" by simp
  obtain l x where "TakeAllTimeout now TimeoutList s = Some ((started now s)\<lparr>lnk := l, ullStart := now, llStartIdx := x\<rparr>)"
    using TakeAllTimeout_eq [OF inv clk res] by blast
  then have "TakeAllTimeout now TimeoutList s = Some (s\<lparr>lnk := l, ullStart := now, llStartIdx := x\<rparr>)"
    by (simp add: started_def)
  with TakeAllTimeout_inv [OF inv clk res] show ?thesis by (metis option.inject)
qed

text \<open>The items that are collected: first the raised polls, then the items taken out of the ring. The
  event callbacks give a state \<open>s1\<close>; after that only the links, the start of the ring and the marks
  change.\<close>

lemma collect_active_spec:
  fixes s :: "('n, 'co, 'z) stCoEpoll_scheme"
  assumes inv: "ring_inv s L" "L ActiveList = []" "L TimeoutList = []"
    and clk: "clock_ok now s"
    and ev: "\<forall>(i, e) \<in> set es. pfnPrepare s i"
  defines "R \<equiv> raised (pPoll s) (iAllEventDetach s) es" and "T \<equiv> timed_out now es s L"
  shows "\<exists>s1 l x. fold_opt prepare_event es s = Some s1 \<and> same_items s s1 \<and> bTimeout s1 = bTimeout s \<and>
    (let t = s1\<lparr>lnk := l, ullStart := now, llStartIdx := x, bTimeout := \<lambda>n. n \<in> set T \<or> bTimeout s n\<rparr>
     in collect_active es now s = Some t \<and>
       ring_inv t ((taken now TimeoutList (started now s) (detach R L))(ActiveList := R @ T, TimeoutList := [])))"
proof -
  have s0: "s\<lparr>lnk := set_head TimeoutList None (set_tail TimeoutList None (lnk s))\<rparr> = s"
    using memset_noop [OF ring_invD(1) [OF inv(1)] inv(3)] by simp
  obtain t1 where t1: "fold_opt prepare_event es s = Some t1" "same_items s t1"
    "bTimeout t1 = bTimeout s" "ring_inv t1 (detach R L)"
    using prepare_events_spec [OF inv(1) ev] unfolding R_def by blast
  let ?K = "taken now TimeoutList (started now s) (detach R L)"
  obtain l x where t2: "TakeAllTimeout now TimeoutList t1 = Some (t1\<lparr>lnk := l, ullStart := now, llStartIdx := x\<rparr>)"
    "ring_inv (t1\<lparr>lnk := l, ullStart := now, llStartIdx := x\<rparr>) ?K"
    using TakeAllTimeout_loop [OF t1(4)] clock_ok_same_items [OF t1(2)] clk
      taken_same_items [OF t1(2)] by metis
  let ?t2 = "t1\<lparr>lnk := l, ullStart := now, llStartIdx := x\<rparr>"
  have T: "?K TimeoutList = T" unfolding T_def timed_out_def R_def ..
  have A: "?K ActiveList = R"
    using inv(2) by (simp add: taken_def taken_slots_def slot_at_def detach_def image_iff)
  note r = ring_invD(1) [OF t2(2)]
  let ?t3 = "?t2\<lparr>bTimeout := \<lambda>n. n \<in> set T \<or> bTimeout s n\<rparr>"
  have t3: "mark_timeouts (lhead (lnk ?t2) TimeoutList) ?t2 = Some ?t3"
    using mark_timeouts_chain [of ?t2 None T] represents_dlist [OF r, of TimeoutList] t1(3)
    by (simp add: dlist_def T)
  obtain k where k: "Join ActiveList TimeoutList (lnk ?t2) = Some k"
    "represents k (?K(ActiveList := R @ T, TimeoutList := []))"
    using links.join_any [OF r, of ActiveList TimeoutList] A T by auto
  let ?L4 = "?K(ActiveList := R @ T, TimeoutList := [])"
  have "ring_inv (?t2\<lparr>lnk := k\<rparr>) ?L4" by (rule ring_inv_sub [OF t2(2) k(2)]) simp
  then have "ring_inv (t1\<lparr>lnk := k, ullStart := now, llStartIdx := x,
      bTimeout := \<lambda>n. n \<in> set T \<or> bTimeout s n\<rparr>) ?L4"
    by (subst ring_inv_cong [of _ "?t2\<lparr>lnk := k\<rparr>"]) simp_all
  moreover have "collect_active es now s = Some (t1\<lparr>lnk := k, ullStart := now, llStartIdx := x,
      bTimeout := \<lambda>n. n \<in> set T \<or> bTimeout s n\<rparr>)"
    unfolding collect_active_def Let_def s0 using t1(1) t2(1) t3 k(1) by simp
  ultimately show ?thesis using t1(1-3) unfolding Let_def by blast
qed

lemma eventloop_iteration_spec:
  fixes s :: "('n, 'co, 'z) stCoEpoll_scheme"
  assumes inv: "ring_inv s L" "L ActiveList = []" "L TimeoutList = []"
    and clk: "clock_ok now s" "now \<noteq> 0"
    and ev: "\<forall>(i, e) \<in> set es. pfnPrepare s i"
    and ex: "\<forall>n. uint (ullExpireTime s n) < 2 ^ 62"
    and Y: "yields pot now resume"
  defines "R \<equiv> raised (pPoll s) (iAllEventDetach s) es" and "T \<equiv> timed_out now es s L"
  shows "\<exists>t M rest. eventloop_iteration resume es now s = Some t \<and> ring_inv t M \<and>
    M ActiveList = [] \<and> M TimeoutList = [] \<and>
    proc_log t = proc_log s @ log_of now (s\<lparr>bTimeout := \<lambda>n. n \<in> set T \<or> bTimeout s n\<rparr>) (R @ T) @ rest \<and>
    length rest \<le> pot (stCoEpoll.more s)"
proof -
  let ?L4 = "(taken now TimeoutList (started now s) (detach R L))(ActiveList := R @ T, TimeoutList := [])"
  obtain s1 l x where s1: "same_items s s1"
    and c: "collect_active es now s = Some (s1\<lparr>lnk := l, ullStart := now, llStartIdx := x,
      bTimeout := \<lambda>n. n \<in> set T \<or> bTimeout s n\<rparr>)"
    and r: "ring_inv (s1\<lparr>lnk := l, ullStart := now, llStartIdx := x,
      bTimeout := \<lambda>n. n \<in> set T \<or> bTimeout s n\<rparr>) ?L4"
    using collect_active_spec [OF inv clk(1) ev] unfolding R_def T_def Let_def by blast
  let ?t4 = "s1\<lparr>lnk := l, ullStart := now, llStartIdx := x, bTimeout := \<lambda>n. n \<in> set T \<or> bTimeout s n\<rparr>"
  note si = s1 [unfolded same_items_def]
  have "loop_inv now ?t4 ?L4" using r ex si by (simp add: loop_inv_def)
  from process_active_spec [OF Y this clk(2)] obtain t M rest where
    t: "process_active resume now ?t4 = Some t" "loop_inv now t M" "M ActiveList = []"
      "M TimeoutList = []" "proc_log t = proc_log ?t4 @ log_of now ?t4 (R @ T) @ rest"
      "length rest \<le> pot (stCoEpoll.more ?t4)" by auto
  have "log_of now ?t4 (R @ T) =
      log_of now (s\<lparr>bTimeout := \<lambda>n. n \<in> set T \<or> bTimeout s n\<rparr>) (R @ T)"
    using si by (simp add: log_of_def rearms_def)
  then have "proc_log t = proc_log s @
      log_of now (s\<lparr>bTimeout := \<lambda>n. n \<in> set T \<or> bTimeout s n\<rparr>) (R @ T) @ rest"
    using t(5) si by simp
  moreover have "eventloop_iteration resume es now s = Some t"
    unfolding eventloop_iteration_def using c t(1) by simp
  moreover have "length rest \<le> pot (stCoEpoll.more s)" using t(6) si by simp
  ultimately show ?thesis using loop_invD(1) [OF t(2)] t(3,4) by blast
qed

section \<open>Properties\<close>

lemma eventloop_serves_aux:
  assumes "ring_inv s L" "L ActiveList = []" "L TimeoutList = []"
    and clk: "clock_ok now s"
    and T: "T = timed_out now es s L" and R: "R = raised (pPoll s) (iAllEventDetach s) es"
    and m: "m \<in> set (L (Slot i))" "ullExpireTime s m \<le> now"
  shows "m \<in> set (R @ T)"
proof (cases "m \<in> set R")
  case False
  let ?D = "detach R L"
  have "ring_inv s L" by (rule assms(1))
  let ?K = "taken now TimeoutList (started now s) ?D"
  have "m \<in> set (?D (Slot i))" using m False by (simp add: detach_def)
  moreover have "Slot i \<in> set (taken_slots now (started now s))"
  proof -
    have "m \<in> set (taken now TimeoutList (started now s) L TimeoutList)"
      by (rule taken_due [OF assms(1) clk m])
    then obtain j where j: "j \<in> set (taken_slots now (started now s))" "m \<in> set (L j)"
      using assms(3) by (auto simp: taken_def)
    moreover have "j = Slot i"
      using links.rep_disjoint [OF ring_invD(1) [OF assms(1)]] j(2) m(1) by blast
    ultimately show ?thesis by simp
  qed
  ultimately show ?thesis unfolding T timed_out_def R [symmetric] by (auto simp: taken_def)
qed simp

lemma log_of_mem:
  "m \<in> set ns \<Longrightarrow> pfnProcess s m \<Longrightarrow> ullExpireTime s m \<le> now \<or> \<not> bTimeout s m \<Longrightarrow>
     (m, bTimeout s m, ullExpireTime s m) \<in> set (log_of now s ns)"
  by (auto simp: log_of_def rearms_def)

lemma raised_not_timed_out:
  assumes "L TimeoutList = []" "m \<in> set (raised (pPoll s) (iAllEventDetach s) es)"
  shows "m \<notin> set (timed_out now es s L)"
proof -
  have "k \<noteq> ActiveList" if "k \<in> set (taken_slots now u)" for k and u :: "('a, 'b, 'c) stCoEpoll_scheme"
    using that by (auto simp: taken_slots_def slot_at_def)
  then show ?thesis using assms by (auto simp: timed_out_def taken_def detach_def)
qed

lemma collected_distinct:
  assumes "ring_inv s L" "L ActiveList = []" "L TimeoutList = []" "clock_ok now s"
    and "\<forall>(i, e) \<in> set es. pfnPrepare s i"
  shows "distinct (raised (pPoll s) (iAllEventDetach s) es @ timed_out now es s L)"
proof -
  obtain t :: "('a, 'b, 'c) stCoEpoll_scheme" and M where
    "ring_inv t (M(ActiveList := raised (pPoll s) (iAllEventDetach s) es @ timed_out now es s L, TimeoutList := []))"
    using collect_active_spec [OF assms] unfolding Let_def by blast
  from represents_distinct [OF ring_invD(1) [OF this], of ActiveList] show ?thesis by simp
qed

lemma raised_from: "p \<in> set (raised pp det es) \<Longrightarrow> \<exists>i e. (i, e) \<in> set es \<and> pp i = p \<and> \<not> det p"
  by (induction pp det es rule: raised.induct) (fastforce split: if_splits)+

lemma timed_out_from:
  assumes "L TimeoutList = []" "m \<in> set (timed_out now es s L)"
  shows "\<exists>i. m \<in> set (L (Slot i))"
  using assms by (auto simp: timed_out_def taken_def taken_slots_def slot_at_def detach_def)

text \<open>C4
  One iteration of \<open>co_eventloop\<close> returns, whatever finite number \<open>pot\<close> of further wake-ups the
  resumed coroutines cause, and it serves everybody once. First it runs the callbacks \<open>xs\<close>, no two of
  the same item: those of every item of the timeout ring whose expiry is not after \<open>now\<close> and of every poll
  whose descriptor became ready, and no others. Callbacks beyond these, \<open>rest\<close>, are only those that the
  resumed coroutines ask for themselves. It ends with both lists empty and the ring well formed.\<close>

theorem eventloop_iteration_serves:
  fixes s :: "('n, 'co, 'z) stCoEpoll_scheme"
  assumes "ring_inv s L" "L ActiveList = []" "L TimeoutList = []"
    and "clock_ok now s" "now \<noteq> 0"
    and "\<forall>(i, e) \<in> set es. pfnPrepare s i"
    and "\<forall>n. uint (ullExpireTime s n) < 2 ^ 62"
    and "yields pot now resume"
  shows "\<exists>t M xs rest. eventloop_iteration resume es now s = Some t \<and> ring_inv t M \<and>
    M ActiveList = [] \<and> M TimeoutList = [] \<and>
    proc_log t = proc_log s @ xs @ rest \<and> distinct (map fst xs) \<and> length rest \<le> pot (stCoEpoll.more s) \<and>
    (\<forall>m i. m \<in> set (L (Slot i)) \<and> ullExpireTime s m \<le> now \<and> pfnProcess s m \<longrightarrow>
       (\<exists>b. (m, b, ullExpireTime s m) \<in> set xs)) \<and>
    (\<forall>i e. (i, e) \<in> set es \<and> \<not> iAllEventDetach s (pPoll s i) \<and> pfnProcess s (pPoll s i) \<and>
         \<not> bTimeout s (pPoll s i) \<longrightarrow>
       (pPoll s i, False, ullExpireTime s (pPoll s i)) \<in> set xs) \<and>
    (\<forall>(m, b, e) \<in> set xs. pfnProcess s m \<and> e = ullExpireTime s m \<and>
       ((\<exists>i ev. (i, ev) \<in> set es \<and> pPoll s i = m \<and> \<not> iAllEventDetach s m) \<or>
        (\<exists>i. m \<in> set (L (Slot i))) \<and> e \<le> now))"
proof -
  let ?R = "raised (pPoll s) (iAllEventDetach s) es" and ?T = "timed_out now es s L"
  let ?s = "s\<lparr>bTimeout := \<lambda>n. n \<in> set ?T \<or> bTimeout s n\<rparr>"
  let ?xs = "log_of now ?s (?R @ ?T)"
  obtain t M rest where t: "eventloop_iteration resume es now s = Some t" "ring_inv t M"
    "M ActiveList = []" "M TimeoutList = []"
    "proc_log t = proc_log s @ ?xs @ rest" "length rest \<le> pot (stCoEpoll.more s)"
    using eventloop_iteration_spec [OF assms] by blast
  have "distinct (map fst ?xs)"
    using distinct_filter [OF collected_distinct [OF assms(1-4,6)]] by (simp add: log_of_def o_def del: filter_append)
  moreover have "(m, bTimeout ?s m, ullExpireTime s m) \<in> set ?xs"
    if "m \<in> set (L (Slot i))" "ullExpireTime s m \<le> now" "pfnProcess s m" for m i
    using eventloop_serves_aux [OF assms(1-4) refl refl that(1,2)] log_of_mem [of m "?R @ ?T" ?s now] that
    by simp
  moreover have "pPoll s i \<in> set ?R" if "(i, e) \<in> set es" "\<not> iAllEventDetach s (pPoll s i)" for i e
    using that by (rule raised_all)
  then have "(pPoll s i, False, ullExpireTime s (pPoll s i)) \<in> set ?xs"
    if "(i, e) \<in> set es" "\<not> iAllEventDetach s (pPoll s i)" "pfnProcess s (pPoll s i)"
      "\<not> bTimeout s (pPoll s i)" for i e
    using that assms(3) raised_not_timed_out [of L "pPoll s i" s es now] log_of_mem [of "pPoll s i" "?R @ ?T" ?s now] by simp
  moreover have "pfnProcess s m \<and> e = ullExpireTime s m \<and>
      ((\<exists>i ev. (i, ev) \<in> set es \<and> pPoll s i = m \<and> \<not> iAllEventDetach s m) \<or> (\<exists>i. m \<in> set (L (Slot i))) \<and> e \<le> now)"
    if "(m, b, e) \<in> set ?xs" for m b e
  proof -
    have m: "m \<in> set ?R \<or> m \<in> set ?T" "pfnProcess s m" "e = ullExpireTime s m" "m \<in> set ?T \<Longrightarrow> e \<le> now"
      using that by (auto simp: log_of_def rearms_def not_less)
    then show ?thesis using raised_from [of m "pPoll s" _ es] timed_out_from [of L m now es s] assms(3) by metis
  qed
  ultimately show ?thesis using t
    by (intro exI [of _ t] exI [of _ M] exI [of _ ?xs] exI [of _ rest]) blast
qed

text \<open>The event loop never runs a timeout callback early: whatever the resumed coroutines do, as long
  as they keep the start of the ring, every callback that the processing of the active list runs
  with its item marked as timed out has an expiry that is not after \<open>now\<close>.\<close>

theorem eventloop_never_early:
  assumes "keeps_clock resume" "now \<noteq> 0" "ullStart s = now" "proc_log s = []"
    and "process_active resume now s = Some t" "(n, True, e) \<in> set (proc_log t)"
  shows "e \<le> now"
proof -
  have "only_due now (proc_log t)"
    by (rule process_active_due [OF assms(5,1,2,3)]) (simp add: assms(4) only_due_def)
  with assms(6) show ?thesis by (auto simp: only_due_def)
qed

text \<open>Translating the events of a poll to an epoll mask and back keeps exactly the six events the
  translation knows (\<open>POLLIN\<close>, \<open>POLLOUT\<close>, \<open>POLLHUP\<close>, \<open>POLLERR\<close>, \<open>POLLRDNORM\<close>, \<open>POLLWRNORM\<close>)
  and drops every other bit.\<close>

theorem poll_epoll_roundtrip: "EpollEvent2Poll (PollEvent2Epoll e) = e AND poll_mask"
  unfolding poll_mask_split
  by (cases "bit e 0"; cases "bit e 2"; cases "bit e 3"; cases "bit e 4"; cases "bit e 6"; cases "bit e 8")
    (simp_all add: PollEvent2Epoll_def EpollEvent2Poll_def mask_tests)

section \<open>Concrete runs\<close>

text \<open>
  A ring of 100 slots that starts at time 1000. Node 2 waits until 1005, node 0 is a poll that
  waits until 1050 and node 1 is its poll item, whose descriptor becomes ready.
\<close>

definition demo_loop :: "(nat, nat) stCoEpoll" where
  "demo_loop = \<lparr>lnk = AddTail (Slot 50) 0 (AddTail (Slot 5) 2 empty_links), iItemSize = 100,
     ullStart = 1000, llStartIdx = 0, ullExpireTime = (\<lambda>n. if n = 2 then 1005 else 1050),
     pfnPrepare = (\<lambda>n. n = 1), pfnProcess = (\<lambda>n. n \<noteq> 1), pArg = id, bTimeout = (\<lambda>_. False),
     pPoll = (\<lambda>_. 0), revents = (\<lambda>_. 0), iRaiseCnt = (\<lambda>_. 0), iAllEventDetach = (\<lambda>_. False),
     proc_log = []\<rparr>"

definition demo_lists :: "link_id \<Rightarrow> nat list" where
  "demo_lists = (\<lambda>_. [])(Slot 5 := [2], Slot 50 := [0])"

lemma demo_loop_inv: "ring_inv demo_loop demo_lists"
proof -
  have "represents (AddTail (Slot 5) 2 empty_links) ((\<lambda>_. [])(Slot 5 := [2 :: nat]))"
    using links.addtail_fresh [OF represents_empty, of "2 :: nat" "Slot 5"] by simp
  from links.addtail_fresh [OF this, of 0 "Slot 50"]
  have "represents (lnk demo_loop) demo_lists" by (simp add: demo_loop_def demo_lists_def)
  moreover have "uint (ullStart demo_loop) + d \<le> uint (ullExpireTime demo_loop n)"
    if "0 \<le> d \<and> d < iItemSize demo_loop \<and> n \<in> set (demo_lists (slot_at demo_loop d))" for d n
    using that by (auto simp: demo_loop_def demo_lists_def slot_at_def nat_eq_iff split: if_splits)
  ultimately show ?thesis by (simp add: ring_inv_def demo_loop_def demo_lists_def)
qed

lemma trivial_yields: "yields (\<lambda>_. 0) now (\<lambda>_. Some)"
  by (auto simp: yields_def same_fields_def)

theorem eventloop_iteration_serves_witness:
  "\<exists>t M b. eventloop_iteration (\<lambda>_. Some) [(1, 1)] 1010 demo_loop = Some t \<and> ring_inv t M \<and>
     length (proc_log t) = 2 \<and> set (proc_log t) = {(0, False, 1050), (2, b, 1005)}"
proof -
  have clk: "clock_ok 1010 demo_loop" by (simp add: clock_ok_def started_def demo_loop_def)
  have lists: "demo_lists ActiveList = []" "demo_lists TimeoutList = []" by (simp_all add: demo_lists_def)
  have ev: "\<forall>(i, e) \<in> set [(1 :: nat, 1 :: u32)]. pfnPrepare demo_loop i"
    and ex: "\<forall>n. uint (ullExpireTime demo_loop n) < 2 ^ 62" and nz: "(1010 :: u64) \<noteq> 0"
    by (simp_all add: demo_loop_def)
  obtain t M xs rest where
    t: "eventloop_iteration (\<lambda>_. Some) [(1, 1)] 1010 demo_loop = Some t" "ring_inv t M"
      "proc_log t = proc_log demo_loop @ xs @ rest" "distinct (map fst xs)"
      "\<forall>m i. m \<in> set (demo_lists (Slot i)) \<and> ullExpireTime demo_loop m \<le> 1010 \<and> pfnProcess demo_loop m \<longrightarrow>
       (\<exists>b. (m, b, ullExpireTime demo_loop m) \<in> set xs)"
      "\<forall>i e. (i, e) \<in> set [(1 :: nat, 1 :: u32)] \<and> \<not> iAllEventDetach demo_loop (pPoll demo_loop i) \<and>
         pfnProcess demo_loop (pPoll demo_loop i) \<and> \<not> bTimeout demo_loop (pPoll demo_loop i) \<longrightarrow>
       (pPoll demo_loop i, False, ullExpireTime demo_loop (pPoll demo_loop i)) \<in> set xs"
      "\<forall>(m, b, e) \<in> set xs. pfnProcess demo_loop m \<and> e = ullExpireTime demo_loop m \<and>
         ((\<exists>i ev. (i, ev) \<in> set [(1 :: nat, 1 :: u32)] \<and> pPoll demo_loop i = m \<and> \<not> iAllEventDetach demo_loop m) \<or>
          (\<exists>i. m \<in> set (demo_lists (Slot i))) \<and> e \<le> 1010)"
      "length rest \<le> 0"
    using eventloop_iteration_serves [OF demo_loop_inv lists clk nz ev ex trivial_yields]
    by (elim exE conjE) (rule that)
  have log: "proc_log t = xs" using t(3,8) by (simp add: demo_loop_def)
  have "2 \<in> set (demo_lists (Slot 5))" by (simp add: demo_lists_def)
  then obtain b where b: "(2, b, 1005) \<in> set xs"
    using t(5) [rule_format, of 2 5] by (auto simp: demo_loop_def)
  have p: "(0, False, 1050) \<in> set xs" using t(6) by (simp add: demo_loop_def)
  have mem: "m \<in> {0, 2}" if "m \<in> set (demo_lists k)" for m k
    using that by (simp add: demo_lists_def split: if_splits)
  have "pPoll demo_loop i = 0" for i by (simp add: demo_loop_def)
  moreover have "(\<exists>i. pPoll demo_loop i = fst x) \<or> (\<exists>i. fst x \<in> set (demo_lists (Slot i)))" if "x \<in> set xs" for x
  proof -
    obtain m c e where x: "x = (m, c, e)" by (cases x)
    from bspec [OF t(7) that] show ?thesis unfolding x prod.case fst_conv by blast
  qed
  ultimately have "fst x \<in> {0, 2}" if "x \<in> set xs" for x using that mem by (metis insertI1)
  then have sub: "fst ` set xs \<subseteq> {0, 2}" by (rule image_subsetI)
  have inj: "inj_on fst (set xs)" using t(4) by (simp add: distinct_map)
  have set: "set xs = {(0, False, 1050), (2, b, 1005)}"
  proof
    show "set xs \<subseteq> {(0, False, 1050), (2, b, 1005)}"
    proof
      fix x assume x: "x \<in> set xs"
      then have "fst x = fst (0 :: nat, False, 1050 :: u64) \<or> fst x = fst (2 :: nat, b, 1005 :: u64)" using sub by auto
      then show "x \<in> {(0, False, 1050), (2, b, 1005)}" using inj x b p by (metis inj_onD insertI1 insertI2)
    qed
  qed (use b p in simp)
  have "distinct xs" using t(4) by (simp add: distinct_map)
  then have "length xs = 2" using set by (simp flip: distinct_card)
  then show ?thesis using t(1,2) log set by blast
qed

definition demo_active :: "(nat, nat) stCoEpoll" where
  "demo_active = demo_loop\<lparr>lnk := AddTail ActiveList 2 empty_links, ullStart := 1010,
     bTimeout := \<lambda>_. True\<rparr>"

theorem eventloop_never_early_witness:
  "\<exists>t. process_active (\<lambda>_. Some) 1010 demo_active = Some t \<and> (2, True, 1005) \<in> set (proc_log t) \<and>
     (1005 :: u64) \<le> 1010"
proof -
  let ?t = "demo_active\<lparr>lnk := PopHead ActiveList (lnk demo_active),
    proc_log := [(2, True, 1005)]\<rparr>"
  have "process_active (\<lambda>_. Some) 1010 ?t = Some ?t"
    by (subst process_active.simps)
      (simp add: demo_active_def demo_loop_def PopHead_def AddTail_def empty_links_def Let_def)
  then have run: "process_active (\<lambda>_. Some) 1010 demo_active = Some ?t"
    by (subst process_active.simps)
      (simp add: demo_active_def demo_loop_def process_item_def AddTail_def empty_links_def Let_def)
  have K: "keeps_clock (\<lambda>_ :: nat. Some :: (nat, nat) stCoEpoll \<Rightarrow> _)" by (simp add: keeps_clock_def)
  have "(1005 :: u64) \<le> 1010"
    by (rule eventloop_never_early [OF K _ _ _ run, of 2])
      (simp_all add: demo_active_def demo_loop_def)
  with run show ?thesis by simp
qed

end
