(* ===== verification/Framing.thy ===== *)
theory Framing
  imports Wire Event_Loop
begin

text \<open>
  The receiving side of a client connection: \<open>stEnv_t\<close> of \<open>src/env/co_env.h\<close>, and \<open>co_recvData\<close> and
  \<open>run\<close> of \<open>src/myserver.cpp\<close>. Each read is appended to the message buffer, and every complete message
  at the front of the buffer is handed to \<open>co_work\<close> and removed. The lemmas show that the messages
  handled depend on the bytes received only and not on how the reads cut them, under the bounds
  the buffer needs, and what happens outside these bounds.
\<close>

section \<open>State\<close>

abbreviation "BUFFER_LENGTH \<equiv> (1048576 :: nat)"

text \<open>The message buffer has \<open>8 * BUFFER_LENGTH\<close> bytes. The read buffer holds the bytes of one read
  only and is the argument of the operations.\<close>

record stEnv =
  env_fd :: int
  msgBuffer :: "byte list"
  msgLength :: int

definition stEnv_ctor :: "int \<Rightarrow> stEnv" where
  "stEnv_ctor f = \<lparr>env_fd = f, msgBuffer = replicate (8 * BUFFER_LENGTH) 0, msgLength = 0\<rparr>"

text \<open>\<open>co_work\<close> is a parameter here: it gets the buffer, at whose start the message lies.\<close>

type_synonym 's work = "byte list \<Rightarrow> 's \<Rightarrow> 's option"

section \<open>Operations\<close>

text \<open>
  The two \<open>memcpy\<close> calls: an access outside the buffer has no result. The ranges of the second one
  overlap when the rest is longer than the message; the model copies in ascending order.
\<close>

definition memcpy_end :: "int \<Rightarrow> byte list \<Rightarrow> byte list \<Rightarrow> byte list option" where
  "memcpy_end off bs buf =
     (if 0 \<le> off \<and> nat off + length bs \<le> length buf then Some (poke (nat off) bs buf) else None)"

definition memcpy_down :: "int \<Rightarrow> int \<Rightarrow> byte list \<Rightarrow> byte list option" where
  "memcpy_down off sz buf =
     (if 0 \<le> off \<and> 0 \<le> sz \<and> nat off + nat sz \<le> length buf
      then Some (poke 0 (peek (nat off) (nat sz) buf) buf) else None)"

text \<open>The loop of \<open>co_recvData\<close>. The comparison of \<open>msgLength\<close> with a \<open>size_t\<close> is unsigned.\<close>

partial_function (option) handle_frames :: "'s work \<Rightarrow> stEnv \<Rightarrow> 's \<Rightarrow> (stEnv \<times> 's) option" where
  "handle_frames work env s =
     (if msgLength env < 0 \<or> int header_size \<le> msgLength env then
        let m_dataLength = get_int m_dataLength_off (msgBuffer env) in
        if m_dataLength \<le> msgLength env then
          let sz = msgLength env - m_dataLength in
          Option.bind (work (msgBuffer env) s) (\<lambda>s1.
          Option.bind (memcpy_down m_dataLength sz (msgBuffer env)) (\<lambda>buf.
            handle_frames work (env\<lparr>msgBuffer := buf, msgLength := sz\<rparr>) s1))
        else Some (env, s)
      else Some (env, s))"

text \<open>\<open>recv\<close> is what \<open>read\<close> delivers: \<open>None\<close> for a negative result, otherwise the bytes.\<close>

definition co_recvData ::
  "'s work \<Rightarrow> byte list option \<Rightarrow> stEnv \<Rightarrow> 's \<Rightarrow> (int \<times> stEnv \<times> 's) option" where
  "co_recvData work recv env s =
     (case recv of
        None \<Rightarrow> Some (- 1, env, s)
      | Some rbuffer \<Rightarrow>
          if rbuffer = [] then Some (- 1, env, s)
          else
            Option.bind (memcpy_end (msgLength env) rbuffer (msgBuffer env)) (\<lambda>buf.
            map_option (\<lambda>(env1, s1). (0, env1, s1))
              (handle_frames work
                 (env\<lparr>msgBuffer := buf, msgLength := msgLength env + int (length rbuffer)\<rparr>) s)))"

text \<open>\<open>run\<close> on the events of its polls: each is the \<open>revents\<close> of \<open>co_poll\<close> and what a read would
  deliver then. The result is true when the connection has been closed.\<close>

fun run ::
  "'s work \<Rightarrow> (short \<times> byte list option) list \<Rightarrow> stEnv \<Rightarrow> 's \<Rightarrow> (bool \<times> stEnv \<times> 's) option" where
  "run work [] env s = Some (False, env, s)"
| "run work ((rv, recv) # es) env s =
     (if rv AND POLLIN \<noteq> 0 then
        Option.bind (co_recvData work recv env s) (\<lambda>(ret, env1, s1).
          if ret = - 1 then Some (True, env1, s1) else run work es env1 s1)
      else run work es env s)"

section \<open>Messages in a stream of bytes\<close>

text \<open>The complete messages at the front of a byte string, and the rest.\<close>

definition complete :: "byte list \<Rightarrow> bool" where
  "complete bs \<longleftrightarrow> header_size \<le> length bs \<and> 0 < get_int m_dataLength_off bs \<and>
     get_int m_dataLength_off bs \<le> int (length bs)"

abbreviation frame_length :: "byte list \<Rightarrow> nat" where
  "frame_length bs \<equiv> nat (get_int m_dataLength_off bs)"

function frames_of :: "byte list \<Rightarrow> byte list list \<times> byte list" where
  "frames_of bs =
     (if complete bs
      then (take (frame_length bs) bs # fst (frames_of (drop (frame_length bs) bs)),
            snd (frames_of (drop (frame_length bs) bs)))
      else ([], bs))"
  by pat_completeness auto
termination by (relation "measure length") (auto simp: complete_def)

declare frames_of.simps [simp del]

text \<open>Every header of the stream announces a length between 1 and \<open>L\<close>.\<close>

function stream_ok :: "nat \<Rightarrow> byte list \<Rightarrow> bool" where
  "stream_ok L bs \<longleftrightarrow>
     (header_size \<le> length bs \<longrightarrow>
        0 < get_int m_dataLength_off bs \<and> get_int m_dataLength_off bs \<le> int L \<and>
        (complete bs \<longrightarrow> stream_ok L (drop (frame_length bs) bs)))"
  by pat_completeness auto
termination by (relation "measure (length \<circ> snd)") (auto simp: complete_def)

declare stream_ok.simps [simp del]

section \<open>Lemmas on streams\<close>

lemma peek_append [simp]: "off + n \<le> length a \<Longrightarrow> peek off n (a @ b) = peek off n a"
  by (simp add: peek_def)

lemma get_int_append [simp]: "off + 4 \<le> length a \<Longrightarrow> get_int off (a @ b) = get_int off a"
  by (simp add: get_int_def)

lemma complete_append: "complete a \<Longrightarrow> complete (a @ b)"
  by (auto simp: complete_def)

lemma frames_of_append:
  "frames_of (a @ b) =
     (fst (frames_of a) @ fst (frames_of (snd (frames_of a) @ b)), snd (frames_of (snd (frames_of a) @ b)))"
proof (induction a rule: frames_of.induct)
  case (1 a)
  show ?case
  proof (cases "complete a")
    case False
    then have "frames_of a = ([], a)" by (simp add: frames_of.simps [of a])
    then show ?thesis by simp
  next
    case True
    let ?n = "frame_length a"
    have n: "?n \<le> length a" "get_int m_dataLength_off (a @ b) = get_int m_dataLength_off a"
      using True by (auto simp: complete_def)
    have "frames_of (a @ b) = (take ?n a # fst (frames_of (drop ?n a @ b)), snd (frames_of (drop ?n a @ b)))"
      using frames_of.simps [of "a @ b"] complete_append [OF True] n by simp
    then show ?thesis using 1 [OF True] frames_of.simps [of a] True by simp
  qed
qed

lemma frames_of_rest: "\<not> complete (snd (frames_of bs))"
  by (induction bs rule: frames_of.induct) (subst frames_of.simps, auto)

lemma stream_ok_prefix: "stream_ok L (a @ b) \<Longrightarrow> stream_ok L a"
proof (induction L a rule: stream_ok.induct)
  case (1 L a)
  show ?case
  proof (cases "header_size \<le> length a")
    case True
    then have h: "0 < get_int m_dataLength_off a" "get_int m_dataLength_off a \<le> int L"
      using 1(2) stream_ok.simps [of L "a @ b"] by simp_all
    have "stream_ok L (drop (frame_length a) a)" if c: "complete a"
    proof (rule 1(1) [OF True c])
      have "frame_length a \<le> length a" using c by (auto simp: complete_def)
      then show "stream_ok L (drop (frame_length a) a @ b)"
        using 1(2) stream_ok.simps [of L "a @ b"] complete_append [OF c] True by simp
    qed
    then show ?thesis using h stream_ok.simps [of L a] by simp
  qed (simp add: stream_ok.simps [of L a])
qed

lemma stream_ok_rest: "stream_ok L (a @ b) \<Longrightarrow> stream_ok L (snd (frames_of a) @ b)"
proof (induction a rule: frames_of.induct)
  case (1 a)
  show ?case
  proof (cases "complete a")
    case False
    then have "frames_of a = ([], a)" by (simp add: frames_of.simps [of a])
    then show ?thesis using 1(3) by simp
  next
    case True
    have n: "frame_length a \<le> length a" "header_size \<le> length a" using True by (auto simp: complete_def)
    then have "stream_ok L (drop (frame_length a) a @ b)"
      using 1(3) stream_ok.simps [of L "a @ b"] complete_append [OF True] by simp
    from 1(1) [OF True this] show ?thesis using True by (simp add: frames_of.simps [of a])
  qed
qed

lemma incomplete_short:
  "stream_ok L bs \<Longrightarrow> \<not> complete bs \<Longrightarrow> length bs < max header_size L"
  using stream_ok.simps [of L bs] by (auto simp: complete_def)

section \<open>One call\<close>

definition env_ok :: "stEnv \<Rightarrow> bool" where
  "env_ok env \<longleftrightarrow> length (msgBuffer env) = 8 * BUFFER_LENGTH \<and> 0 \<le> msgLength env \<and>
     msgLength env \<le> int (8 * BUFFER_LENGTH)"

text \<open>The bytes that wait for the rest of their message.\<close>

definition unread :: "stEnv \<Rightarrow> byte list" where
  "unread env = take (nat (msgLength env)) (msgBuffer env)"

text \<open>What \<open>co_work\<close> sees: buffers that start with the messages.\<close>

abbreviation frame_at :: "byte list \<Rightarrow> byte list" where
  "frame_at buf \<equiv> take (frame_length buf) buf"

definition total :: "('b \<Rightarrow> 's \<Rightarrow> 's option) \<Rightarrow> bool" where
  "total work \<longleftrightarrow> (\<forall>b s. work b s \<noteq> None)"

lemma unread_length: "env_ok env \<Longrightarrow> length (unread env) = nat (msgLength env)"
  by (auto simp: env_ok_def unread_def)

lemma unread_header:
  assumes "env_ok env" "8 \<le> length (unread env)"
  shows "get_int m_dataLength_off (unread env) = get_int m_dataLength_off (msgBuffer env)"
proof -
  have "peek 4 4 (unread env) = peek 4 4 (msgBuffer env)"
    using assms by (simp add: unread_length) (simp add: unread_def peek_def drop_take)
  then show ?thesis by (simp add: get_int_def)
qed

lemma take_step:
  assumes "env_ok env" "complete (unread env)"
  defines "n \<equiv> frame_length (unread env)"
  shows "\<exists>buf. memcpy_down (int n) (msgLength env - int n) (msgBuffer env) = Some buf \<and>
    env_ok (env\<lparr>msgBuffer := buf, msgLength := msgLength env - int n\<rparr>) \<and>
    unread (env\<lparr>msgBuffer := buf, msgLength := msgLength env - int n\<rparr>) = drop n (unread env)"
proof -
  let ?m = "nat (msgLength env - int n)"
  have n: "int n \<le> msgLength env" 
    using assms(1,2) unread_length [OF assms(1)] by (simp add: complete_def n_def env_ok_def)
  have le: "n + ?m \<le> length (msgBuffer env)" "n + ?m = nat (msgLength env)"
    using n assms(1) by (auto simp: env_ok_def)
  let ?b = "poke 0 (peek n ?m (msgBuffer env)) (msgBuffer env)"
  have p: "length (peek n ?m (msgBuffer env)) = ?m" using le by (simp add: peek_def)
  have "take ?m ?b = peek n ?m (msgBuffer env)" using p by (simp add: poke_def)
  also have "\<dots> = drop n (unread env)" by (simp only: unread_def peek_def take_drop add.commute le(2) [symmetric])
  finally have "take ?m ?b = drop n (unread env)" .
  then show ?thesis
    using le p n assms(1) by (simp add: memcpy_down_def unread_def env_ok_def)
qed

lemma handle_frames_spec:
  assumes "total work" "env_ok env" "stream_ok L (unread env)"
  shows "\<exists>env1 s1 bufs. handle_frames work env s = Some (env1, s1) \<and> env_ok env1 \<and>
    unread env1 = snd (frames_of (unread env)) \<and> map frame_at bufs = fst (frames_of (unread env)) \<and>
    fold_opt work bufs s = Some s1 \<and> env_fd env1 = env_fd env"
  using assms(2,3)
proof (induction "length (unread env)" arbitrary: env s rule: less_induct)
  case less
  have pos: "0 \<le> msgLength env" using less(2) by (simp add: env_ok_def)
  have hd: "int header_size \<le> msgLength env \<longleftrightarrow> header_size \<le> length (unread env)"
    using unread_length [OF less(2)] pos by linarith
  have dl: "header_size \<le> length (unread env) \<Longrightarrow>
      get_int m_dataLength_off (msgBuffer env) = get_int m_dataLength_off (unread env)"
    using unread_header [OF less(2)] by simp
  show ?case
  proof (cases "complete (unread env)")
    case False
    then have f: "frames_of (unread env) = ([], unread env)" by (simp add: frames_of.simps [of "unread env"])
    have "header_size \<le> length (unread env) \<Longrightarrow> \<not> get_int m_dataLength_off (unread env) \<le> msgLength env"
      using False less(3) unread_length [OF less(2)] pos stream_ok.simps [of L "unread env"]
      by (auto simp: complete_def)
    then have "handle_frames work env s = Some (env, s)"
      using hd dl pos by (subst handle_frames.simps) (auto simp: Let_def)
    then show ?thesis using f less(2) by (intro exI [of _ env] exI [of _ s] exI [of _ "[]"]) simp
  next
    case True
    let ?n = "frame_length (unread env)"
    have n: "header_size \<le> length (unread env)" "0 < ?n" "?n \<le> length (unread env)"
      "int ?n = get_int m_dataLength_off (msgBuffer env)" "int ?n \<le> msgLength env"
      using True dl unread_length [OF less(2)] pos by (auto simp: complete_def)
    obtain buf where buf: "memcpy_down (int ?n) (msgLength env - int ?n) (msgBuffer env) = Some buf"
      "env_ok (env\<lparr>msgBuffer := buf, msgLength := msgLength env - int ?n\<rparr>)"
      "unread (env\<lparr>msgBuffer := buf, msgLength := msgLength env - int ?n\<rparr>) = drop ?n (unread env)"
      using take_step [OF less(2) True] by blast
    let ?env = "env\<lparr>msgBuffer := buf, msgLength := msgLength env - int ?n\<rparr>"
    obtain s1 where s1: "work (msgBuffer env) s = Some s1" using assms(1) by (force simp: total_def)
    have run: "handle_frames work env s = handle_frames work ?env s1"
      using n s1 buf(1) hd by (subst handle_frames.simps) (simp add: Let_def flip: n(4))
    have "length (unread ?env) < length (unread env)" "stream_ok L (unread ?env)"
      using n(1,2,3) buf(3) less(3) stream_ok.simps [of L "unread env"] True by simp_all
    from less(1) [OF this(1) buf(2) this(2), of s1] obtain env2 s2 bufs where
      r: "handle_frames work ?env s1 = Some (env2, s2)" "env_ok env2"
      "unread env2 = snd (frames_of (unread ?env))" "map frame_at bufs = fst (frames_of (unread ?env))"
      "fold_opt work bufs s1 = Some s2" "env_fd env2 = env_fd ?env" by blast
    have "frame_at (msgBuffer env) = take ?n (unread env)"
    proof -
      have "take m (unread env) = take m (msgBuffer env)" if "m \<le> nat (msgLength env)" for m
        using that by (simp add: unread_def min_def)
      then have "take ?n (unread env) = take ?n (msgBuffer env)" using n(3) unread_length [OF less(2)] by simp
      moreover have "frame_length (msgBuffer env) = ?n" using n(4) by linarith
      ultimately show ?thesis by simp
    qed
    then show ?thesis
      using run r s1 buf(3) frames_of.simps [of "unread env"] True
      by (intro exI [of _ env2] exI [of _ s2] exI [of _ "msgBuffer env # bufs"]) simp
  qed
qed

lemma append_step:
  assumes "env_ok env" "length (unread env) + length bs \<le> 8 * BUFFER_LENGTH"
  shows "\<exists>buf. memcpy_end (msgLength env) bs (msgBuffer env) = Some buf \<and>
    env_ok (env\<lparr>msgBuffer := buf, msgLength := msgLength env + int (length bs)\<rparr>) \<and>
    unread (env\<lparr>msgBuffer := buf, msgLength := msgLength env + int (length bs)\<rparr>) = unread env @ bs"
proof -
  let ?n = "nat (msgLength env)"
  have n: "0 \<le> msgLength env" "?n + length bs \<le> length (msgBuffer env)"
    "length (msgBuffer env) = 8 * BUFFER_LENGTH"
    using assms unread_length [OF assms(1)] by (auto simp: env_ok_def)
  have "take (?n + length bs) (poke ?n bs (msgBuffer env)) = unread env @ bs"
    using n(2) by (simp add: poke_def unread_def)
  then show ?thesis
    using n by (simp add: memcpy_end_def env_ok_def unread_def nat_add_distrib)
qed

lemma co_recvData_spec:
  assumes "total work" "env_ok env" "bs \<noteq> []" "stream_ok L (unread env @ bs)"
    and "length (unread env) + length bs \<le> 8 * BUFFER_LENGTH"
  shows "\<exists>env1 s1 bufs. co_recvData work (Some bs) env s = Some (0, env1, s1) \<and> env_ok env1 \<and>
    unread env1 = snd (frames_of (unread env @ bs)) \<and>
    map frame_at bufs = fst (frames_of (unread env @ bs)) \<and> fold_opt work bufs s = Some s1 \<and>
    env_fd env1 = env_fd env"
proof -
  obtain buf where buf: "memcpy_end (msgLength env) bs (msgBuffer env) = Some buf"
    "env_ok (env\<lparr>msgBuffer := buf, msgLength := msgLength env + int (length bs)\<rparr>)" (is "env_ok ?env")
    "unread (env\<lparr>msgBuffer := buf, msgLength := msgLength env + int (length bs)\<rparr>) = unread env @ bs"
    using append_step [OF assms(2,5)] by blast
  have "stream_ok L (unread ?env)" using assms(4) buf(3) by simp
  from handle_frames_spec [OF assms(1) buf(2) this, of s] show ?thesis
    using buf(1,3) assms(3) by (auto simp: co_recvData_def)
qed

section \<open>Many reads\<close>

abbreviation reads :: "byte list list \<Rightarrow> (short \<times> byte list option) list" where
  "reads cs \<equiv> map (\<lambda>c. (POLLIN, Some c)) cs"

lemma run_reads:
  assumes "total work" "env_ok env" "stream_ok (7 * BUFFER_LENGTH) (unread env @ concat cs)"
    and "\<not> complete (unread env)" "\<forall>c \<in> set cs. c \<noteq> [] \<and> length c \<le> BUFFER_LENGTH"
  shows "\<exists>env1 s1 bufs. run work (reads cs) env s = Some (False, env1, s1) \<and> env_ok env1 \<and>
    unread env1 = snd (frames_of (unread env @ concat cs)) \<and>
    map frame_at bufs = fst (frames_of (unread env @ concat cs)) \<and> fold_opt work bufs s = Some s1"
  using assms(2-5)
proof (induction cs arbitrary: env s)
  case Nil
  then have "frames_of (unread env) = ([], unread env)" by (simp add: frames_of.simps [of "unread env"])
  then show ?case
    using Nil by (intro exI [of _ env] exI [of _ s] exI [of _ "[]"]) simp
next
  case (Cons c cs)
  let ?u = "unread env @ c"
  have ok: "stream_ok (7 * BUFFER_LENGTH) (unread env)" "stream_ok (7 * BUFFER_LENGTH) ?u"
    using Cons.prems(2) stream_ok_prefix [of _ "unread env"] stream_ok_prefix [of _ ?u] by simp_all
  have "length (unread env) < 7 * BUFFER_LENGTH"
    using incomplete_short [OF ok(1) Cons.prems(3)] by (simp add: max_def)
  then have "length (unread env) + length c \<le> 8 * BUFFER_LENGTH" "c \<noteq> []" using Cons.prems(4) by simp_all
  from co_recvData_spec [OF assms(1) Cons.prems(1) this(2) ok(2) this(1), of s] obtain env1 s1 bufs1 where
    e1: "co_recvData work (Some c) env s = Some (0, env1, s1)" "env_ok env1"
    "unread env1 = snd (frames_of ?u)" "map frame_at bufs1 = fst (frames_of ?u)"
    "fold_opt work bufs1 s = Some s1" by blast
  have "stream_ok (7 * BUFFER_LENGTH) (unread env1 @ concat cs)" "\<not> complete (unread env1)"
    using stream_ok_rest [of _ ?u "concat cs"] Cons.prems(2) frames_of_rest e1(3) by simp_all
  moreover have "\<forall>c \<in> set cs. c \<noteq> [] \<and> length c \<le> BUFFER_LENGTH" using Cons.prems(4) by simp
  ultimately obtain env2 s2 bufs2 where
    e2: "run work (reads cs) env1 s1 = Some (False, env2, s2)" "env_ok env2"
    "unread env2 = snd (frames_of (unread env1 @ concat cs))"
    "map frame_at bufs2 = fst (frames_of (unread env1 @ concat cs))" "fold_opt work bufs2 s1 = Some s2"
    using Cons.IH [OF e1(2), of s1] by blast
  have "run work (reads (c # cs)) env s = Some (False, env2, s2)" using e1(1) e2(1) by simp
  then show ?case
    using e1 e2 frames_of_append [of ?u "concat cs"]
    by (intro exI [of _ env2] exI [of _ s2] exI [of _ "bufs1 @ bufs2"] conjI) (simp_all add: fold_opt_append)
qed

text \<open>A message: its header announces its length.\<close>

definition message :: "nat \<Rightarrow> byte list \<Rightarrow> bool" where
  "message L m \<longleftrightarrow> header_size \<le> length m \<and> get_int m_dataLength_off m = int (length m) \<and> length m \<le> L"

lemma message_complete: "message L m \<Longrightarrow> complete (m @ b) \<and> frame_length (m @ b) = length m"
  by (auto simp: message_def complete_def)

lemma partial_message:
  assumes "message L (p @ q)" "q \<noteq> []"
  shows "\<not> complete p" "stream_ok L p"
proof -
  have h: "get_int m_dataLength_off p = int (length (p @ q))" if "header_size \<le> length p"
    using assms(1) get_int_append [of m_dataLength_off p q] that by (simp add: message_def)
  then show c: "\<not> complete p" using assms(2) by (auto simp: complete_def)
  show "stream_ok L p" using h c assms(1) stream_ok.simps [of L p] by (auto simp: message_def)
qed

lemma frames_of_messages:
  assumes "\<forall>m \<in> set ms. message L m" "\<not> complete p" "stream_ok L p"
  shows "frames_of (concat ms @ p) = (ms, p) \<and> stream_ok L (concat ms @ p)"
  using assms(1)
proof (induction ms)
  case Nil
  then show ?case using assms(2,3) by (simp add: frames_of.simps [of p])
next
  case (Cons m ms)
  then have m: "message L m" and IH: "frames_of (concat ms @ p) = (ms, p)" "stream_ok L (concat ms @ p)"
    by simp_all
  note c = message_complete [OF m, of "concat ms @ p"]
  have "frames_of (concat (m # ms) @ p) = (m # ms, p)"
    using c IH(1) frames_of.simps [of "m @ concat ms @ p"] by simp
  moreover have "stream_ok L (concat (m # ms) @ p)"
    using c IH(2) m stream_ok.simps [of L "m @ concat ms @ p"] by (auto simp: message_def)
  ultimately show ?case by simp
qed

lemma stream_grows:
  assumes "env_ok env" "length (unread env @ bs) \<le> 8 * BUFFER_LENGTH" "bs \<noteq> []"
    and "\<not> complete (unread env @ bs)"
    and "header_size \<le> length (unread env @ bs) \<Longrightarrow> 0 < get_int m_dataLength_off (unread env @ bs)"
  shows "\<exists>env1. co_recvData work (Some bs) env s = Some (0, env1, s) \<and> env_ok env1 \<and>
    unread env1 = unread env @ bs"
proof -
  obtain buf where buf: "memcpy_end (msgLength env) bs (msgBuffer env) = Some buf"
    "env_ok (env\<lparr>msgBuffer := buf, msgLength := msgLength env + int (length bs)\<rparr>)" 
    "unread (env\<lparr>msgBuffer := buf, msgLength := msgLength env + int (length bs)\<rparr>) = unread env @ bs"
    using append_step [OF assms(1)] assms(2) by auto
  let ?env = "env\<lparr>msgBuffer := buf, msgLength := msgLength env + int (length bs)\<rparr>"
  have pos: "0 \<le> msgLength ?env" "nat (msgLength ?env) = length (unread ?env)"
    using buf(2) unread_length by (simp_all add: env_ok_def)
  have "header_size \<le> length (unread ?env) \<Longrightarrow> \<not> get_int m_dataLength_off (msgBuffer ?env) \<le> msgLength ?env"
    using assms(4,5) pos unread_header [OF buf(2)] buf(3) by (auto simp: complete_def)
  then have "handle_frames work ?env s = Some (?env, s)"
    using pos by (subst handle_frames.simps) (auto simp: Let_def)
  then show ?thesis using buf assms(3) by (auto simp: co_recvData_def)
qed

section \<open>Properties\<close>

lemma framing_total:
  assumes "total work" "env_ok env" "unread env = []"
    and "\<forall>m \<in> set ms. message (7 * BUFFER_LENGTH) m" "message (7 * BUFFER_LENGTH) (p @ q)" "q \<noteq> []"
    and "concat cs = concat ms @ p" "\<forall>c \<in> set cs. c \<noteq> [] \<and> length c \<le> BUFFER_LENGTH"
  shows "\<exists>env1 s1 bufs. run work (reads cs) env s = Some (False, env1, s1) \<and> env_ok env1 \<and>
    map frame_at bufs = ms \<and> fold_opt work bufs s = Some s1 \<and> unread env1 = p"
proof -
  note f = frames_of_messages [OF assms(4) partial_message [OF assms(5,6)]]
  have "\<not> complete (unread env)" using assms(3) by (simp add: complete_def)
  moreover have "stream_ok (7 * BUFFER_LENGTH) (unread env @ concat cs)" using f assms(3,7) by simp
  ultimately show ?thesis
    using run_reads [OF assms(1,2) _ _ assms(8), of s] f assms(3,7) by simp blast
qed

section \<open>A handler that may crash\<close>

text \<open>The handler as a total function on states of which some are crashed.\<close>

definition lifted :: "'s work \<Rightarrow> 's option work" where
  "lifted work b so = Some (Option.bind so (work b))"

lemma total_lifted: "total (lifted work)"
  by (simp add: total_def lifted_def)

definition agrees :: "'s work \<Rightarrow> stEnv \<Rightarrow> 's option \<Rightarrow> stEnv \<times> 's option \<Rightarrow> bool" where
  "agrees work env so r \<longleftrightarrow>
     (case so of
        None \<Rightarrow> snd r = None
      | Some s \<Rightarrow> \<forall>s1. snd r = Some s1 \<longrightarrow> handle_frames work env s = Some (fst r, s1))"

lemma handle_frames_agrees:
  "handle_frames work' env so = Some r \<Longrightarrow> work' = lifted work \<Longrightarrow> agrees work env so r"
proof (induction rule: handle_frames.raw_induct [rotated, consumes 1, case_names 1])
  case (1 hf work' env so r)
  let ?g = "msgLength env < 0 \<or> int header_size \<le> msgLength env"
  let ?d = "get_int m_dataLength_off (msgBuffer env)"
  show ?case
  proof (cases "?g \<and> ?d \<le> msgLength env")
    case False
    then have "r = (env, so)" using "1.hyps" by (auto simp: Let_def split: if_split_asm)
    moreover have "handle_frames work env s = Some (env, s)" for s
      using False by (subst handle_frames.simps) (auto simp: Let_def)
    ultimately show ?thesis by (simp add: agrees_def split: option.split)
  next
    case True
    then obtain buf where buf: "memcpy_down ?d (msgLength env - ?d) (msgBuffer env) = Some buf"
      and h: "hf work' (env\<lparr>msgBuffer := buf, msgLength := msgLength env - ?d\<rparr>)
        (Option.bind so (work (msgBuffer env))) = Some r"
      using "1.hyps" "1.prems" by (auto simp: Let_def lifted_def bind_eq_Some_conv)
    note ih = "1.IH" [OF h "1.prems"]
    show ?thesis
    proof (cases so)
      case None
      then show ?thesis using ih by (simp add: agrees_def)
    next
      case (Some s)
      have "handle_frames work env s = (case work (msgBuffer env) s of None \<Rightarrow> None
          | Some s' \<Rightarrow> handle_frames work (env\<lparr>msgBuffer := buf, msgLength := msgLength env - ?d\<rparr>) s')"
        using True buf by (subst handle_frames.simps) (simp add: Let_def split: option.split)
      then show ?thesis using ih Some by (cases "work (msgBuffer env) s") (simp_all add: agrees_def)
    qed
  qed
qed

lemma co_recvData_agrees:
  "co_recvData (lifted work) rcv env (Some s) = Some (ret, env1, Some s1) \<Longrightarrow>
     co_recvData work rcv env s = Some (ret, env1, s1)"
  by (auto simp: co_recvData_def agrees_def bind_eq_Some_conv split: option.splits if_splits
      dest!: handle_frames_agrees [OF _ refl])

lemma co_recvData_crashed:
  "co_recvData (lifted work) rcv env None = Some (ret, env1, so) \<Longrightarrow> so = None"
  by (auto simp: co_recvData_def agrees_def bind_eq_Some_conv split: option.splits if_splits
      dest!: handle_frames_agrees [OF _ refl])

lemma run_crashed: "run (lifted work) es env None = Some (closed, env1, so) \<Longrightarrow> so = None"
proof (induction es arbitrary: env)
  case (Cons e es)
  then show ?case
    by (cases e) (auto simp: bind_eq_Some_conv split: if_splits dest!: co_recvData_crashed)
qed simp

lemma run_agrees:
  "run (lifted work) es env (Some s) = Some (closed, env1, Some s1) \<Longrightarrow>
     run work es env s = Some (closed, env1, s1)"
proof (induction es arbitrary: env s)
  case (Cons e es)
  obtain rv rcv where e: "e = (rv, rcv)" by fastforce
  show ?case
  proof (cases "rv AND POLLIN \<noteq> 0")
    case False
    then show ?thesis using Cons e by simp
  next
    case True
    then obtain ret env2 so where c: "co_recvData (lifted work) rcv env (Some s) = Some (ret, env2, so)"
      and r: "(if ret = - 1 then Some (True, env2, so) else run (lifted work) es env2 so) = Some (closed, env1, Some s1)"
      using Cons.prems e by (auto simp: bind_eq_Some_conv)
    obtain s2 where s2: "so = Some s2" using r by (cases so) (auto split: if_splits dest: run_crashed)
    then have "co_recvData work rcv env s = Some (ret, env2, s2)" using c co_recvData_agrees [of work rcv env s ret env2 s2] by simp
    then show ?thesis using True e r s2 Cons.IH by (auto split: if_splits)
  qed
qed simp

lemma fold_lifted: "fold_opt (lifted work) bufs so = Some (Option.bind so (fold_opt work bufs))"
proof (induction bufs arbitrary: so)
  case (Cons b bufs)
  show ?case by (cases so) (simp_all add: lifted_def Cons.IH [unfolded lifted_def] split: option.split)
next
  case Nil
  show ?case by (cases so) simp_all
qed

lemma framing_partial:
  assumes "env_ok env" "unread env = []"
    and "\<forall>m \<in> set ms. message (7 * BUFFER_LENGTH) m" "message (7 * BUFFER_LENGTH) (p @ q)" "q \<noteq> []"
    and "concat cs = concat ms @ p" "\<forall>c \<in> set cs. c \<noteq> [] \<and> length c \<le> BUFFER_LENGTH"
  shows "\<exists>env1 bufs. env_ok env1 \<and> unread env1 = p \<and> map frame_at bufs = ms \<and>
    (\<forall>s1. fold_opt work bufs s = Some s1 \<longrightarrow> run work (reads cs) env s = Some (False, env1, s1))"
proof -
  obtain env1 so bufs where r: "run (lifted work) (reads cs) env (Some s) = Some (False, env1, so)" "env_ok env1"
    "map frame_at bufs = ms" "fold_opt (lifted work) bufs (Some s) = Some so" "unread env1 = p"
    using framing_total [OF total_lifted assms, of work "Some s"] by blast
  then show ?thesis using fold_lifted [of work bufs "Some s"] run_agrees [of work "reads cs" env s False env1] by auto
qed

text \<open>However the reads cut a stream of messages, the server handles exactly these messages, in order and
  once each: over any sequence of non-empty reads of at most \<open>BUFFER_LENGTH\<close> bytes whose
  concatenation is a sequence of messages (of at most 7 MB each) and the beginning of another one,
  \<open>run\<close> returns, calls \<open>co_work\<close> on buffers that start with the messages, and keeps the beginning of
  the last message for the next read.\<close>

theorem framing_exact:
  assumes "total work" "env_ok env" "unread env = []"
    and "\<forall>m \<in> set ms. message (7 * BUFFER_LENGTH) m" "message (7 * BUFFER_LENGTH) (p @ q)" "q \<noteq> []"
    and "concat cs = concat ms @ p" "\<forall>c \<in> set cs. c \<noteq> [] \<and> length c \<le> BUFFER_LENGTH"
  shows "\<exists>env1 s1 bufs. run work (reads cs) env s = Some (False, env1, s1) \<and> env_ok env1 \<and>
    map frame_at bufs = ms \<and> fold_opt work bufs s = Some s1 \<and> unread env1 = p"
  using assms by (rule framing_total)

lemma zero_header_loops:
  "handle_frames work env s = Some r \<Longrightarrow>
     \<not> (env_ok env \<and> int header_size \<le> msgLength env \<and> get_int m_dataLength_off (msgBuffer env) = 0)"
proof (induction rule: handle_frames.raw_induct [rotated, consumes 1, case_names 1])
  case (1 hf work env s r)
  show ?case
  proof
    assume e: "env_ok env \<and> int header_size \<le> msgLength env \<and> get_int m_dataLength_off (msgBuffer env) = 0"
    let ?m = "nat (msgLength env)"
    have len: "?m \<le> length (msgBuffer env)" "0 \<le> msgLength env" using e by (auto simp: env_ok_def)
    then have "poke 0 (peek 0 ?m (msgBuffer env)) (msgBuffer env) = msgBuffer env"
      by (simp add: poke_def peek_def)
    then have "memcpy_down 0 (msgLength env) (msgBuffer env) = Some (msgBuffer env)"
      using len by (simp add: memcpy_down_def)
    then obtain s1 where "hf work env s1 = Some r"
      using "1.hyps" e len(2) by (auto simp: Let_def split: Option.bind_splits)
    from "1.IH" [OF this] e show False by blast
  qed
qed

text \<open>C34
  A header that announces the length 0 stops the server for ever: as soon as it is complete at the front
  of the buffer, \<open>co_recvData\<close> never returns, whatever \<open>co_work\<close> does.\<close>

theorem zero_length_hangs:
  assumes "env_ok env" "bs \<noteq> []" "length (unread env) + length bs \<le> 8 * BUFFER_LENGTH"
    and "header_size \<le> length (unread env @ bs)" "get_int m_dataLength_off (unread env @ bs) = 0"
  shows "co_recvData work (Some bs) env s = None"
proof -
  obtain buf where buf: "memcpy_end (msgLength env) bs (msgBuffer env) = Some buf"
    "env_ok (env\<lparr>msgBuffer := buf, msgLength := msgLength env + int (length bs)\<rparr>)"
    "unread (env\<lparr>msgBuffer := buf, msgLength := msgLength env + int (length bs)\<rparr>) = unread env @ bs"
    using append_step [OF assms(1,3)] by blast
  let ?env = "env\<lparr>msgBuffer := buf, msgLength := msgLength env + int (length bs)\<rparr>"
  have "int header_size \<le> msgLength ?env" "get_int m_dataLength_off (msgBuffer ?env) = 0"
    using unread_header [OF buf(2)] unread_length [OF buf(2)] buf(2,3) assms(4,5)
    by (auto simp: env_ok_def)
  then have "handle_frames work ?env s = None"
    using zero_header_loops [of work ?env s] buf(2) by (cases "handle_frames work ?env s") auto
  then show ?thesis using buf(1) assms(2) by (simp add: co_recvData_def)
qed

text \<open>C35
  A header that announces more than the message buffer holds makes the server write behind the buffer:
  once the client has sent more than \<open>8 * BUFFER_LENGTH\<close> bytes of such a message, the execution has
  reached a \<open>memcpy\<close> out of bounds, however the reads cut the bytes.\<close>

theorem oversize_overflows:
  assumes "env_ok env" "\<forall>c \<in> set cs. c \<noteq> []"
    and "8 * BUFFER_LENGTH < length (unread env @ concat cs)"
    and "int (8 * BUFFER_LENGTH) < get_int m_dataLength_off (unread env @ concat cs)"
  shows "run work (reads cs) env s = None"
  using assms
proof (induction cs arbitrary: env)
  case Nil
  then show ?case using unread_length [of env] by (auto simp: env_ok_def)
next
  case (Cons c cs)
  let ?u = "unread env @ c"
  show ?case
  proof (cases "length ?u \<le> 8 * BUFFER_LENGTH")
    case True
    have h: "get_int m_dataLength_off ?u = get_int m_dataLength_off (unread env @ concat (c # cs))"
      if "header_size \<le> length ?u"
      using that get_int_append [of m_dataLength_off ?u "concat cs"] by simp
    have "\<not> complete ?u" using h Cons.prems(4) True by (auto simp: complete_def)
    moreover have "0 < get_int m_dataLength_off ?u" if "header_size \<le> length ?u"
      using h [OF that] Cons.prems(4) by simp
    ultimately obtain env1 where env1: "co_recvData work (Some c) env s = Some (0, env1, s)" "env_ok env1"
      "unread env1 = ?u"
      using stream_grows [OF Cons.prems(1) True, of work s] Cons.prems(2) by auto
    have "run work (reads cs) env1 s = None"
      using env1(2,3) Cons.prems by (intro Cons.IH) simp_all
    then show ?thesis using env1(1) by simp
  next
    case False
    then have "memcpy_end (msgLength env) c (msgBuffer env) = None"
      using Cons.prems(1) unread_length [of env] by (auto simp: memcpy_end_def env_ok_def)
    then show ?thesis using Cons.prems(2) by (simp add: co_recvData_def)
  qed
qed

section \<open>Concrete streams\<close>

lemma stEnv_ctor_ok [simp]: "env_ok (stEnv_ctor f)" "unread (stEnv_ctor f) = []"
  by (simp_all add: env_ok_def unread_def stEnv_ctor_def)

abbreviation "noop_message \<equiv> [0, 0, 0, 0, 8, 0, 0, 0 :: byte]"

lemma noop_header: "get_int m_dataLength_off (noop_message @ b) = 8"
  by (simp add: get_int_def peek_def dec32_def)

lemma noop_message: "message (7 * BUFFER_LENGTH) noop_message"
  using noop_header [of "[]"] by (simp add: message_def)

theorem framing_exact_witness:
  "\<exists>env1 s1 bufs. run (\<lambda>b n. Some (n + 1)) (reads [[0, 0, 0, 0, 8], [0, 0, 0, 0, 0, 0]]) (stEnv_ctor 3) (0 :: nat) =
     Some (False, env1, s1) \<and> map frame_at bufs = [noop_message] \<and> unread env1 = [0, 0, 0]"
proof -
  have w: "total (\<lambda>(b :: byte list) n. Some (n + 1 :: nat))" by (simp add: total_def)
  have m: "\<forall>m \<in> set [noop_message]. message (7 * BUFFER_LENGTH) m"
    "message (7 * BUFFER_LENGTH) ([0, 0, 0] @ [0, 8, 0, 0, 0])" using noop_message by simp_all
  have c: "concat [[0, 0, 0, 0, 8], [0, 0, 0, 0, 0, 0]] = concat [noop_message] @ [0, 0, 0 :: byte]"
    "\<forall>c \<in> set [[0, 0, 0, 0, 8], [0, 0, 0, 0, 0, 0 :: byte]]. c \<noteq> [] \<and> length c \<le> BUFFER_LENGTH"
    by simp_all
  have q: "[0, 8, 0, 0, 0 :: byte] \<noteq> []" by simp
  from framing_exact [OF w stEnv_ctor_ok m q c, of 3 0] show ?thesis
    by (elim exE conjE) (intro exI conjI)
qed

theorem zero_length_hangs_witness:
  "co_recvData (\<lambda>b s. Some s) (Some [0, 0, 0, 0, 0, 0, 0, 0]) (stEnv_ctor 3) () = None"
  by (rule zero_length_hangs) (simp_all add: get_int_def peek_def dec32_def)

theorem oversize_overflows_witness:
  "run (\<lambda>b s. Some s) (reads [[0, 0, 0, 0, 0, 0, 0, 127], replicate 8388608 1]) (stEnv_ctor 3) () = None"
  by (rule oversize_overflows) (simp_all add: get_int_def peek_def dec32_def)

end
