(* ===== verification/Clients.thy ===== *)
theory Clients
  imports Framing
begin

text \<open>
  Many clients on one thread: \<open>accept_routine\<close> of \<open>src/main.cpp\<close> gives every accepted connection a
  \<open>stEnv_t\<close> of its own and starts \<open>client_loop\<close> on it, and from then on the event loop lets the coroutines
  of the clients run in the order in which their descriptors become ready: one round of \<open>run\<close>
  (\<open>src/myserver.cpp\<close>) at a time. All of them work on the same state of the server. The theorem says that
  whatever the interleaving, the server handles the messages of each client in the order in which they
  were sent.
\<close>

section \<open>State and events\<close>

text \<open>The clients by the address of their \<open>stEnv_t\<close>. The code never deletes it, so an address is used once.\<close>

record ('e, 's) host =
  clients :: "'e \<rightharpoonup> stEnv"
  shared :: 's

text \<open>A connection on a descriptor has been accepted, and the poll of a client has returned with these
  events and this to read.\<close>

datatype 'e event = Accepted 'e int | Polled 'e short "byte list option"

section \<open>Operations\<close>

definition accept_client :: "'e \<Rightarrow> int \<Rightarrow> ('e, 's) host \<Rightarrow> ('e, 's) host" where
  "accept_client newclient fildes h = h\<lparr>clients := (clients h)(newclient \<mapsto> stEnv_ctor fildes)\<rparr>"

text \<open>One round of the loop of \<open>run\<close>; after its end the coroutine is gone.\<close>

definition client_round ::
  "(int \<Rightarrow> 's work) \<Rightarrow> 'e \<Rightarrow> short \<Rightarrow> byte list option \<Rightarrow> ('e, 's) host \<Rightarrow> ('e, 's) host option" where
  "client_round work e rv recv h =
     (case clients h e of
        None \<Rightarrow> Some h
      | Some env \<Rightarrow>
          map_option (\<lambda>(closed, env1, s1).
              h\<lparr>clients := (clients h)(e := if closed then None else Some env1), shared := s1\<rparr>)
            (run (work (env_fd env)) [(rv, recv)] env (shared h)))"

fun serve_event :: "(int \<Rightarrow> 's work) \<Rightarrow> 'e event \<Rightarrow> ('e, 's) host \<Rightarrow> ('e, 's) host option" where
  "serve_event work (Accepted e fildes) h = Some (accept_client e fildes h)"
| "serve_event work (Polled e rv recv) h = client_round work e rv recv h"

section \<open>What a client sends\<close>

text \<open>The bytes that are read from a client: from its acceptance on, until a read delivers nothing.\<close>

fun received :: "'e \<Rightarrow> bool \<Rightarrow> 'e event list \<Rightarrow> byte list" where
  "received e open [] = []"
| "received e open (Accepted e' fildes # es) = received e (open \<or> e' = e) es"
| "received e open (Polled e' rv recv # es) =
     (if e' \<noteq> e \<or> \<not> open \<or> rv AND POLLIN = 0 then received e open es
      else case recv of
             None \<Rightarrow> []
           | Some bs \<Rightarrow> if bs = [] then [] else bs @ received e True es)"

fun accepted :: "'e event list \<Rightarrow> ('e \<times> int) list" where
  "accepted [] = []"
| "accepted (Accepted e fildes # es) = (e, fildes) # accepted es"
| "accepted (Polled e rv recv # es) = accepted es"

text \<open>A read delivers at most the size of the read buffer.\<close>

fun read_bound :: "'e event \<Rightarrow> bool" where
  "read_bound (Polled e rv (Some bs)) \<longleftrightarrow> length bs \<le> BUFFER_LENGTH"
| "read_bound _ \<longleftrightarrow> True"

text \<open>The log of the calls of \<open>co_work\<close>: the client, its descriptor, and the buffer at whose start the message
  lies. \<open>from_client\<close> is the part of one client.\<close>

type_synonym 'e call = "'e \<times> int \<times> byte list"

definition handle_call :: "(int \<Rightarrow> 's work) \<Rightarrow> 'e call \<Rightarrow> 's \<Rightarrow> 's option" where
  "handle_call work c = (case c of (e, fildes, buf) \<Rightarrow> work fildes buf)"

lemma handle_call_simp [simp]: "handle_call work (e, fildes, buf) = work fildes buf"
  by (simp add: handle_call_def)

definition from_client :: "'e \<Rightarrow> 'e call list \<Rightarrow> byte list list" where
  "from_client e calls = map (\<lambda>(_, _, buf). frame_at buf) (filter (\<lambda>(e', _, _). e' = e) calls)"

lemma from_client_simps [simp]:
  "from_client e [] = []" "from_client e (xs @ ys) = from_client e xs @ from_client e ys"
  "from_client e (map (\<lambda>b. (e', fildes, b)) bufs) = (if e' = e then map frame_at bufs else [])"
  by (auto simp: from_client_def o_def filter_map)

lemma fold_calls: "fold_opt (handle_call work) (map (\<lambda>b. (e, fildes, b)) bufs) s = fold_opt (work fildes) bufs s"
  by (induction bufs arbitrary: s) (simp_all add: handle_call_def split: option.split)

section \<open>One event\<close>

text \<open>The bytes of a client that are not handled yet: those in its buffer and those still to be read.\<close>

definition pending :: "('e, 's) host \<Rightarrow> 'e event list \<Rightarrow> 'e \<Rightarrow> byte list" where
  "pending h es e = (case clients h e of None \<Rightarrow> received e False es | Some env \<Rightarrow> unread env @ received e True es)"

definition clients_ok :: "('e, 's) host \<Rightarrow> bool" where
  "clients_ok h \<longleftrightarrow> (\<forall>e env. clients h e = Some env \<longrightarrow> env_ok env \<and> \<not> complete (unread env))"

text \<open>The rest of a trace: nobody who is there or has left is accepted again.\<close>

definition trace_ok :: "'e set \<Rightarrow> 'e event list \<Rightarrow> bool" where
  "trace_ok known es \<longleftrightarrow> distinct (map fst (accepted es)) \<and> fst ` set (accepted es) \<inter> known = {} \<and>
     (\<forall>ev \<in> set es. read_bound ev)"

lemma received_later: "e \<notin> fst ` set (accepted es) \<Longrightarrow> received e False es = []"
  by (induction es rule: accepted.induct) auto

lemma trace_ok_step:
  assumes "trace_ok known (ev # es)"
  shows "trace_ok (fst ` set (accepted [ev]) \<union> known) es" "read_bound ev"
    "fst ` set (accepted [ev]) \<inter> known = {}"
  using assms by (cases ev; auto simp: trace_ok_def)+

lemma accept_step:
  assumes "clients h e = None"
  shows "pending (accept_client e fildes h) es = pending h (Accepted e fildes # es)"
    "clients_ok h \<Longrightarrow> clients_ok (accept_client e fildes h)"
  using assms unread_length [of "stEnv_ctor fildes"]
  by (auto simp: accept_client_def pending_def clients_ok_def complete_def stEnv_ctor_ok split: option.split)

text \<open>A round in which nothing is read, and one that ends the client.\<close>

lemma idle_round:
  assumes "clients h e = None \<or> rv AND POLLIN = 0"
  shows "client_round work e rv recv h = Some h" "pending h (Polled e rv recv # es) = pending h es"
  using assms by (auto simp: client_round_def pending_def fun_upd_idem intro!: ext split: option.split)

lemma last_round:
  assumes "clients h e = Some env" "rv AND POLLIN \<noteq> 0" "recv = None \<or> recv = Some []"
  shows "client_round work e rv recv h = Some (h\<lparr>clients := (clients h)(e := None)\<rparr>)"
    "pending h (Polled e rv recv # es) e = unread env"
  using assms by (auto simp: client_round_def co_recvData_def pending_def)

lemma read_round:
  assumes "\<forall>fildes. total (work fildes)" and ok: "clients_ok h" and e: "clients h e = Some env"
    and "rv AND POLLIN \<noteq> 0" "bs \<noteq> []" "length bs \<le> BUFFER_LENGTH"
    and str: "stream_ok (7 * BUFFER_LENGTH) (pending h (Polled e rv (Some bs) # es) e)"
  obtains h' bufs env1 where "client_round work e rv (Some bs) h = Some h'"
    "clients h' = (clients h)(e \<mapsto> env1)" "env_fd env1 = env_fd env" "clients_ok h'"
    "fold_opt (work (env_fd env)) bufs (shared h) = Some (shared h')"
    "frames_of (pending h (Polled e rv (Some bs) # es) e) =
       (map frame_at bufs @ fst (frames_of (pending h' es e)), snd (frames_of (pending h' es e)))"
    "stream_ok (7 * BUFFER_LENGTH) (pending h' es e)"
proof -
  have env: "env_ok env" "\<not> complete (unread env)" using ok e by (auto simp: clients_ok_def)
  let ?u = "unread env @ bs"
  have p: "pending h (Polled e rv (Some bs) # es) e = ?u @ received e True es"
    using e assms(4,5) by (simp add: pending_def)
  have u: "stream_ok (7 * BUFFER_LENGTH) ?u" using str unfolding p by (rule stream_ok_prefix)
  have "length (unread env) < 7 * BUFFER_LENGTH"
    using incomplete_short [OF stream_ok_prefix [OF u] env(2)] by (simp add: max_def)
  then have "length (unread env) + length bs \<le> 8 * BUFFER_LENGTH" using assms(6) by simp
  from co_recvData_spec [OF assms(1) [rule_format] env(1) assms(5) u this] obtain env1 s1 bufs where
    r: "co_recvData (work (env_fd env)) (Some bs) env (shared h) = Some (0, env1, s1)" "env_ok env1"
    "unread env1 = snd (frames_of ?u)" "map frame_at bufs = fst (frames_of ?u)"
    "fold_opt (work (env_fd env)) bufs (shared h) = Some s1" "env_fd env1 = env_fd env" by blast
  let ?h = "h\<lparr>clients := (clients h)(e \<mapsto> env1), shared := s1\<rparr>"
  have p1: "pending ?h es e = unread env1 @ received e True es" by (simp add: pending_def)
  show ?thesis
  proof (rule that [of ?h env1 bufs])
    show "client_round work e rv (Some bs) h = Some ?h" using e r(1) assms(4) by (simp add: client_round_def)
    show "clients_ok ?h" using ok r(2,3) frames_of_rest by (simp add: clients_ok_def)
    show "frames_of (pending h (Polled e rv (Some bs) # es) e) =
       (map frame_at bufs @ fst (frames_of (pending ?h es e)), snd (frames_of (pending ?h es e)))"
      unfolding p p1 using frames_of_append [of ?u "received e True es"] r(3,4) by simp
    show "stream_ok (7 * BUFFER_LENGTH) (pending ?h es e)"
      unfolding p1 r(3) using str unfolding p by (rule stream_ok_rest)
  qed (use r in simp_all)
qed

text \<open>The descriptors of the clients that are there and of those that will come.\<close>

definition descriptors :: "('e, 's) host \<Rightarrow> 'e event list \<Rightarrow> ('e \<times> int) set" where
  "descriptors h es = {(e, fildes). \<exists>env. clients h e = Some env \<and> env_fd env = fildes} \<union> set (accepted es)"

text \<open>\<open>h'\<close> is the host after the event \<open>ev\<close>, in which these calls were made.\<close>

definition event_done ::
  "(int \<Rightarrow> 's work) \<Rightarrow> 'e event \<Rightarrow> 'e event list \<Rightarrow> ('e, 's) host \<Rightarrow> 'e call list \<Rightarrow> ('e, 's) host \<Rightarrow> bool" where
  "event_done work ev es h calls h' \<longleftrightarrow>
     serve_event work ev h = Some h' \<and> clients_ok h' \<and>
     dom (clients h') \<subseteq> dom (clients h) \<union> fst ` set (accepted [ev]) \<and>
     fold_opt (handle_call work) calls (shared h) = Some (shared h') \<and>
     descriptors h' es \<subseteq> descriptors h (ev # es) \<and>
     (\<forall>(e, fildes, buf) \<in> set calls. (e, fildes) \<in> descriptors h (ev # es)) \<and>
     (\<forall>e. stream_ok (7 * BUFFER_LENGTH) (pending h' es e) \<and>
        fst (frames_of (pending h (ev # es) e)) = from_client e calls @ fst (frames_of (pending h' es e)) \<and>
        (snd (frames_of (pending h (ev # es) e)) = snd (frames_of (pending h' es e)) \<or>
         e \<in> dom (clients h) \<and> e \<notin> dom (clients h')))"

lemma stream_ok_Nil [simp]: "stream_ok L []" "frames_of [] = ([], [])"
  by (subst stream_ok.simps frames_of.simps, simp add: complete_def)+

lemma event_step:
  assumes "\<forall>fildes. total (work fildes)" and ok: "clients_ok h" and known: "dom (clients h) \<subseteq> known"
    and tr: "trace_ok known (ev # es)"
    and str: "\<forall>e. stream_ok (7 * BUFFER_LENGTH) (pending h (ev # es) e)"
  shows "\<exists>calls h'. event_done work ev es h calls h'"
proof (cases ev)
  case (Accepted e fildes)
  have "clients h e = None" using trace_ok_step(3) [OF tr] known Accepted by (auto simp: domIff)
  note a = accept_step [OF this, of fildes]
  have "event_done work ev es h [] (accept_client e fildes h)"
    using a ok str unfolding event_done_def Accepted
    by (auto simp: accept_client_def descriptors_def stEnv_ctor_def split: if_splits)
  then show ?thesis by blast
next
  case (Polled e rv recv)
  show ?thesis
  proof (cases "clients h e = None \<or> rv AND POLLIN = 0")
    case True
    have "event_done work ev es h [] h"
      using idle_round [OF True] ok str unfolding event_done_def Polled by (simp add: descriptors_def)
    then show ?thesis by blast
  next
    case False
    then obtain env where env: "clients h e = Some env" and rv: "rv AND POLLIN \<noteq> 0" by auto
    have other: "pending h (ev # es) e' = pending h' es e'" if "e' \<noteq> e" "clients h' e' = clients h e'" for e' h'
      using that that(1) [symmetric] by (simp add: pending_def Polled split: option.split)
    show ?thesis
    proof (cases "recv = None \<or> recv = Some []")
      case True
      let ?h = "h\<lparr>clients := (clients h)(e := None)\<rparr>"
      note r = last_round [OF env rv True]
      have "e \<in> known" using known env by auto
      then have "pending ?h es e = []"
        using received_later [of e es] tr Polled by (auto simp: pending_def trace_ok_def)
      moreover have "frames_of (unread env) = ([], unread env)"
        using ok env by (simp add: clients_ok_def frames_of.simps [of "unread env"])
      ultimately have e: "stream_ok (7 * BUFFER_LENGTH) (pending ?h es e)"
        "fst (frames_of (pending h (ev # es) e)) = fst (frames_of (pending ?h es e))"
        using r(2) Polled by simp_all
      have "stream_ok (7 * BUFFER_LENGTH) (pending ?h es e') \<and>
          fst (frames_of (pending h (ev # es) e')) = fst (frames_of (pending ?h es e')) \<and>
          (snd (frames_of (pending h (ev # es) e')) = snd (frames_of (pending ?h es e')) \<or> e' = e)" for e'
      proof (cases "e' = e")
        case False
        then have "pending h (ev # es) e' = pending ?h es e'" by (intro other) simp_all
        then show ?thesis using False str [rule_format, of e'] by simp
      qed (use e in simp)
      moreover have "clients_ok ?h" "descriptors ?h es \<subseteq> descriptors h (ev # es)"
        using ok by (auto simp: clients_ok_def descriptors_def Polled split: if_splits)
      ultimately have "event_done work ev es h [] ?h"
        using r(1) env unfolding event_done_def by (auto simp: Polled)
      then show ?thesis by blast
    next
      case False
      then obtain bs where bs: "recv = Some bs" "bs \<noteq> []" by auto
      have len: "length bs \<le> BUFFER_LENGTH" using trace_ok_step(2) [OF tr] Polled bs by simp
      have ev: "Polled e rv (Some bs) = ev" using Polled bs(1) by simp
      obtain h' bufs env1 where
        r: "client_round work e rv (Some bs) h = Some h'" "clients h' = (clients h)(e \<mapsto> env1)"
          "env_fd env1 = env_fd env" "clients_ok h'"
          "fold_opt (work (env_fd env)) bufs (shared h) = Some (shared h')"
          "frames_of (pending h (ev # es) e) =
             (map frame_at bufs @ fst (frames_of (pending h' es e)), snd (frames_of (pending h' es e)))"
          "stream_ok (7 * BUFFER_LENGTH) (pending h' es e)"
        by (rule read_round [OF assms(1) ok env rv bs(2) len, of es, unfolded ev]) (rule str [rule_format])
      have "stream_ok (7 * BUFFER_LENGTH) (pending h' es e')" for e'
        using r(7) str [rule_format, of e'] other [of e' h'] r(2) by (cases "e' = e") simp_all
      moreover have "fst (frames_of (pending h (ev # es) e')) =
          from_client e' (map (\<lambda>b. (e, env_fd env, b)) bufs) @ fst (frames_of (pending h' es e')) \<and>
          snd (frames_of (pending h (ev # es) e')) = snd (frames_of (pending h' es e'))" for e'
        using r(6) other [of e' h'] r(2) by (cases "e' = e") simp_all
      moreover have "serve_event work ev h = Some h'" using r(1) Polled bs(1) by simp
      moreover have "dom (clients h') \<subseteq> dom (clients h) \<union> fst ` set (accepted [ev])"
        "descriptors h' es \<subseteq> descriptors h (ev # es)" "(e, env_fd env) \<in> descriptors h (ev # es)"
        using r(2,3) env by (auto simp: Polled descriptors_def split: if_splits)
      moreover have "fold_opt (handle_call work) (map (\<lambda>b. (e, env_fd env, b)) bufs) (shared h) = Some (shared h')"
        using r(5) by (simp only: fold_calls)
      ultimately have "event_done work ev es h (map (\<lambda>b. (e, env_fd env, b)) bufs) h'"
        using r(4) unfolding event_done_def by (intro conjI) (blast | force)+
      then show ?thesis by blast
    qed
  qed
qed

section \<open>Many events\<close>

lemma clients_total:
  assumes "\<forall>fildes. total (work fildes)"
  shows "clients_ok h \<Longrightarrow> dom (clients h) \<subseteq> known \<Longrightarrow> trace_ok known es \<Longrightarrow>
    \<forall>e. stream_ok (7 * BUFFER_LENGTH) (pending h es e) \<Longrightarrow>
    \<exists>calls h'. fold_opt (serve_event work) es h = Some h' \<and>
      fold_opt (handle_call work) calls (shared h) = Some (shared h') \<and>
      dom (clients h') \<subseteq> dom (clients h) \<union> fst ` set (accepted es) \<and>
      (\<forall>(e, fildes, buf) \<in> set calls. (e, fildes) \<in> descriptors h es) \<and>
      (\<forall>e. from_client e calls = fst (frames_of (pending h es e))) \<and>
      (\<forall>e env. clients h' e = Some env \<longrightarrow> unread env = snd (frames_of (pending h es e)))"
proof (induction es arbitrary: h known)
  case Nil
  have f: "frames_of (pending h [] e) = ([], pending h [] e)" for e
    using Nil(1) by (subst frames_of.simps) (auto simp: pending_def clients_ok_def complete_def split: option.splits)
  show ?case
    by (intro exI [of _ "[]"] exI [of _ h]) (auto simp: f, auto simp: pending_def descriptors_def)
next
  case (Cons ev es)
  from event_step [OF assms Cons.prems] obtain calls1 h1 where d: "event_done work ev es h calls1 h1" by blast
  note d = d [unfolded event_done_def]
  let ?known = "fst ` set (accepted [ev]) \<union> known"
  have "dom (clients h1) \<subseteq> ?known" using d Cons.prems(2) by blast
  from Cons.IH [OF _ this trace_ok_step(1) [OF Cons.prems(3)]] d obtain calls2 h2 where
    i: "fold_opt (serve_event work) es h1 = Some h2"
    "fold_opt (handle_call work) calls2 (shared h1) = Some (shared h2)"
    "dom (clients h2) \<subseteq> dom (clients h1) \<union> fst ` set (accepted es)"
    "\<forall>(e, fildes, buf) \<in> set calls2. (e, fildes) \<in> descriptors h1 es"
    "\<forall>e. from_client e calls2 = fst (frames_of (pending h1 es e))"
    "\<forall>e env. clients h2 e = Some env \<longrightarrow> unread env = snd (frames_of (pending h1 es e))" by blast
  have "snd (frames_of (pending h (ev # es) e)) = snd (frames_of (pending h1 es e))"
    if "clients h2 e = Some env" for e env
  proof (rule ccontr)
    assume "\<not> ?thesis"
    then have "e \<in> dom (clients h)" "e \<notin> dom (clients h1)" using d by blast+
    moreover have "e \<in> dom (clients h1) \<union> fst ` set (accepted es)" using i(3) that by blast
    ultimately show False using Cons.prems(2) trace_ok_step(1) [OF Cons.prems(3)] by (auto simp: trace_ok_def)
  qed
  then have last: "\<forall>e env. clients h2 e = Some env \<longrightarrow> unread env = snd (frames_of (pending h (ev # es) e))"
    using i(6) by simp
  have dom: "dom (clients h2) \<subseteq> dom (clients h) \<union> fst ` set (accepted (ev # es))"
  proof -
    have eq: "fst ` set (accepted (ev # es)) = fst ` set (accepted [ev]) \<union> fst ` set (accepted es)"
      by (cases ev) auto
    note subset_trans [OF i(3) Un_mono [OF d [THEN conjunct2, THEN conjunct2, THEN conjunct1] subset_refl]]
    then show ?thesis unfolding eq Un_assoc .
  qed
  show ?case
  proof (intro exI [of _ "calls1 @ calls2"] exI [of _ h2] conjI dom last)
    show "fold_opt (serve_event work) (ev # es) h = Some h2" using d i(1) by simp
    show "fold_opt (handle_call work) (calls1 @ calls2) (shared h) = Some (shared h2)"
      using d i(2) by (simp add: fold_opt_append)
    show "\<forall>(e, fildes, buf) \<in> set (calls1 @ calls2). (e, fildes) \<in> descriptors h (ev # es)" using d i(4) by auto
    show "\<forall>e. from_client e (calls1 @ calls2) = fst (frames_of (pending h (ev # es) e))" using d i(5) by simp
  qed
qed

section \<open>A handler that may crash\<close>

abbreviation crashed :: "('e \<rightharpoonup> stEnv) \<Rightarrow> ('e, 's option) host" where
  "crashed C \<equiv> \<lparr>clients = C, shared = None\<rparr>"

lemma serve_event_crashed:
  "serve_event (\<lambda>fildes. lifted (work fildes)) ev (crashed C) = Some h \<Longrightarrow> shared h = None"
  by (cases ev) (auto simp: accept_client_def client_round_def simp del: run.simps split: option.splits dest: run_crashed)

lemma serve_crashed:
  "fold_opt (serve_event (\<lambda>fildes. lifted (work fildes))) es (crashed C) = Some h \<Longrightarrow> shared h = None"
proof (induction es arbitrary: C)
  case (Cons ev es)
  then obtain h1 where h1: "serve_event (\<lambda>fildes. lifted (work fildes)) ev (crashed C) = Some h1"
    "fold_opt (serve_event (\<lambda>fildes. lifted (work fildes))) es h1 = Some h" by (auto split: option.splits)
  then have "h1 = crashed (clients h1)" using serve_event_crashed [OF h1(1)] by (cases h1) simp
  then show ?case using Cons.IH h1(2) by metis
next
  case Nil
  then have "h = crashed C" by simp
  then show ?case by simp
qed

lemma serve_event_agrees:
  assumes "serve_event (\<lambda>fildes. lifted (work fildes)) ev \<lparr>clients = C, shared = Some s\<rparr> = Some h"
    "shared h = Some s1"
  shows "serve_event work ev \<lparr>clients = C, shared = s\<rparr> = Some \<lparr>clients = clients h, shared = s1\<rparr>"
proof (cases ev)
  case (Accepted e fildes)
  then show ?thesis using assms by (auto simp: accept_client_def)
next
  case (Polled e rv recv)
  show ?thesis
  proof (cases "C e")
    case None
    then show ?thesis using assms Polled by (auto simp: client_round_def)
  next
    case (Some env)
    then obtain closed env1 where "run (lifted (work (env_fd env))) [(rv, recv)] env (Some s) = Some (closed, env1, Some s1)"
      "clients h = C(e := if closed then None else Some env1)"
      using assms Polled by (auto simp: client_round_def simp del: run.simps)
    then show ?thesis using run_agrees Polled Some by (fastforce simp: client_round_def simp del: run.simps)
  qed
qed

lemma serve_agrees:
  "fold_opt (serve_event (\<lambda>fildes. lifted (work fildes))) es \<lparr>clients = C, shared = Some s\<rparr> = Some h \<Longrightarrow>
     shared h = Some s1 \<Longrightarrow>
     fold_opt (serve_event work) es \<lparr>clients = C, shared = s\<rparr> = Some \<lparr>clients = clients h, shared = s1\<rparr>"
proof (induction es arbitrary: C s)
  case (Cons ev es)
  then obtain h1 where h1: "serve_event (\<lambda>fildes. lifted (work fildes)) ev \<lparr>clients = C, shared = Some s\<rparr> = Some h1"
    "fold_opt (serve_event (\<lambda>fildes. lifted (work fildes))) es h1 = Some h" by (auto split: option.splits)
  obtain s2 where s2: "shared h1 = Some s2"
    using serve_crashed [of work es "clients h1" h] h1(2) Cons.prems(2) by (cases h1) force
  then have "h1 = \<lparr>clients = clients h1, shared = Some s2\<rparr>" by (cases h1) simp
  with h1(2) Cons.IH [of "clients h1" s2] Cons.prems(2)
  have "fold_opt (serve_event work) es \<lparr>clients = clients h1, shared = s2\<rparr> = Some \<lparr>clients = clients h, shared = s1\<rparr>"
    by metis
  then show ?case using serve_event_agrees [OF h1(1) s2] by simp
next
  case Nil
  then have "h = \<lparr>clients = C, shared = Some s\<rparr>" by simp
  then show ?case using Nil(2) by simp
qed

lemma fold_calls_lifted:
  "fold_opt (handle_call (\<lambda>fildes. lifted (work fildes))) calls so =
     Some (Option.bind so (fold_opt (handle_call work) calls))"
proof (induction calls arbitrary: so)
  case (Cons c calls)
  show ?case
    by (cases so; cases c)
      (simp_all add: handle_call_def lifted_def Cons.IH [unfolded handle_call_def lifted_def] split: option.split)
next
  case Nil
  show ?case by (cases so) simp_all
qed

section \<open>Conversations\<close>

text \<open>What is read from a client: messages of at most 7 MB each, and the beginning of another one.\<close>

definition conversation :: "byte list \<Rightarrow> byte list list \<Rightarrow> byte list \<Rightarrow> bool" where
  "conversation bs ms p \<longleftrightarrow> bs = concat ms @ p \<and> (\<forall>m \<in> set ms. message (7 * BUFFER_LENGTH) m) \<and>
     (\<exists>q. q \<noteq> [] \<and> message (7 * BUFFER_LENGTH) (p @ q))"

lemma conversation_frames:
  assumes "conversation bs ms p"
  shows "frames_of bs = (ms, p)" "stream_ok (7 * BUFFER_LENGTH) bs"
  using assms frames_of_messages [of ms "7 * BUFFER_LENGTH" p] partial_message [of "7 * BUFFER_LENGTH" p]
  by (auto simp: conversation_def)

lemma clients_partial:
  assumes "trace_ok {} es" "\<forall>e. conversation (received e False es) (ms e) (p e)"
  shows "\<exists>calls. (\<forall>e. from_client e calls = ms e) \<and>
    (\<forall>(e, fildes, buf) \<in> set calls. (e, fildes) \<in> set (accepted es)) \<and>
    (\<forall>s1. fold_opt (handle_call work) calls s = Some s1 \<longrightarrow>
       (\<exists>C. fold_opt (serve_event work) es \<lparr>clients = Map.empty, shared = s\<rparr> = Some \<lparr>clients = C, shared = s1\<rparr> \<and>
          (\<forall>e env. C e = Some env \<longrightarrow> unread env = p e)))"
proof -
  let ?h = "\<lparr>clients = Map.empty, shared = Some s\<rparr>"
  have pend: "pending ?h es e = received e False es" for e by (simp add: pending_def)
  have ok: "clients_ok ?h" "dom (clients ?h) \<subseteq> {}" and d: "descriptors ?h es = set (accepted es)"
    by (simp_all add: clients_ok_def descriptors_def)
  have str: "\<forall>e. stream_ok (7 * BUFFER_LENGTH) (pending ?h es e)"
    using assms(2) conversation_frames(2) unfolding pend by blast
  have "\<forall>fildes. total (lifted (work fildes))" by (simp add: total_lifted)
  note clients_total [OF this ok assms(1) str, unfolded pend d]
  then obtain calls h where
    r: "fold_opt (serve_event (\<lambda>fildes. lifted (work fildes))) es ?h = Some h"
    "fold_opt (handle_call (\<lambda>fildes. lifted (work fildes))) calls (Some s) = Some (shared h)"
    "\<forall>(e, fildes, buf) \<in> set calls. (e, fildes) \<in> set (accepted es)"
    "\<forall>e. from_client e calls = fst (frames_of (received e False es))"
    "\<forall>e env. clients h e = Some env \<longrightarrow> unread env = snd (frames_of (received e False es))"
    by auto
  have f: "frames_of (received e False es) = (ms e, p e)" for e
    using assms(2) conversation_frames(1) by blast
  have "fold_opt (serve_event work) es \<lparr>clients = Map.empty, shared = s\<rparr> = Some \<lparr>clients = clients h, shared = s1\<rparr>"
    if "fold_opt (handle_call work) calls s = Some s1" for s1
    using serve_agrees [OF r(1), of s1] r(2) that by (simp add: fold_calls_lifted)
  then show ?thesis using r(3-5) f by (intro exI [of _ calls]) auto
qed

end
