(* ===== verification/Db_Pool.thy ===== *)
theory Db_Pool
  imports Prelude
begin

text \<open>
  The connection pool of \<open>src/dbpool/DBPool.cpp\<close> (\<open>CDBPool\<close>): the free and the used connections, the
  count of the connections created, and \<open>GetDBConn\<close> and \<open>RelDBConn\<close>, which run under the mutex of the
  pool. A request that finds no connection waits on the condition variable, so \<open>GetDBConn\<close> is split at
  the wait. The lemmas show that a connection has one user at a time and that the counts stay within
  their bounds, over every interleaving of requests and releases.
\<close>

section \<open>State\<close>

record 'c pool =
  m_free_list :: "'c list"
  m_used_list :: "'c list"
  m_db_cur_conn_cnt :: int
  m_db_max_conn_cnt :: int
  m_abort_request :: bool

text \<open>What \<open>GetDBConn\<close> answers: a connection, a null pointer, or that it waits.\<close>

datatype 'c reply = Conn 'c | Null | Wait

abbreviation (input) "MIN_DB_CONN_CNT \<equiv> (2 :: int)"

section \<open>Operations\<close>

definition SetCDBPoolParams :: "int \<Rightarrow> 'c pool" where
  "SetCDBPoolParams max_conn_cnt =
     \<lparr>m_free_list = [], m_used_list = [], m_db_cur_conn_cnt = MIN_DB_CONN_CNT,
      m_db_max_conn_cnt = max_conn_cnt, m_abort_request = False\<rparr>"

text \<open>\<open>_Init\<close>: each attempt is the new connection and the result of its \<open>Init\<close>.\<close>

fun init_loop :: "('c \<times> int) list \<Rightarrow> 'c pool \<Rightarrow> int \<times> 'c pool" where
  "init_loop [] s = (0, s)"
| "init_loop ((pDBConn, ret) # atts) s =
     (if ret \<noteq> 0 then (ret, s)
      else init_loop atts (s\<lparr>m_free_list := m_free_list s @ [pDBConn]\<rparr>))"

definition Init_pool :: "('c \<times> int) list \<Rightarrow> 'c pool \<Rightarrow> int \<times> 'c pool" where
  "Init_pool attempts s = init_loop (take (nat (m_db_cur_conn_cnt s)) attempts) s"

definition CDBPool_ctor :: "int \<Rightarrow> ('c \<times> int) list \<Rightarrow> 'c pool" where
  "CDBPool_ctor max_conn_cnt attempts = snd (Init_pool attempts (SetCDBPoolParams max_conn_cnt))"

definition CDBPool_dtor :: "'c pool \<Rightarrow> 'c pool" where
  "CDBPool_dtor s = s\<lparr>m_abort_request := True, m_free_list := []\<rparr>"

text \<open>The end of \<open>GetDBConn\<close>: \<open>front\<close> of an empty list has no result.\<close>

definition take_front :: "'c pool \<Rightarrow> ('c reply \<times> 'c pool) option" where
  "take_front s =
     (case m_free_list s of
        [] \<Rightarrow> None
      | pConn # rest \<Rightarrow> Some (Conn pConn, s\<lparr>m_free_list := rest, m_used_list := m_used_list s @ [pConn]\<rparr>))"

text \<open>\<open>GetDBConn\<close> up to its wait. \<open>fresh\<close> and \<open>ret\<close> are the connection it would create and the result
  of its \<open>Init\<close>.\<close>

definition GetDBConn :: "'c \<Rightarrow> int \<Rightarrow> 'c pool \<Rightarrow> ('c reply \<times> 'c pool) option" where
  "GetDBConn fresh ret s =
     (if m_abort_request s then Some (Null, s)
      else if m_free_list s = [] then
        if m_db_max_conn_cnt s \<le> m_db_cur_conn_cnt s then Some (Wait, s)
        else if ret \<noteq> 0 then Some (Null, s)
        else take_front (s\<lparr>m_free_list := m_free_list s @ [fresh],
                           m_db_cur_conn_cnt := m_db_cur_conn_cnt s + 1\<rparr>)
      else take_front s)"

text \<open>The predicate of both waits, and \<open>GetDBConn\<close> after the wait: without a time-out it goes on only
  when the predicate holds, with one also when the time has passed.\<close>

definition wait_over :: "'c pool \<Rightarrow> bool" where
  "wait_over s \<longleftrightarrow> m_free_list s \<noteq> [] \<or> m_abort_request s"

definition GetDBConn_woken :: "int \<Rightarrow> 'c pool \<Rightarrow> ('c reply \<times> 'c pool) option" where
  "GetDBConn_woken timeout_ms s =
     (if 0 < timeout_ms \<and> m_free_list s = [] then Some (Null, s)
      else if m_abort_request s then Some (Null, s)
      else take_front s)"

definition RelDBConn :: "'c \<Rightarrow> 'c pool \<Rightarrow> 'c pool" where
  "RelDBConn pConn s =
     (if pConn \<notin> set (m_free_list s)
      then s\<lparr>m_used_list := removeAll pConn (m_used_list s), m_free_list := m_free_list s @ [pConn]\<rparr>
      else s)"

section \<open>The runs of a pool\<close>

text \<open>The users of the pool in any order: requests, wake-ups of waiting requests, and releases of
  connections that are in use. A new connection is a new object.\<close>

inductive pool_step :: "'c pool \<Rightarrow> 'c pool \<Rightarrow> bool" where
  get: "GetDBConn c ret s = Some (r, t) \<Longrightarrow> c \<notin> set (m_free_list s @ m_used_list s) \<Longrightarrow> pool_step s t"
| woken: "wait_over s \<or> 0 < timeout_ms \<Longrightarrow> GetDBConn_woken timeout_ms s = Some (r, t) \<Longrightarrow> pool_step s t"
| release: "c \<in> set (m_used_list s) \<Longrightarrow> pool_step s (RelDBConn c s)"
| destroy: "pool_step s (CDBPool_dtor s)"

inductive pool_reach :: "'c pool \<Rightarrow> bool" where
  start: "distinct (map fst attempts) \<Longrightarrow> pool_reach (CDBPool_ctor max_conn_cnt attempts)"
| step: "pool_reach s \<Longrightarrow> pool_step s t \<Longrightarrow> pool_reach t"

inductive_cases pool_stepE: "pool_step s t"

definition pool_inv :: "'c pool \<Rightarrow> bool" where
  "pool_inv s \<longleftrightarrow> distinct (m_free_list s @ m_used_list s) \<and>
     int (length (m_free_list s @ m_used_list s)) \<le> m_db_cur_conn_cnt s \<and>
     MIN_DB_CONN_CNT \<le> m_db_cur_conn_cnt s \<and>
     m_db_cur_conn_cnt s \<le> max MIN_DB_CONN_CNT (m_db_max_conn_cnt s)"

lemma take_front_inv: "pool_inv s \<Longrightarrow> take_front s = Some (r, t) \<Longrightarrow> pool_inv t"
  by (auto simp: pool_inv_def take_front_def split: list.splits)

lemma GetDBConn_inv:
  assumes "pool_inv s" "GetDBConn c ret s = Some (r, t)" "c \<notin> set (m_free_list s @ m_used_list s)"
  shows "pool_inv t"
proof -
  have "pool_inv (s\<lparr>m_free_list := m_free_list s @ [c], m_db_cur_conn_cnt := m_db_cur_conn_cnt s + 1\<rparr>)"
    if "m_free_list s = []" "m_db_cur_conn_cnt s < m_db_max_conn_cnt s"
    using that assms(1,3) by (auto simp: pool_inv_def)
  then show ?thesis
    using assms(1,2) by (auto simp: GetDBConn_def split: if_splits intro: take_front_inv)
qed

lemma GetDBConn_woken_inv: "pool_inv s \<Longrightarrow> GetDBConn_woken d s = Some (r, t) \<Longrightarrow> pool_inv t"
  by (auto simp: GetDBConn_woken_def split: if_splits intro: take_front_inv)

lemma length_removeAll_distinct:
  "distinct xs \<Longrightarrow> x \<in> set xs \<Longrightarrow> Suc (length (removeAll x xs)) = length xs"
  using length_pos_if_in_set [of x xs] by (simp add: distinct_remove1_removeAll [symmetric] length_remove1)

lemma RelDBConn_inv: "pool_inv s \<Longrightarrow> c \<in> set (m_used_list s) \<Longrightarrow> pool_inv (RelDBConn c s)"
  using length_removeAll_distinct [of "m_used_list s" c]
  by (auto simp: pool_inv_def RelDBConn_def distinct_removeAll)

lemma CDBPool_dtor_inv: "pool_inv s \<Longrightarrow> pool_inv (CDBPool_dtor s)"
  by (auto simp: pool_inv_def CDBPool_dtor_def)

lemma init_loop_frame:
  "init_loop atts s = (ret, t) \<Longrightarrow> m_used_list t = m_used_list s \<and>
     m_db_cur_conn_cnt t = m_db_cur_conn_cnt s \<and> m_db_max_conn_cnt t = m_db_max_conn_cnt s \<and>
     m_abort_request t = m_abort_request s \<and>
     (\<exists>n \<le> length atts. m_free_list t = m_free_list s @ take n (map fst atts) \<and>
        (n < length atts \<longrightarrow> snd (atts ! n) \<noteq> 0) \<and> (\<forall>i < n. snd (atts ! i) = 0))"
proof (induction atts s rule: init_loop.induct)
  case (2 c r atts s)
  show ?case
  proof (cases "r = 0")
    case True
    with 2 obtain n where n: "n \<le> length atts"
      "m_free_list t = m_free_list s @ c # take n (map fst atts)"
      "n < length atts \<longrightarrow> snd (atts ! n) \<noteq> 0" "\<forall>i < n. snd (atts ! i) = 0" by auto
    have "\<forall>i < Suc n. snd (((c, r) # atts) ! i) = 0" using n(4) True by (auto simp: less_Suc_eq_0_disj)
    then show ?thesis using 2 True n by (auto intro!: exI [of _ "Suc n"])
  qed (use 2 in \<open>auto intro: exI [of _ 0]\<close>)
qed auto

lemma CDBPool_ctor_inv: "distinct (map fst attempts) \<Longrightarrow> pool_inv (CDBPool_ctor max_conn_cnt attempts)"
proof -
  assume d: "distinct (map fst attempts)"
  let ?s = "SetCDBPoolParams max_conn_cnt :: 'a pool"
  let ?atts = "take 2 attempts"
  obtain ret t where t: "init_loop ?atts ?s = (ret, t)" by force
  from init_loop_frame [OF this] obtain n where n: "n \<le> length ?atts" "m_free_list t = take n (map fst ?atts)"
    and f: "m_used_list t = []" "m_db_cur_conn_cnt t = 2" "m_db_max_conn_cnt t = max_conn_cnt"
    by (auto simp: SetCDBPoolParams_def)
  have "CDBPool_ctor max_conn_cnt attempts = t"
    using t by (simp add: CDBPool_ctor_def Init_pool_def SetCDBPoolParams_def)
  then show ?thesis
    using n f d by (auto simp: pool_inv_def take_map [symmetric] intro: distinct_take)
qed

lemma pool_step_inv: "pool_step s t \<Longrightarrow> pool_inv s \<Longrightarrow> pool_inv t"
  by (erule pool_stepE)
    (auto intro: GetDBConn_inv GetDBConn_woken_inv RelDBConn_inv CDBPool_dtor_inv)

lemma pool_reach_inv: "pool_reach s \<Longrightarrow> pool_inv s"
  by (induction rule: pool_reach.induct) (auto intro: CDBPool_ctor_inv pool_step_inv)

section \<open>Properties\<close>

text \<open>C14
  In every reachable state of the pool each connection is free or in use and not both, there are at most
  as many as the pool counts, and the count stays between 2 and the configured maximum (or 2). A request
  never reads the front of an empty list, and a connection it hands out was not in use before.\<close>

theorem pool_exclusive:
  assumes "pool_reach s" "c \<notin> set (m_free_list s @ m_used_list s)" "wait_over s \<or> 0 < timeout_ms"
  shows "distinct (m_free_list s @ m_used_list s) \<and>
    int (length (m_free_list s @ m_used_list s)) \<le> m_db_cur_conn_cnt s \<and>
    m_db_cur_conn_cnt s \<le> max 2 (m_db_max_conn_cnt s) \<and>
    (\<exists>r t. GetDBConn c ret s = Some (r, t) \<and>
       (\<forall>k. r = Conn k \<longrightarrow> k \<notin> set (m_used_list s) \<and> m_used_list t = m_used_list s @ [k])) \<and>
    (\<exists>r t. GetDBConn_woken timeout_ms s = Some (r, t) \<and>
       (\<forall>k. r = Conn k \<longrightarrow> k \<notin> set (m_used_list s) \<and> m_used_list t = m_used_list s @ [k]))"
proof -
  note inv = pool_reach_inv [OF assms(1)]
  have "\<exists>r t. take_front u = Some (r, t) \<and>
      (\<forall>k. r = Conn k \<longrightarrow> k \<notin> set (m_used_list u) \<and> m_used_list t = m_used_list u @ [k])"
    if "m_free_list u \<noteq> []" "pool_inv u" for u :: "'a pool"
    using that by (auto simp: take_front_def pool_inv_def neq_Nil_conv)
  note take = this
  have "\<exists>r t. GetDBConn c ret s = Some (r, t) \<and>
      (\<forall>k. r = Conn k \<longrightarrow> k \<notin> set (m_used_list s) \<and> m_used_list t = m_used_list s @ [k])"
    using take [OF _ inv] assms(2) by (auto simp: GetDBConn_def take_front_def)
  moreover have "\<exists>r t. GetDBConn_woken timeout_ms s = Some (r, t) \<and>
      (\<forall>k. r = Conn k \<longrightarrow> k \<notin> set (m_used_list s) \<and> m_used_list t = m_used_list s @ [k])"
    using take [OF _ inv] assms(3) by (auto simp: GetDBConn_woken_def wait_over_def)
  ultimately show ?thesis using inv by (simp add: pool_inv_def)
qed

text \<open>A release serves a waiting request: once a connection in use is released, the predicate of the wait
  holds and the woken request gets a connection. Releasing a connection twice is the same as releasing
  it once.\<close>

theorem release_serves_waiter:
  assumes "\<not> m_abort_request s"
  shows "wait_over (RelDBConn c s) \<and>
    (\<exists>k t. GetDBConn_woken timeout_ms (RelDBConn c s) = Some (Conn k, t)) \<and>
    RelDBConn c (RelDBConn c s) = RelDBConn c s"
proof -
  have "m_free_list (RelDBConn c s) \<noteq> []" "\<not> m_abort_request (RelDBConn c s)" "c \<in> set (m_free_list (RelDBConn c s))"
    using assms by (auto simp: RelDBConn_def)
  then show ?thesis
    by (auto simp: wait_over_def GetDBConn_woken_def take_front_def RelDBConn_def neq_Nil_conv split: list.split)
qed

text \<open>A pool without connections that counts as full.\<close>

definition starved :: "'c pool \<Rightarrow> bool" where
  "starved s \<longleftrightarrow> m_free_list s = [] \<and> m_used_list s = [] \<and> m_db_max_conn_cnt s \<le> m_db_cur_conn_cnt s"

lemma starved_step: "pool_step s t \<Longrightarrow> starved s \<Longrightarrow> starved t"
  by (erule pool_stepE)
    (auto simp: starved_def GetDBConn_def GetDBConn_woken_def CDBPool_dtor_def wait_over_def split: if_splits)

text \<open>The count of the pool is set to 2 before a connection exists, and \<open>_Init\<close> leaves it there when a
  connection fails. With a maximum of at most 2, a failure of the first one starves the pool: no
  connection is ever created again, and every request waits for a release that cannot come.\<close>

theorem init_failure_starves:
  assumes "ret \<noteq> 0" "max_conn_cnt \<le> 2"
    and "rtranclp pool_step (CDBPool_ctor max_conn_cnt ((c, ret) # attempts)) t" "\<not> m_abort_request t"
  shows "GetDBConn fresh ret2 t = Some (Wait, t) \<and> \<not> wait_over t"
proof -
  have "starved (CDBPool_ctor max_conn_cnt ((c, ret) # attempts))"
    using assms(1,2) by (simp add: CDBPool_ctor_def Init_pool_def SetCDBPoolParams_def starved_def take_Cons')
  with assms(3) have "starved t" by (induction rule: rtranclp_induct) (auto intro: starved_step)
  then show ?thesis using assms(4) by (simp add: starved_def GetDBConn_def wait_over_def)
qed

section \<open>Concrete pools\<close>

theorem pool_exclusive_witness:
  "\<exists>t. GetDBConn 9 0 (CDBPool_ctor 4 [(1 :: nat, 0), (2, 0)]) = Some (Conn 1, t) \<and> m_used_list t = [1]"
proof -
  have "pool_reach (CDBPool_ctor 4 [(1 :: nat, 0), (2, 0)])" by (rule pool_reach.start) simp
  moreover have e: "CDBPool_ctor 4 [(1 :: nat, 0), (2, 0)] =
      \<lparr>m_free_list = [1, 2], m_used_list = [], m_db_cur_conn_cnt = 2, m_db_max_conn_cnt = 4, m_abort_request = False\<rparr>"
    by (simp add: CDBPool_ctor_def Init_pool_def SetCDBPoolParams_def)
  ultimately show ?thesis
    using pool_exclusive [of "CDBPool_ctor 4 [(1 :: nat, 0), (2, 0)]" 9 10 0]
    by (simp add: GetDBConn_def take_front_def)
qed

theorem release_serves_waiter_witness:
  "wait_over (RelDBConn 1 (CDBPool_ctor 2 [(1 :: nat, 0), (2, 5)]))"
  using release_serves_waiter [of "CDBPool_ctor 2 [(1 :: nat, 0), (2, 5)]" 1 0]
  by (simp add: CDBPool_ctor_def Init_pool_def SetCDBPoolParams_def)

theorem init_failure_starves_witness:
  "GetDBConn 9 0 (CDBPool_ctor 2 [(1 :: nat, 2), (2, 0)]) = Some (Wait, CDBPool_ctor 2 [(1, 2), (2, 0)])"
  using init_failure_starves [of 2 2 1 "[(2, 0)]" "CDBPool_ctor 2 [(1 :: nat, 2), (2, 0)]" 9 0]
  by (simp add: CDBPool_ctor_def Init_pool_def SetCDBPoolParams_def)

end
