(* ===== verification/Pool_Thread.thy ===== *)
theory Pool_Thread
  imports Db_Pool
begin

text \<open>
  The connection pool under the coroutines of one thread. The handlers of the clients (\<open>src/env/co_env.cpp\<close>
  and the tables they call) take a connection, talk to the database and give the connection back. With the
  hooks on, the client library waits for the database in the hooked calls of \<open>src/coroutine/co_hook_sys_call.cpp\<close>,
  which suspend the coroutine, so handlers interleave at their calls of the library, while the mutex and the
  condition variable of \<open>src/dbpool/DBPool.cpp\<close> are those of the operating system and block the thread with all its
  coroutines. The theorem says when this happens, and that it is for ever.
\<close>

section \<open>State\<close>

text \<open>What the thread is blocked on, in the call of a coroutine: the mutex of the pool or its condition variable.\<close>

datatype 'co blocked = On_mutex 'co | On_condition 'co

text \<open>\<open>pt_creating\<close> is the coroutine that is suspended in the \<open>Init\<close> of a new connection, in the middle of
  \<open>GetDBConn\<close> and with the mutex locked; \<open>pt_held\<close> are the connections of each coroutine.\<close>

record ('co, 'c) pool_thread =
  pt_pool :: "'c pool"
  pt_held :: "'co \<Rightarrow> 'c list"
  pt_creating :: "'co option"
  pt_blocked :: "'co blocked option"

section \<open>Operations\<close>

definition creates :: "'c pool \<Rightarrow> bool" where
  "creates p \<longleftrightarrow> \<not> m_abort_request p \<and> m_free_list p = [] \<and> m_db_cur_conn_cnt p < m_db_max_conn_cnt p"

definition got :: "'co \<Rightarrow> 'c reply \<times> 'c pool \<Rightarrow> ('co, 'c) pool_thread \<Rightarrow> ('co, 'c) pool_thread" where
  "got co r x =
     (case r of
        (Conn c, p) \<Rightarrow> x\<lparr>pt_pool := p, pt_held := (pt_held x)(co := pt_held x co @ [c])\<rparr>
      | (_, p) \<Rightarrow> x\<lparr>pt_pool := p\<rparr>)"

text \<open>A coroutine calls \<open>GetDBConn\<close>, up to the next time it is suspended: at the lock of the mutex and at the wait
  without a time-out the thread stops, and a wait with a time-out is over after that time.\<close>

definition request :: "int \<Rightarrow> 'c \<Rightarrow> 'co \<Rightarrow> ('co, 'c) pool_thread \<Rightarrow> ('co, 'c) pool_thread option" where
  "request timeout_ms fresh co x =
     (if pt_creating x \<noteq> None then Some (x\<lparr>pt_blocked := Some (On_mutex co)\<rparr>)
      else if creates (pt_pool x) then Some (x\<lparr>pt_creating := Some co\<rparr>)
      else case GetDBConn fresh 0 (pt_pool x) of
             None \<Rightarrow> None
           | Some (Wait, p) \<Rightarrow>
               if timeout_ms \<le> 0 then Some (x\<lparr>pt_blocked := Some (On_condition co)\<rparr>)
               else map_option (\<lambda>r. got co r x) (GetDBConn_woken timeout_ms p)
           | Some r \<Rightarrow> Some (got co r x))"

text \<open>The new connection is made, or \<open>Init\<close> has failed.\<close>

definition conn_made :: "'c \<Rightarrow> int \<Rightarrow> 'co \<Rightarrow> ('co, 'c) pool_thread \<Rightarrow> ('co, 'c) pool_thread option" where
  "conn_made fresh ret co x =
     map_option (\<lambda>r. got co r (x\<lparr>pt_creating := None\<rparr>)) (GetDBConn fresh ret (pt_pool x))"

definition give_up :: "'c \<Rightarrow> 'co \<Rightarrow> ('co, 'c) pool_thread \<Rightarrow> ('co, 'c) pool_thread" where
  "give_up c co x =
     (if pt_creating x \<noteq> None then x\<lparr>pt_blocked := Some (On_mutex co)\<rparr>
      else x\<lparr>pt_pool := RelDBConn c (pt_pool x), pt_held := (pt_held x)(co := remove1 c (pt_held x co))\<rparr>)"

section \<open>The coroutines of the thread\<close>

text \<open>While the thread is not blocked, any coroutine but the one suspended in \<open>Init\<close> may be the next to call. A
  blocked thread goes on when the mutex is free, or when the predicate of the wait holds.\<close>

inductive thread_step :: "('co, 'c) pool_thread \<Rightarrow> ('co, 'c) pool_thread \<Rightarrow> bool" where
  request: "pt_blocked x = None \<Longrightarrow> pt_creating x \<noteq> Some co \<Longrightarrow>
    request timeout_ms fresh co x = Some y \<Longrightarrow> thread_step x y"
| conn_made: "pt_blocked x = None \<Longrightarrow> pt_creating x = Some co \<Longrightarrow>
    fresh \<notin> set (m_free_list (pt_pool x) @ m_used_list (pt_pool x)) \<Longrightarrow>
    conn_made fresh ret co x = Some y \<Longrightarrow> thread_step x y"
| release: "pt_blocked x = None \<Longrightarrow> pt_creating x \<noteq> Some co \<Longrightarrow> c \<in> set (pt_held x co) \<Longrightarrow>
    thread_step x (give_up c co x)"
| locked: "pt_blocked x = Some (On_mutex co) \<Longrightarrow> pt_creating x = None \<Longrightarrow>
    thread_step x (x\<lparr>pt_blocked := None\<rparr>)"
| woken: "pt_blocked x = Some (On_condition co) \<Longrightarrow> wait_over (pt_pool x) \<Longrightarrow>
    GetDBConn_woken 0 (pt_pool x) = Some r \<Longrightarrow> thread_step x (got co r (x\<lparr>pt_blocked := None\<rparr>))"

text \<open>The start: the pool has made its two connections.\<close>

inductive thread_reach :: "int \<Rightarrow> ('co, 'c) pool_thread \<Rightarrow> bool" for max_conn_cnt where
  start: "a \<noteq> b \<Longrightarrow> thread_reach max_conn_cnt
    \<lparr>pt_pool = CDBPool_ctor max_conn_cnt [(a, 0), (b, 0)], pt_held = \<lambda>_. [], pt_creating = None, pt_blocked = None\<rparr>"
| step: "thread_reach max_conn_cnt x \<Longrightarrow> thread_step x y \<Longrightarrow> thread_reach max_conn_cnt y"

section \<open>The invariant\<close>

text \<open>Each connection in use has one holder, the pool counts every connection, and what the thread is blocked on is
  not free.\<close>

definition holders_ok :: "('co \<Rightarrow> 'c list) \<Rightarrow> 'c pool \<Rightarrow> bool" where
  "holders_ok held p \<longleftrightarrow> (\<forall>co. distinct (held co)) \<and> (\<forall>c co co'. c \<in> set (held co) \<and> c \<in> set (held co') \<longrightarrow> co = co') \<and>
     (\<forall>c. c \<in> set (m_used_list p) \<longleftrightarrow> (\<exists>co. c \<in> set (held co)))"

definition counted :: "'c pool \<Rightarrow> bool" where
  "counted p \<longleftrightarrow> pool_inv p \<and> \<not> m_abort_request p \<and>
     int (length (m_free_list p @ m_used_list p)) = m_db_cur_conn_cnt p"

definition thread_inv :: "int \<Rightarrow> ('co, 'c) pool_thread \<Rightarrow> bool" where
  "thread_inv max_conn_cnt x \<longleftrightarrow> counted (pt_pool x) \<and> m_db_max_conn_cnt (pt_pool x) = max_conn_cnt \<and>
     holders_ok (pt_held x) (pt_pool x) \<and>
     (pt_creating x \<noteq> None \<longrightarrow> creates (pt_pool x)) \<and>
     (\<forall>co. pt_blocked x = Some (On_mutex co) \<longrightarrow> pt_creating x \<noteq> None) \<and>
     (\<forall>co. pt_blocked x = Some (On_condition co) \<longrightarrow>
        pt_creating x = None \<and> m_free_list (pt_pool x) = [] \<and> max_conn_cnt \<le> m_db_cur_conn_cnt (pt_pool x))"

text \<open>A connection handed out is in use from then on, and is the only change.\<close>

lemma GetDBConn_conn:
  assumes "GetDBConn fresh ret p = Some (Conn c, q)" "counted p" "fresh \<notin> set (m_free_list p @ m_used_list p) \<or> \<not> creates p"
  shows "counted q" "c \<notin> set (m_used_list p)" "m_used_list q = m_used_list p @ [c]"
    "m_db_max_conn_cnt q = m_db_max_conn_cnt p" "\<not> m_abort_request q"
proof -
  have "pool_inv q"
    using assms GetDBConn_inv [of p fresh ret "Conn c" q]
    by (cases "creates p") (auto simp: counted_def creates_def GetDBConn_def split: if_splits intro: take_front_inv)
  then show "counted q" "c \<notin> set (m_used_list p)" "m_used_list q = m_used_list p @ [c]"
    "m_db_max_conn_cnt q = m_db_max_conn_cnt p" "\<not> m_abort_request q"
    using assms by (auto simp: counted_def GetDBConn_def take_front_def pool_inv_def creates_def split: if_splits list.splits)
qed

lemma holders_got:
  assumes "holders_ok held p" "c \<notin> set (m_used_list p)" "m_used_list q = m_used_list p @ [c]"
  shows "holders_ok (held(co := held co @ [c])) q"
  using assms by (auto simp: holders_ok_def)

lemma holders_released:
  assumes "holders_ok held p" "c \<in> set (held co)" "m_used_list q = removeAll c (m_used_list p)"
  shows "holders_ok (held(co := remove1 c (held co))) q"
proof -
  have own: "c' \<in> set ((held(co := remove1 c (held co))) co') \<longleftrightarrow> c' \<in> set (held co') \<and> c' \<noteq> c" for c' co'
    using assms(1,2) unfolding holders_ok_def by (cases "co' = co") (auto simp: set_remove1_eq)
  have "distinct ((held(co := remove1 c (held co))) co')" for co'
    using assms(1) by (simp add: holders_ok_def)
  then show ?thesis using assms(1,3) unfolding holders_ok_def own by auto
qed

lemma got_inv:
  assumes "thread_inv max_conn_cnt x" "pt_creating x = None" "pt_blocked x = None"
    and "(case r of (Conn c, q) \<Rightarrow> counted q \<and> c \<notin> set (m_used_list (pt_pool x)) \<and>
        m_used_list q = m_used_list (pt_pool x) @ [c] \<and> m_db_max_conn_cnt q = max_conn_cnt
      | (_, q) \<Rightarrow> q = pt_pool x)"
  shows "thread_inv max_conn_cnt (got co r x)"
  using assms holders_got [of "pt_held x" "pt_pool x"]
  by (auto simp: got_def thread_inv_def split: reply.splits prod.splits)

lemma GetDBConn_reply:
  assumes "GetDBConn fresh ret p = Some r" "counted p" "fresh \<notin> set (m_free_list p @ m_used_list p) \<or> \<not> creates p"
  shows "(case r of (Conn c, q) \<Rightarrow> counted q \<and> c \<notin> set (m_used_list p) \<and>
        m_used_list q = m_used_list p @ [c] \<and> m_db_max_conn_cnt q = m_db_max_conn_cnt p
      | (rp, q) \<Rightarrow> q = p \<and> (rp = Wait \<longrightarrow> m_free_list p = [] \<and> m_db_max_conn_cnt p \<le> m_db_cur_conn_cnt p))"
proof (cases r)
  case (Pair rp q)
  show ?thesis
  proof (cases rp)
    case (Conn c)
    then show ?thesis using GetDBConn_conn [of fresh ret p c q] assms Pair by simp
  qed (use assms(1) Pair in \<open>auto simp: GetDBConn_def take_front_def split: if_splits list.splits\<close>)
qed

lemma request_inv:
  assumes inv: "thread_inv max_conn_cnt x" and "pt_blocked x = None" "request timeout_ms fresh co x = Some y"
  shows "thread_inv max_conn_cnt y"
proof -
  let ?p = "pt_pool x"
  consider "pt_creating x \<noteq> None" | "pt_creating x = None" "creates ?p" | "pt_creating x = None" "\<not> creates ?p" by blast
  then show ?thesis
  proof cases
    case 3
    have p: "counted ?p" "m_db_max_conn_cnt ?p = max_conn_cnt" using inv by (simp_all add: thread_inv_def)
    obtain r where r: "GetDBConn fresh 0 ?p = Some r" using assms(3) 3 by (auto simp: request_def split: option.splits)
    note g = GetDBConn_reply [OF r p(1) disjI2 [OF 3(2)]]
    obtain rp q where rq: "r = (rp, q)" by fastforce
    show ?thesis
    proof (cases rp)
      case Wait
      then have w: "q = ?p" "m_free_list ?p = []" "max_conn_cnt \<le> m_db_cur_conn_cnt ?p" using g rq p(2) by simp_all
      show ?thesis
      proof (cases "timeout_ms \<le> 0")
        case True
        then have "y = x\<lparr>pt_blocked := Some (On_condition co)\<rparr>"
          using assms(3) 3 r rq Wait by (simp add: request_def)
        then show ?thesis using inv 3 w by (simp add: thread_inv_def)
      next
        case False
        then have "y = got co (Null, ?p) x"
          using assms(3) 3 r rq Wait w by (auto simp: request_def GetDBConn_woken_def)
        then show ?thesis using got_inv [OF inv 3(1) assms(2)] by simp
      qed
    qed (use assms(3) 3 r rq g p(2) got_inv [OF inv 3(1) assms(2), of r co] in \<open>simp_all add: request_def\<close>)
  qed (use assms in \<open>auto simp: request_def thread_inv_def\<close>)
qed

lemma conn_made_inv:
  assumes inv: "thread_inv max_conn_cnt x" and "pt_blocked x = None" "conn_made fresh ret co x = Some y"
    and "fresh \<notin> set (m_free_list (pt_pool x) @ m_used_list (pt_pool x))"
  shows "thread_inv max_conn_cnt y"
proof -
  let ?x = "x\<lparr>pt_creating := None\<rparr>"
  have x: "thread_inv max_conn_cnt ?x" using inv assms(2) by (simp add: thread_inv_def)
  have p: "counted (pt_pool x)" "m_db_max_conn_cnt (pt_pool x) = max_conn_cnt" using inv by (simp_all add: thread_inv_def)
  obtain r where r: "GetDBConn fresh ret (pt_pool x) = Some r" "y = got co r ?x"
    using assms(3) by (auto simp: conn_made_def)
  show ?thesis unfolding r(2)
    using GetDBConn_reply [OF r(1) p(1) disjI1 [OF assms(4)]] p(2)
    by (intro got_inv [OF x]) (auto simp: assms(2) split: reply.splits prod.splits)
qed

lemma give_up_inv:
  assumes inv: "thread_inv max_conn_cnt x" and "pt_blocked x = None" "c \<in> set (pt_held x co)"
  shows "thread_inv max_conn_cnt (give_up c co x)"
proof (cases "pt_creating x")
  case None
  let ?p = "pt_pool x"
  have p: "counted ?p" "holders_ok (pt_held x) ?p" using inv by (simp_all add: thread_inv_def)
  have used: "c \<in> set (m_used_list ?p)" using p(2) assms(3) by (auto simp: holders_ok_def)
  have "c \<notin> set (m_free_list ?p)" using p(1) used by (auto simp: counted_def pool_inv_def)
  then have rel: "m_used_list (RelDBConn c ?p) = removeAll c (m_used_list ?p)"
    "m_free_list (RelDBConn c ?p) = m_free_list ?p @ [c]"
    "m_db_cur_conn_cnt (RelDBConn c ?p) = m_db_cur_conn_cnt ?p"
    "m_db_max_conn_cnt (RelDBConn c ?p) = m_db_max_conn_cnt ?p"
    "m_abort_request (RelDBConn c ?p) = m_abort_request ?p" by (simp_all add: RelDBConn_def)
  have "length (removeAll c (m_used_list ?p)) + 1 = length (m_used_list ?p)"
    using length_removeAll_distinct [OF _ used] p(1) by (simp add: counted_def pool_inv_def)
  then have "counted (RelDBConn c ?p)" using p(1) rel RelDBConn_inv [OF _ used] by (auto simp: counted_def)
  then show ?thesis using inv None assms(2) rel holders_released [OF p(2) assms(3) rel(1)]
    by (simp add: thread_inv_def give_up_def)
next
  case (Some co')
  then show ?thesis using inv by (simp add: thread_inv_def give_up_def)
qed

lemma blocked_stuck:
  assumes "thread_inv max_conn_cnt x" "pt_blocked x \<noteq> None"
  shows "\<not> thread_step x y"
  using assms by (auto simp: thread_inv_def counted_def wait_over_def elim!: thread_step.cases)

lemma thread_step_inv: "thread_step x y \<Longrightarrow> thread_inv max_conn_cnt x \<Longrightarrow> thread_inv max_conn_cnt y"
proof (induction rule: thread_step.induct)
  case (locked x co)
  then show ?case using blocked_stuck thread_step.locked [OF locked(1,2)] by blast
next
  case (woken x co r)
  then show ?case using blocked_stuck thread_step.woken [OF woken(1-3)] by blast
qed (auto intro: request_inv conn_made_inv give_up_inv)

lemma thread_reach_inv: "thread_reach max_conn_cnt x \<Longrightarrow> thread_inv max_conn_cnt x"
proof (induction rule: thread_reach.induct)
  case (start a b)
  then have "pool_inv (CDBPool_ctor max_conn_cnt [(a, 0), (b, 0)])" by (intro CDBPool_ctor_inv) simp
  then show ?case
    by (simp add: thread_inv_def counted_def holders_ok_def CDBPool_ctor_def Init_pool_def SetCDBPoolParams_def)
next
  case (step x y)
  then show ?case using thread_step_inv by blast
qed

section \<open>Properties\<close>

lemma all_in_use:
  assumes "counted p" "m_db_max_conn_cnt p = max_conn_cnt"
  shows "m_free_list p = [] \<and> max_conn_cnt \<le> m_db_cur_conn_cnt p \<longleftrightarrow>
    int (length (m_used_list p)) = max 2 max_conn_cnt"
proof -
  have n: "int (length (m_free_list p)) + int (length (m_used_list p)) = m_db_cur_conn_cnt p"
    "2 \<le> m_db_cur_conn_cnt p" "m_db_cur_conn_cnt p \<le> max 2 max_conn_cnt"
    using assms by (auto simp: counted_def pool_inv_def)
  show ?thesis
  proof (cases "m_free_list p = []")
    case False
    then have "0 < length (m_free_list p)" by simp
    with n show ?thesis using False by linarith
  qed (use n in auto)
qed

lemma request_blocks:
  assumes inv: "thread_inv max_conn_cnt x" and "pt_blocked x = None"
  shows "\<exists>y. request timeout_ms fresh co x = Some y \<and>
    (pt_blocked y \<noteq> None \<longleftrightarrow> pt_creating x \<noteq> None \<or>
       timeout_ms \<le> 0 \<and> int (length (m_used_list (pt_pool x))) = max 2 max_conn_cnt)"
proof -
  let ?p = "pt_pool x"
  have p: "counted ?p" "m_db_max_conn_cnt ?p = max_conn_cnt" "\<not> m_abort_request ?p"
    using inv by (simp_all add: thread_inv_def counted_def)
  note use = all_in_use [OF p(1,2), symmetric]
  show ?thesis
  proof (cases "pt_creating x = None")
    case True
    have "m_free_list ?p \<noteq> [] \<Longrightarrow> \<exists>c q. take_front ?p = Some (Conn c, q)"
      by (auto simp: take_front_def neq_Nil_conv)
    then show ?thesis
      unfolding use using True assms(2) p(2,3)
      by (cases "m_free_list ?p = []") (auto simp: request_def creates_def GetDBConn_def GetDBConn_woken_def got_def)
  qed (simp add: request_def)
qed

text \<open>C29: the pool blocks the server. In every state that the coroutines of the thread reach, each connection in
  use belongs to one coroutine. A request stops the thread exactly when another coroutine is suspended in the
  middle of making a connection, as it holds the mutex, or when as many connections are in use as the pool may
  have and the caller waits without a time-out (a wait with one only holds the thread up for that time). And once the thread is stopped no step of it is
  possible any more: what it waits for can only be given back by coroutines of the same thread.\<close>

theorem pool_blocks_thread:
  assumes "thread_reach max_conn_cnt x"
  shows "(pt_blocked x \<noteq> None \<longrightarrow> (\<forall>y. \<not> thread_step x y)) \<and>
    (\<forall>c \<in> set (m_used_list (pt_pool x)). \<exists>!co. c \<in> set (pt_held x co)) \<and>
    (pt_blocked x = None \<longrightarrow>
       (\<exists>y. request timeout_ms fresh co x = Some y \<and>
          (pt_blocked y \<noteq> None \<longleftrightarrow> pt_creating x \<noteq> None \<or>
             timeout_ms \<le> 0 \<and> int (length (m_used_list (pt_pool x))) = max 2 max_conn_cnt)))"
proof -
  note inv = thread_reach_inv [OF assms]
  have "holders_ok (pt_held x) (pt_pool x)" using inv by (simp add: thread_inv_def)
  then have "\<forall>c \<in> set (m_used_list (pt_pool x)). \<exists>!co. c \<in> set (pt_held x co)"
    unfolding holders_ok_def by blast
  then show ?thesis using blocked_stuck [OF inv] request_blocks [OF inv] by blast
qed

text \<open>With the configured maximum of 4 connections three clients are enough, each of which asks for one connection
  only: two take the connections of the start, the third begins to make another one and is suspended,
  and the first cannot give its connection back.\<close>

lemma three_clients_block:
  "\<exists>x :: (nat, nat) pool_thread. thread_reach 4 x \<and> pt_blocked x = Some (On_mutex 0) \<and>
     pt_creating x = Some 2 \<and> pt_held x = (\<lambda>_. [])(0 := [1], 1 := [2])"
proof -
  let ?p = "\<lparr>m_free_list = [1, 2], m_used_list = [], m_db_cur_conn_cnt = 2, m_db_max_conn_cnt = 4, m_abort_request = False\<rparr>"
  let ?x0 = "\<lparr>pt_pool = ?p, pt_held = \<lambda>_. [], pt_creating = None, pt_blocked = None\<rparr> :: (nat, nat) pool_thread"
  have "CDBPool_ctor 4 [(1 :: nat, 0), (2, 0)] = ?p"
    by (simp add: CDBPool_ctor_def Init_pool_def SetCDBPoolParams_def)
  then have r0: "thread_reach 4 ?x0" using thread_reach.start [of "1 :: nat" 2 4] by simp
  let ?x1 = "?x0\<lparr>pt_pool := ?p\<lparr>m_free_list := [2], m_used_list := [1]\<rparr>, pt_held := (\<lambda>_. [])(0 := [1])\<rparr>"
  have "thread_step ?x0 ?x1"
    by (rule thread_step.request [where co = 0 and timeout_ms = 0 and fresh = 9])
      (simp_all add: request_def creates_def GetDBConn_def take_front_def got_def)
  with r0 have r1: "thread_reach 4 ?x1" by (rule thread_reach.step)
  let ?x2 = "?x0\<lparr>pt_pool := ?p\<lparr>m_free_list := [], m_used_list := [1, 2]\<rparr>, pt_held := (\<lambda>_. [])(0 := [1], 1 := [2])\<rparr>"
  have "thread_step ?x1 ?x2"
    by (rule thread_step.request [where co = 1 and timeout_ms = 0 and fresh = 9])
      (simp_all add: request_def creates_def GetDBConn_def take_front_def got_def)
  with r1 have r2: "thread_reach 4 ?x2" by (rule thread_reach.step)
  let ?x3 = "?x2\<lparr>pt_creating := Some 2\<rparr>"
  have "thread_step ?x2 ?x3"
    by (rule thread_step.request [where co = 2 and timeout_ms = 0 and fresh = 9])
      (simp_all add: request_def creates_def)
  with r2 have r3: "thread_reach 4 ?x3" by (rule thread_reach.step)
  have "thread_step ?x3 (give_up 1 0 ?x3)" by (rule thread_step.release) simp_all
  with r3 have "thread_reach 4 (give_up 1 0 ?x3)" by (rule thread_reach.step)
  moreover have "give_up 1 0 ?x3 = ?x3\<lparr>pt_blocked := Some (On_mutex 0)\<rparr>" by (simp add: give_up_def)
  ultimately show ?thesis by (intro exI [of _ "give_up 1 0 ?x3"]) simp
qed

theorem pool_blocks_thread_witness:
  "\<exists>x :: (nat, nat) pool_thread. pt_blocked x = Some (On_mutex 0) \<and> pt_held x 0 = [1] \<and> pt_held x 2 = [] \<and>
     (\<forall>y. \<not> thread_step x y)"
proof -
  obtain x :: "(nat, nat) pool_thread" where x: "thread_reach 4 x" "pt_blocked x = Some (On_mutex 0)"
    "pt_held x = (\<lambda>_. [])(0 := [1], 1 := [2])" using three_clients_block by blast
  have "\<forall>y. \<not> thread_step x y" using pool_blocks_thread [OF x(1), of 0 9 0] x(2) by blast
  with x(2,3) show ?thesis by (intro exI [of _ x]) simp
qed

end
