(* ===== verification/Co_Poll.thy ===== *)
theory Co_Poll
  imports Event_Loop
begin

text \<open>
  \<open>co_poll_inner\<close> of \<open>src/coroutine/co_routine.cpp\<close>: a coroutine registers the descriptors of a
  poll with epoll, links the poll into the timeout ring, yields, and cleans up when it is resumed.
  The kernel (\<open>epoll_ctl\<close>), the plain poll function and what happens while the coroutine is
  suspended are parameters.
\<close>

section \<open>Data\<close>

record pollfd =
  fd :: int
  events :: short
  fd_revents :: short

datatype ctl_op = EPOLL_CTL_ADD | EPOLL_CTL_DEL

text \<open>\<open>epoll_ctl\<close> on a kernel state: the operation, the descriptor, the event (its pointer and
  mask), giving the return value and \<open>errno\<close>.\<close>

type_synonym ('n, 'k) epoll_ctl = "ctl_op \<Rightarrow> int \<Rightarrow> 'n \<times> u32 \<Rightarrow> 'k \<Rightarrow> (int \<times> int) \<times> 'k"

abbreviation "EPERM \<equiv> (1 :: int)"
abbreviation "INT_MAX \<equiv> (2147483647 :: int)"

section \<open>Setting a poll up\<close>

text \<open>The \<open>memset\<close> of a timeout item: null links and callbacks, no expiry.\<close>

definition zero_item ::
  "'n \<Rightarrow> ('n, 'co, 'z) stCoEpoll_scheme \<Rightarrow> ('n, 'co, 'z) stCoEpoll_scheme" where
  "zero_item n s =
     s\<lparr>lnk := set_plink n None (set_prev n None (set_next n None (lnk s))),
       ullExpireTime := (ullExpireTime s)(n := 0), pfnPrepare := (pfnPrepare s)(n := False),
       pfnProcess := (pfnProcess s)(n := False), bTimeout := (bTimeout s)(n := False)\<rparr>"

text \<open>Lines 932 to 953: the poll itself, zeroed, with its callback and its coroutine.\<close>

definition init_poll ::
  "'n \<Rightarrow> 'co \<Rightarrow> ('n, 'co, 'z) stCoEpoll_scheme \<Rightarrow> ('n, 'co, 'z) stCoEpoll_scheme" where
  "init_poll arg self s =
     (let s1 = zero_item arg s
      in s1\<lparr>iAllEventDetach := (iAllEventDetach s1)(arg := False),
            iRaiseCnt := (iRaiseCnt s1)(arg := 0),
            pfnProcess := (pfnProcess s1)(arg := True), pArg := (pArg s1)(arg := self)\<rparr>)"

text \<open>One poll item, zeroed and pointed at its poll.\<close>

definition init_poll_item ::
  "'n \<Rightarrow> 'n \<Rightarrow> ('n, 'co, 'z) stCoEpoll_scheme \<Rightarrow> ('n, 'co, 'z) stCoEpoll_scheme" where
  "init_poll_item arg item s =
     (let s1 = zero_item item s
      in s1\<lparr>pPoll := (pPoll s1)(item := arg), pfnPrepare := (pfnPrepare s1)(item := True),
            revents := (revents s1)(item := 0)\<rparr>)"

text \<open>The loop over the descriptors. The flag is set when the call falls back to the plain poll:
  a single descriptor that epoll refuses with \<open>EPERM\<close>.\<close>

fun add_events ::
  "('n, 'k) epoll_ctl \<Rightarrow> bool \<Rightarrow> nat \<Rightarrow> 'n \<Rightarrow> ('n \<times> pollfd) list \<Rightarrow>
   ('n, 'co, 'z) stCoEpoll_scheme \<Rightarrow> 'k \<Rightarrow> bool \<times> ('n, 'co, 'z) stCoEpoll_scheme \<times> 'k" where
  "add_events ctl has_pollfunc nfds arg [] s k = (False, s, k)"
| "add_events ctl has_pollfunc nfds arg ((item, f) # rest) s k =
     (let s1 = init_poll_item arg item s
      in if -1 < fd f
         then (case ctl EPOLL_CTL_ADD (fd f) (item, PollEvent2Epoll (events f)) k of
                 ((ret, errno), k1) \<Rightarrow>
                   if ret < 0 \<and> errno = EPERM \<and> nfds = 1 \<and> has_pollfunc then (True, s1, k1)
                   else add_events ctl has_pollfunc nfds arg rest s1 k1)
         else add_events ctl has_pollfunc nfds arg rest s1 k)"

text \<open>The loop that unregisters the descriptors and copies the events that were raised.\<close>

fun del_events ::
  "('n, 'k) epoll_ctl \<Rightarrow> ('n \<times> pollfd) list \<Rightarrow> ('n, 'co, 'z) stCoEpoll_scheme \<Rightarrow> 'k \<Rightarrow>
   pollfd list \<times> 'k" where
  "del_events ctl [] s k = ([], k)"
| "del_events ctl ((item, f) # rest) s k =
     (let k1 = (if -1 < fd f
                then snd (ctl EPOLL_CTL_DEL (fd f) (item, PollEvent2Epoll (events f)) k) else k);
          (fs, k2) = del_events ctl rest s k1
      in (f\<lparr>fd_revents := revents s item\<rparr> # fs, k2))"

section \<open>The call\<close>

text \<open>
  \<open>arg\<close> and \<open>items\<close> are the addresses the allocator returns. \<open>None\<close> is a crash: a zero timeout
  with no poll function, or a suspended coroutine that is never resumed.
\<close>

definition co_poll_inner ::
  "('n, 'k) epoll_ctl \<Rightarrow> (pollfd list \<Rightarrow> int \<Rightarrow> 'k \<Rightarrow> (int \<times> pollfd list) \<times> 'k) option \<Rightarrow>
   (('n, 'co, 'z) stCoEpoll_scheme \<Rightarrow> 'k \<Rightarrow> (('n, 'co, 'z) stCoEpoll_scheme \<times> 'k) option) \<Rightarrow>
   'n \<Rightarrow> 'n list \<Rightarrow> 'co \<Rightarrow> u64 \<Rightarrow> pollfd list \<Rightarrow> int \<Rightarrow> ('n, 'co, 'z) stCoEpoll_scheme \<Rightarrow> 'k \<Rightarrow>
   (int \<times> pollfd list \<times> ('n, 'co, 'z) stCoEpoll_scheme \<times> 'k) option" where
  "co_poll_inner ctl pollfunc co_yield arg items self now fds timeout s k =
     (if timeout = 0 then
        (case pollfunc of
           None \<Rightarrow> None
         | Some p \<Rightarrow> (case p fds timeout k of ((ret, fds'), k') \<Rightarrow> Some (ret, fds', s, k')))
      else
        (let timeout1 = (if timeout < 0 then INT_MAX else timeout);
             s1 = init_poll arg self s
         in case add_events ctl (pollfunc \<noteq> None) (length fds) arg (zip items fds) s1 k of
              (True, s2, k2) \<Rightarrow>
                (case the pollfunc fds timeout1 k2 of ((ret, fds'), k') \<Rightarrow> Some (ret, fds', s2, k'))
            | (False, s2, k2) \<Rightarrow>
                (let s3 = s2\<lparr>ullExpireTime := (ullExpireTime s2)(arg := now + of_int timeout1)\<rparr>
                 in case AddTimeout arg now s3 of
                      (ret, s4) \<Rightarrow>
                        Option.bind
                          (if ret \<noteq> 0 then Some (-1, s4, k2)
                           else map_option (\<lambda>(s5, k5). (iRaiseCnt s5 arg, s5, k5)) (co_yield s4 k2))
                          (\<lambda>(iRaise, s5, k5).
                             map_option
                               (\<lambda>l. (case del_events ctl (zip items fds) s5 k5 of
                                       (fds', k6) \<Rightarrow> (iRaise, fds', s5\<lparr>lnk := l\<rparr>, k6)))
                               (RemoveFromLink arg (lnk s5))))))"

definition co_poll ::
  "('n, 'k) epoll_ctl \<Rightarrow>
   (('n, 'co, 'z) stCoEpoll_scheme \<Rightarrow> 'k \<Rightarrow> (('n, 'co, 'z) stCoEpoll_scheme \<times> 'k) option) \<Rightarrow>
   'n \<Rightarrow> 'n list \<Rightarrow> 'co \<Rightarrow> u64 \<Rightarrow> pollfd list \<Rightarrow> int \<Rightarrow> ('n, 'co, 'z) stCoEpoll_scheme \<Rightarrow> 'k \<Rightarrow>
   (int \<times> pollfd list \<times> ('n, 'co, 'z) stCoEpoll_scheme \<times> 'k) option" where
  "co_poll ctl = co_poll_inner ctl None"

section \<open>Lemmas\<close>

lemma init_poll_item_lnk:
  "lnk (init_poll_item arg i s) = set_plink i None (set_prev i None (set_next i None (lnk s)))"
  "iItemSize (init_poll_item arg i s) = iItemSize s" "ullStart (init_poll_item arg i s) = ullStart s"
  "llStartIdx (init_poll_item arg i s) = llStartIdx s"
  "iRaiseCnt (init_poll_item arg i s) = iRaiseCnt s"
  "iAllEventDetach (init_poll_item arg i s) = iAllEventDetach s"
  "ullExpireTime (init_poll_item arg i s) = (ullExpireTime s)(i := 0)"
  by (simp_all add: init_poll_item_def zero_item_def Let_def)

text \<open>Registering links no item: the lists and the ring stay as they were.\<close>

lemma add_events_represents:
  assumes "represents (lnk s) L" "\<forall>i \<in> set (map fst ifs). \<forall>k. i \<notin> set (L k)"
    and "add_events ctl p nfds arg ifs s k = (b, t, k')"
  shows "represents (lnk t) L \<and> ullStart t = ullStart s \<and> iItemSize t = iItemSize s \<and>
    llStartIdx t = llStartIdx s \<and> (\<forall>n. n \<notin> fst ` set ifs \<longrightarrow> ullExpireTime t n = ullExpireTime s n)"
  using assms
proof (induction ifs arbitrary: s k)
  case (Cons x ifs)
  obtain i f where x: "x = (i, f)" by (cases x)
  let ?s = "init_poll_item arg i s"
  have r: "represents (lnk ?s) L" using Cons.prems(1,2) represents_zeroed [of "lnk s" L i]
    by (simp add: init_poll_item_lnk x)
  have "b \<and> t = ?s \<or> (\<exists>k1. add_events ctl p nfds arg ifs ?s k1 = (b, t, k'))"
    using Cons.prems(3) x by (auto simp: Let_def split: prod.splits if_splits)
  then consider "t = ?s" | k1 where "add_events ctl p nfds arg ifs ?s k1 = (b, t, k')" by blast
  then show ?case
  proof cases
    case 1
    with r show ?thesis by (simp add: init_poll_item_lnk x)
  next
    case 2
    with Cons.IH [OF r _ 2] Cons.prems(2) show ?thesis by (auto simp: init_poll_item_lnk x)
  qed
qed simp

lemma del_events_revents:
  "del_events ctl ifs s k = (fs, k') \<Longrightarrow> fs = map (\<lambda>(i, f). f\<lparr>fd_revents := revents s i\<rparr>) ifs"
  by (induction ctl ifs s k arbitrary: fs rule: del_events.induct)
    (auto simp: Let_def split: prod.splits)

text \<open>What the kernel documents: a removal takes exactly its descriptor out of the set.\<close>

definition removes :: "('n, 'k) epoll_ctl \<Rightarrow> ('k \<Rightarrow> int set) \<Rightarrow> bool" where
  "removes ctl watched \<longleftrightarrow>
     (\<forall>d ev k. watched (snd (ctl EPOLL_CTL_DEL d ev k)) = watched k - {d})"

lemma del_events_watched:
  assumes "removes ctl watched"
  shows "watched (snd (del_events ctl ifs s k)) = watched k - {d \<in> fd ` snd ` set ifs. -1 < d}"
  using assms
proof (induction ctl ifs s k rule: del_events.induct)
  case (2 ctl item f rest s k)
  let ?k = "if -1 < fd f then snd (ctl EPOLL_CTL_DEL (fd f) (item, PollEvent2Epoll (events f)) k) else k"
  have k1: "watched ?k = watched k - (if -1 < fd f then {fd f} else {})"
    using "2.prems" by (simp add: removes_def)
  have "snd (del_events ctl ((item, f) # rest) s k) = snd (del_events ctl rest s ?k)"
    by (simp add: Let_def split: prod.split)
  with "2.IH" [OF refl "2.prems"] k1 show ?case by auto
qed simp

lemma ring_inv_transfer:
  assumes "ring_inv s L" "represents (lnk t) L" "iItemSize t = iItemSize s" "ullStart t = ullStart s"
    "llStartIdx t = llStartIdx s" "\<And>n k. n \<in> set (L k) \<Longrightarrow> ullExpireTime t n = ullExpireTime s n"
  shows "ring_inv t L"
proof -
  have sl: "slot_at t d = slot_at s d" for d using assms(3,5) by (simp add: slot_at_def)
  note I = ring_invD [OF assms(1)]
  have "uint (ullStart s) + d \<le> uint (ullExpireTime t n)"
    if "0 \<le> d" "d < iItemSize s" "n \<in> set (L (slot_at s d))" for d n
    using I(7) [OF that] assms(6) [OF that(3)] by simp
  then show ?thesis using I assms(2-5) unfolding ring_inv_def sl by simp
qed

lemma init_poll_sel:
  "lnk (init_poll arg self s) = set_plink arg None (set_prev arg None (set_next arg None (lnk s)))"
  "iItemSize (init_poll arg self s) = iItemSize s" "ullStart (init_poll arg self s) = ullStart s"
  "llStartIdx (init_poll arg self s) = llStartIdx s"
  "ullExpireTime (init_poll arg self s) = (ullExpireTime s)(arg := 0)"
  by (simp_all add: init_poll_def zero_item_def Let_def)

text \<open>The state a poll has set up just before \<open>AddTimeout\<close>.\<close>

lemma poll_setup:
  assumes inv: "ring_inv s L" and fresh: "\<forall>n \<in> insert arg (set items). \<forall>k. n \<notin> set (L k)"
    and add: "add_events ctl p nfds arg (zip items fds) (init_poll arg self s) k = (b, t, k')"
  shows "ring_inv (t\<lparr>ullExpireTime := (ullExpireTime t)(arg := e)\<rparr>) L \<and> ullStart t = ullStart s"
proof -
  let ?s = "init_poll arg self s"
  have r: "represents (lnk ?s) L"
    using represents_zeroed [OF ring_invD(1) [OF inv]] fresh by (simp add: init_poll_sel)
  have "\<forall>i \<in> set (map fst (zip items fds)). \<forall>k. i \<notin> set (L k)"
    using fresh by (auto dest: set_zip_leftD)
  note t = add_events_represents [OF r this add]
  show ?thesis
  proof
    show "ring_inv (t\<lparr>ullExpireTime := (ullExpireTime t)(arg := e)\<rparr>) L"
    proof (rule ring_inv_transfer [OF inv])
      show "ullExpireTime (t\<lparr>ullExpireTime := (ullExpireTime t)(arg := e)\<rparr>) n = ullExpireTime s n"
        if "n \<in> set (L j)" for n j
      proof -
        have "n \<noteq> arg" using fresh that by blast
        moreover have "n \<notin> fst ` set (zip items fds)"
          using fresh that by (auto dest: set_zip_leftD)
        ultimately show ?thesis using t by (simp add: init_poll_sel)
      qed
    qed (use t in \<open>simp_all add: init_poll_sel\<close>)
  qed (use t in \<open>simp add: init_poll_sel\<close>)
qed

lemma add_events_no_fallback: "add_events ctl False nfds arg ifs s k = (b, t, k') \<Longrightarrow> \<not> b"
  by (induction ctl False nfds arg ifs s k rule: add_events.induct)
    (auto simp: Let_def split: prod.splits if_splits)

lemma AddTimeout_started:
  assumes "AddTimeout n now s = (0, t)"
  shows "slot_at (started now t) (distance (started now t) n) =
    slot_at (started now s) (distance (started now s) n)"
  using assms
  by (auto simp: AddTimeout_def Let_def started_def slot_at_def distance_def split: if_splits)

text \<open>A suspended poll: the poll is in a slot of a well-formed ring, with its expiry.\<close>

definition suspended ::
  "'n \<Rightarrow> int \<Rightarrow> ('n, 'co, 'z) stCoEpoll_scheme \<Rightarrow> (link_id \<Rightarrow> 'n list) \<Rightarrow> bool" where
  "suspended arg e s L \<longleftrightarrow> ring_inv s L \<and> uint (ullExpireTime s arg) = e \<and>
     (\<exists>i. arg \<in> set (L (Slot i)))"

lemma co_poll_finish:
  assumes "represents (lnk s) L" "removes ctl watched" "length items = length fds"
  shows "\<exists>l fds' k'. RemoveFromLink arg (lnk s) = Some l \<and>
    del_events ctl (zip items fds) s k = (fds', k') \<and>
    represents l (\<lambda>j. remove1 arg (L j)) \<and> (\<forall>j. arg \<notin> set (remove1 arg (L j))) \<and>
    watched k' = watched k - {d \<in> fd ` set fds. -1 < d} \<and>
    fds' = map2 (\<lambda>i f. f\<lparr>fd_revents := revents s i\<rparr>) items fds"
proof -
  obtain l where l: "RemoveFromLink arg (lnk s) = Some l" "represents l (\<lambda>j. remove1 arg (L j))"
    using links.remove_any [OF assms(1)] by blast
  obtain fds' k' where d: "del_events ctl (zip items fds) s k = (fds', k')" by force
  have "snd ` set (zip items fds) = set fds" using assms(3) by (metis list.set_map map_snd_zip)
  then have "watched k' = watched k - {d \<in> fd ` set fds. -1 < d}"
    using del_events_watched [OF assms(2), of "zip items fds" s k] d by simp
  moreover have "\<forall>j. arg \<notin> set (remove1 arg (L j))" using links.rep_distinct [OF assms(1)] by simp
  ultimately show ?thesis using l d del_events_revents [OF d] by auto
qed

text \<open>A poll up to its yield, and after it: \<open>u\<close> is the state it is suspended in.\<close>

lemma co_poll_run:
  fixes s :: "('n, 'co, 'z) stCoEpoll_scheme"
  assumes "ring_inv s L" "clock_ok now s" "now \<noteq> 0" "timeout \<noteq> 0" "timeout \<le> INT_MAX"
    and "uint now + INT_MAX < 2 ^ 62" "length items = length fds"
    and "\<forall>n \<in> insert arg (set items). \<forall>k. n \<notin> set (L k)" "removes ctl watched"
  obtains t2 k2 u j where
    "add_events ctl False (length fds) arg (zip items fds) (init_poll arg self s) k = (False, t2, k2)"
    and "u = (started now t2)\<lparr>lnk := AddTail (Slot j) arg (lnk t2),
      ullExpireTime := (ullExpireTime t2)(arg := now + of_int (if timeout < 0 then INT_MAX else timeout))\<rparr>"
    and "Slot j = slot_at (started now u) (distance (started now u) arg)" "ullStart u = ullStart (started now s)"
    and "suspended arg (uint now + (if timeout < 0 then INT_MAX else timeout)) u (L(Slot j := L (Slot j) @ [arg]))"
    and "\<forall>co_yield. co_yield u k2 = None \<longrightarrow> co_poll ctl co_yield arg items self now fds timeout s k = None"
    and "\<forall>co_yield v q' N. co_yield u k2 = Some (v, q') \<longrightarrow> represents (lnk v) N \<longrightarrow>
      (\<exists>t k'. co_poll ctl co_yield arg items self now fds timeout s k =
        Some (iRaiseCnt v arg, map2 (\<lambda>i f. f\<lparr>fd_revents := revents v i\<rparr>) items fds, t, k') \<and>
      represents (lnk t) (\<lambda>j. remove1 arg (N j)) \<and> (\<forall>j. arg \<notin> set (remove1 arg (N j))) \<and>
      watched k' = watched q' - {d \<in> fd ` set fds. -1 < d})"
proof -
  let ?to = "if timeout < 0 then INT_MAX else timeout" and ?e = "now + of_int (if timeout < 0 then INT_MAX else timeout)"
  obtain b t2 k2 where add: "add_events ctl False (length fds) arg (zip items fds) (init_poll arg self s) k =
      (b, t2, k2)" by (metis prod_cases3)
  have b: "\<not> b" by (rule add_events_no_fallback [OF add])
  let ?s3 = "t2\<lparr>ullExpireTime := (ullExpireTime t2)(arg := ?e)\<rparr>"
  have s3: "ring_inv ?s3 L" "ullStart ?s3 = ullStart s"
    using poll_setup [OF assms(1,8) add] by auto
  have to: "0 < ?to" "?to \<le> INT_MAX" using assms(4,5) by auto
  have e: "uint ?e = uint now + ?to"
    using assms(6) to uint_of_int_u64 [of ?to] by (subst uint_add_small_u64) auto
  then have ex: "now \<le> ullExpireTime ?s3 arg" "uint (ullExpireTime ?s3 arg) < 2 ^ 62"
    using assms(6) to by (simp_all add: word_le_def)
  have st: "ullStart (started now ?s3) = ullStart (started now s)" using s3(2) by (auto simp: started_def)
  have clk: "uint now < 2 ^ 62" "ullStart (started now ?s3) \<le> now" "ullStart (started now ?s3) \<noteq> 0"
    using assms(2,3) s3(2) by (auto simp: clock_ok_def started_def)
  have fresh: "\<forall>k. arg \<notin> set (L k)" using assms(8) by blast
  obtain j where j: "slot_at (started now ?s3) (distance (started now ?s3) arg) = Slot j"
    by (simp add: slot_at_def)
  define u where "u = (started now ?s3)\<lparr>lnk := AddTail (Slot j) arg (lnk ?s3)\<rparr>"
  have u: "AddTimeout arg now ?s3 = (0, u)"
    using AddTimeout_links [OF s3(1) clk(1,2) ex] by (simp add: u_def j)
  then have inv: "ring_inv u (L(Slot j := L (Slot j) @ [arg]))"
    using AddTimeout_inv [OF s3(1) clk(1,2) ex fresh clk(3)] by (simp add: j)
  show ?thesis
  proof (rule that)
    show "add_events ctl False (length fds) arg (zip items fds) (init_poll arg self s) k = (False, t2, k2)"
      using add b by simp
    show "u = (started now t2)\<lparr>lnk := AddTail (Slot j) arg (lnk t2), ullExpireTime := (ullExpireTime t2)(arg := ?e)\<rparr>"
      by (simp add: u_def started_def)
    show "Slot j = slot_at (started now u) (distance (started now u) arg)"
      using AddTimeout_started [OF u] j by simp
    show "ullStart u = ullStart (started now s)" using st by (simp add: u_def)
    show "suspended arg (uint now + ?to) u (L(Slot j := L (Slot j) @ [arg]))"
      using inv e unfolding suspended_def by (auto simp: u_def)
    show "\<forall>co_yield. co_yield u k2 = None \<longrightarrow> co_poll ctl co_yield arg items self now fds timeout s k = None"
      using assms(4) add b u
      by (cases "timeout < 0") (simp_all add: co_poll_def co_poll_inner_def Let_def)
    have "\<exists>t k'. co_poll ctl co_yield arg items self now fds timeout s k =
          Some (iRaiseCnt v arg, map2 (\<lambda>i f. f\<lparr>fd_revents := revents v i\<rparr>) items fds, t, k') \<and>
        represents (lnk t) (\<lambda>j. remove1 arg (N j)) \<and> (\<forall>j. arg \<notin> set (remove1 arg (N j))) \<and>
        watched k' = watched q' - {d \<in> fd ` set fds. -1 < d}"
      if v: "co_yield u k2 = Some (v, q')" "represents (lnk v) N" for co_yield v q' N
    proof -
      obtain l fds' k' where f: "RemoveFromLink arg (lnk v) = Some l"
        "del_events ctl (zip items fds) v q' = (fds', k')" "represents l (\<lambda>j. remove1 arg (N j))"
        "\<forall>j. arg \<notin> set (remove1 arg (N j))" "watched k' = watched q' - {d \<in> fd ` set fds. -1 < d}"
        "fds' = map2 (\<lambda>i f. f\<lparr>fd_revents := revents v i\<rparr>) items fds"
        using co_poll_finish [OF v(2) assms(9,7)] by blast
      have "co_poll ctl co_yield arg items self now fds timeout s k = Some (iRaiseCnt v arg, fds', v\<lparr>lnk := l\<rparr>, k')"
        using assms(4) add b u v(1) f(1,2)
        by (cases "timeout < 0") (simp_all add: co_poll_def co_poll_inner_def Let_def)
      with f show ?thesis by (intro exI [of _ "v\<lparr>lnk := l\<rparr>"] exI [of _ k']) simp
    qed
    then show "\<forall>co_yield v q' N. co_yield u k2 = Some (v, q') \<longrightarrow> represents (lnk v) N \<longrightarrow>
      (\<exists>t k'. co_poll ctl co_yield arg items self now fds timeout s k =
        Some (iRaiseCnt v arg, map2 (\<lambda>i f. f\<lparr>fd_revents := revents v i\<rparr>) items fds, t, k') \<and>
      represents (lnk t) (\<lambda>j. remove1 arg (N j)) \<and> (\<forall>j. arg \<notin> set (remove1 arg (N j))) \<and>
      watched k' = watched q' - {d \<in> fd ` set fds. -1 < d})"
      by (intro allI impI)
  qed
qed

section \<open>Properties\<close>

text \<open>C13
  \<open>co_poll\<close> with a non-zero timeout suspends the coroutine with its poll in the slot of a well-formed
  timeout ring and the expiry \<open>now + timeout\<close> (\<open>INT_MAX\<close> for a negative timeout). Whenever it is
  resumed after that, it returns the number of raised events, gives back for every descriptor the
  events that were recorded for it, and leaves no trace: the poll, whose memory is freed, is in no
  list of a well-formed store, and epoll watches none of the descriptors.\<close>

theorem co_poll_suspends_and_cleans:
  fixes s :: "('n, 'co, 'z) stCoEpoll_scheme"
  assumes "ring_inv s L" "clock_ok now s" "now \<noteq> 0" "timeout \<noteq> 0" "timeout \<le> INT_MAX"
    and "uint now + INT_MAX < 2 ^ 62" "length items = length fds"
    and "\<forall>n \<in> insert arg (set items). \<forall>k. n \<notin> set (L k)" "removes ctl watched"
    and wakes: "\<And>u q M. suspended arg (uint now + (if timeout < 0 then INT_MAX else timeout)) u M \<Longrightarrow>
      \<exists>v q' N. co_yield u q = Some (v, q') \<and> represents (lnk v) N"
  shows "\<exists>u q v q' N t k'. co_yield u q = Some (v, q') \<and> represents (lnk v) N \<and>
    suspended arg (uint now + (if timeout < 0 then INT_MAX else timeout)) u
      (let j = slot_at (started now u) (distance (started now u) arg) in L(j := L j @ [arg])) \<and>
    co_poll ctl co_yield arg items self now fds timeout s k =
      Some (iRaiseCnt v arg, map2 (\<lambda>i f. f\<lparr>fd_revents := revents v i\<rparr>) items fds, t, k') \<and>
    represents (lnk t) (\<lambda>j. remove1 arg (N j)) \<and> (\<forall>j. arg \<notin> set (remove1 arg (N j))) \<and>
    watched k' = watched q' - {d \<in> fd ` set fds. -1 < d}"
proof -
  obtain t2 k2 u j where
    "add_events ctl False (length fds) arg (zip items fds) (init_poll arg self s) k = (False, t2, k2)"
    "u = (started now t2)\<lparr>lnk := AddTail (Slot j) arg (lnk t2),
      ullExpireTime := (ullExpireTime t2)(arg := now + of_int (if timeout < 0 then INT_MAX else timeout))\<rparr>"
    and u: "Slot j = slot_at (started now u) (distance (started now u) arg)"
    "ullStart u = ullStart (started now s)"
    "suspended arg (uint now + (if timeout < 0 then INT_MAX else timeout)) u (L(Slot j := L (Slot j) @ [arg]))"
    and "\<forall>co_yield. co_yield u k2 = None \<longrightarrow> co_poll ctl co_yield arg items self now fds timeout s k = None"
    and run: "\<forall>co_yield v q' N. co_yield u k2 = Some (v, q') \<longrightarrow> represents (lnk v) N \<longrightarrow>
      (\<exists>t k'. co_poll ctl co_yield arg items self now fds timeout s k =
        Some (iRaiseCnt v arg, map2 (\<lambda>i f. f\<lparr>fd_revents := revents v i\<rparr>) items fds, t, k') \<and>
      represents (lnk t) (\<lambda>j. remove1 arg (N j)) \<and> (\<forall>j. arg \<notin> set (remove1 arg (N j))) \<and>
      watched k' = watched q' - {d \<in> fd ` set fds. -1 < d})"
    by (rule co_poll_run [OF assms(1-9), of self k])
  obtain v q' N where v: "co_yield u k2 = Some (v, q')" "represents (lnk v) N"
    using wakes [OF u(3)] by blast
  obtain t k' where "co_poll ctl co_yield arg items self now fds timeout s k =
        Some (iRaiseCnt v arg, map2 (\<lambda>i f. f\<lparr>fd_revents := revents v i\<rparr>) items fds, t, k')"
    "represents (lnk t) (\<lambda>j. remove1 arg (N j))" "\<forall>j. arg \<notin> set (remove1 arg (N j))"
    "watched k' = watched q' - {d \<in> fd ` set fds. -1 < d}"
    using run [rule_format, of co_yield v q' N, OF v] by blast
  with u(1,3) v show ?thesis
    by (intro exI [of _ u] exI [of _ k2] exI [of _ v] exI [of _ q'] exI [of _ N]
        exI [of _ t] exI [of _ k']) (simp add: Let_def)
qed

text \<open>A poll that \<open>AddTimeout\<close> refuses because the clock is behind the start of the ring returns \<open>-1\<close>
  without yielding, with the lists as they were and none of its descriptors left in epoll.\<close>

theorem co_poll_refused:
  fixes s :: "('n, 'co, 'z) stCoEpoll_scheme"
  assumes "ring_inv s L" "ullStart s \<noteq> 0" "now < ullStart s" "timeout \<noteq> 0"
    and "length items = length fds"
    and "\<forall>n \<in> insert arg (set items). \<forall>k. n \<notin> set (L k)" "removes ctl watched"
  shows "\<exists>fds' t k'. co_poll ctl co_yield arg items self now fds timeout s k = Some (-1, fds', t, k') \<and>
    represents (lnk t) L \<and> watched k' \<inter> {d \<in> fd ` set fds. -1 < d} = {}"
proof -
  let ?e = "now + of_int (if timeout < 0 then INT_MAX else timeout)"
  obtain b t2 k2 where add: "add_events ctl False (length fds) arg (zip items fds) (init_poll arg self s) k =
      (b, t2, k2)" by (metis prod_cases3)
  have b: "\<not> b" by (rule add_events_no_fallback [OF add])
  let ?s3 = "t2\<lparr>ullExpireTime := (ullExpireTime t2)(arg := ?e)\<rparr>"
  have s3: "ring_inv ?s3 L" "ullStart ?s3 = ullStart s"
    using poll_setup [OF assms(1,6) add] by auto
  have ret: "AddTimeout arg now ?s3 = (390, ?s3)"
    using AddTimeout_errors(1) [of now ?s3 arg] s3(2) assms(2,3) by (simp add: started_def)
  have eq: "(\<lambda>j. remove1 arg (L j)) = L" using assms(6) by (auto simp: fun_eq_iff remove1_idem)
  obtain l fds' k' where f: "RemoveFromLink arg (lnk ?s3) = Some l"
    "del_events ctl (zip items fds) ?s3 k2 = (fds', k')" "represents l L"
    "watched k' = watched k2 - {d \<in> fd ` set fds. -1 < d}"
    using co_poll_finish [OF ring_invD(1) [OF s3(1)] assms(7,5), of arg k2, unfolded eq] by blast
  have "co_poll ctl co_yield arg items self now fds timeout s k = Some (-1, fds', ?s3\<lparr>lnk := l\<rparr>, k')"
    using assms(4) add b ret f(1,2)
    by (cases "timeout < 0") (simp_all add: co_poll_def co_poll_inner_def Let_def)
  moreover have "represents (lnk (?s3\<lparr>lnk := l\<rparr>)) L" using f(3) by simp
  moreover have "watched k' \<inter> {d \<in> fd ` set fds. -1 < d} = {}" using f(4) by auto
  ultimately show ?thesis by blast
qed

section \<open>Concrete runs\<close>

text \<open>A kernel that keeps the set of watched descriptors, and a coroutine that is resumed with
  the state it left.\<close>

fun demo_ctl :: "(nat, int set) epoll_ctl" where
  "demo_ctl EPOLL_CTL_ADD d ev k = ((0, 0), insert d k)"
| "demo_ctl EPOLL_CTL_DEL d ev k = ((0, 0), k - {d})"

lemma demo_removes: "removes demo_ctl id"
  by (simp add: removes_def)

abbreviation "demo_fds \<equiv> [\<lparr>fd = 9, events = POLLIN, fd_revents = 0\<rparr>]"

theorem co_poll_suspends_and_cleans_witness:
  "\<exists>r fds' t k'. co_poll demo_ctl (\<lambda>u q. Some (u, q)) 7 [8] (3 :: nat) 1002 demo_fds 20 demo_loop {4} =
     Some (r, fds', t, k') \<and> 9 \<notin> k'"
proof -
  have clk: "clock_ok 1002 demo_loop" by (simp add: clock_ok_def started_def demo_loop_def)
  have fresh: "\<forall>n \<in> insert 7 (set [8]). \<forall>k. n \<notin> set (demo_lists k)" by (simp add: demo_lists_def)
  have "\<exists>v q' N. Some (u, q) = Some (v, q') \<and> represents (lnk v) N"
    if "suspended (7 :: nat) e u M" for u :: "(nat, nat) stCoEpoll" and q :: "int set" and M e
    using that ring_invD(1) [of u M] by (auto simp: suspended_def)
  then obtain r fds' t k' N where
    "co_poll demo_ctl (\<lambda>u q. Some (u, q)) 7 [8] (3 :: nat) 1002 demo_fds 20 demo_loop {4} =
       Some (r, fds', t, k')" "id k' = N - {d \<in> fd ` set demo_fds. -1 < d}"
    using co_poll_suspends_and_cleans [OF demo_loop_inv clk _ _ _ _ _ fresh demo_removes,
      of 20 demo_fds "\<lambda>u q. Some (u, q)" 3 "{4}"]
    by (simp add: id_def) blast
  then show ?thesis by fastforce
qed

theorem co_poll_refused_witness:
  "\<exists>fds' t k'. co_poll demo_ctl (\<lambda>_ _. None) 7 [8] (3 :: nat) 900 demo_fds 20 demo_loop {4} =
     Some (-1, fds', t, k') \<and> represents (lnk t) demo_lists \<and> 9 \<notin> k'"
proof -
  have fresh: "\<forall>n \<in> insert 7 (set [8]). \<forall>k. n \<notin> set (demo_lists k)" by (simp add: demo_lists_def)
  have "ullStart demo_loop \<noteq> 0" "900 < ullStart demo_loop" by (simp_all add: demo_loop_def)
  from co_poll_refused [OF demo_loop_inv this _ _ fresh demo_removes,
      of 20 demo_fds "\<lambda>_ _. None" 3 "{4}"]
  obtain fds' t k' where
    "co_poll demo_ctl (\<lambda>_ _. None) 7 [8] (3 :: nat) 900 demo_fds 20 demo_loop {4} = Some (-1, fds', t, k')"
    "represents (lnk t) demo_lists" "id k' \<inter> {d \<in> fd ` set demo_fds. -1 < d} = {}"
    by auto
  then show ?thesis by fastforce
qed

end
