(* ===== verification/Poll_Loop.thy ===== *)
theory Poll_Loop
  imports Co_Poll
begin

text \<open>
  \<open>co_poll_inner\<close> on top of \<open>co_eventloop\<close> (\<open>src/coroutine/co_routine.cpp\<close>). Between its yield and
  its resume a polling coroutine sees the loop run: events are reported, timeouts are collected and
  other coroutines are resumed, until it is its own turn. The lemmas follow the poll through these
  iterations; the property states what \<open>co_poll\<close> returns at the end.
\<close>

section \<open>The loop until a coroutine is resumed\<close>

text \<open>One item of the active list: the coroutine \<open>self\<close> goes on (\<open>True\<close>), or another one runs.\<close>

definition serve ::
  "'co \<Rightarrow> ('co \<Rightarrow> ('n, 'co, 'z) stCoEpoll_scheme \<Rightarrow> ('n, 'co, 'z) stCoEpoll_scheme option) \<Rightarrow> 'n \<Rightarrow>
   ('n, 'co, 'z) stCoEpoll_scheme \<Rightarrow> (bool \<times> ('n, 'co, 'z) stCoEpoll_scheme) option" where
  "serve self resume lp s =
     (if pfnProcess s lp \<and> pArg s lp = self
      then Some (True, s\<lparr>proc_log := proc_log s @ [(lp, bTimeout s lp, ullExpireTime s lp)]\<rparr>)
      else map_option (Pair False) (process_item resume lp s))"

text \<open>The processing of the active list up to the resume of \<open>self\<close>, or to its end (\<open>False\<close>).\<close>

partial_function (option) active_until ::
  "'co \<Rightarrow> ('co \<Rightarrow> ('n, 'co, 'z) stCoEpoll_scheme \<Rightarrow> ('n, 'co, 'z) stCoEpoll_scheme option) \<Rightarrow> u64 \<Rightarrow>
   ('n, 'co, 'z) stCoEpoll_scheme \<Rightarrow> (bool \<times> ('n, 'co, 'z) stCoEpoll_scheme) option" where
  "active_until self resume now s =
     (case lhead (lnk s) ActiveList of
        None \<Rightarrow> Some (False, s)
      | Some lp \<Rightarrow>
          (let s1 = s\<lparr>lnk := PopHead ActiveList (lnk s)\<rparr>
           in if bTimeout s1 lp \<and> now < ullExpireTime s1 lp
              then
                (case AddTimeout lp now s1 of
                   (ret, s2) \<Rightarrow>
                     if ret = 0
                     then active_until self resume now (s2\<lparr>bTimeout := (bTimeout s2)(lp := False)\<rparr>)
                     else Option.bind (serve self resume lp s2)
                            (\<lambda>(b, t). if b then Some (True, t) else active_until self resume now t))
              else Option.bind (serve self resume lp s1)
                     (\<lambda>(b, t). if b then Some (True, t) else active_until self resume now t)))"

text \<open>The iterations of the loop: what \<open>epoll_wait\<close> reports in each and the time it is. \<open>None\<close> is a
  crash or an iteration that does not end.\<close>

fun loop_until ::
  "'co \<Rightarrow> ('co \<Rightarrow> ('n, 'co, 'z) stCoEpoll_scheme \<Rightarrow> ('n, 'co, 'z) stCoEpoll_scheme option) \<Rightarrow>
   (('n \<times> u32) list \<times> u64) list \<Rightarrow> ('n, 'co, 'z) stCoEpoll_scheme \<Rightarrow>
   (bool \<times> ('n, 'co, 'z) stCoEpoll_scheme) option" where
  "loop_until self resume [] s = Some (False, s)"
| "loop_until self resume ((es, now) # waits) s =
     Option.bind (collect_active es now s) (\<lambda>s1.
     Option.bind (active_until self resume now s1) (\<lambda>(b, t).
       if b then Some (True, t) else loop_until self resume waits t))"

text \<open>The yield of the polling coroutine: the iteration of time \<open>tick\<close> goes on with the rest of its active
  list, further iterations follow, and the yield comes back when the loop resumes the coroutine.
  \<open>during\<close> is what the others do to epoll in the meantime.\<close>

definition yield_to_loop ::
  "'co \<Rightarrow> ('co \<Rightarrow> ('n, 'co, 'z) stCoEpoll_scheme \<Rightarrow> ('n, 'co, 'z) stCoEpoll_scheme option) \<Rightarrow> u64 \<Rightarrow>
   (('n \<times> u32) list \<times> u64) list \<Rightarrow> ('k \<Rightarrow> 'k) \<Rightarrow> ('n, 'co, 'z) stCoEpoll_scheme \<Rightarrow> 'k \<Rightarrow>
   (('n, 'co, 'z) stCoEpoll_scheme \<times> 'k) option" where
  "yield_to_loop self resume tick waits during s k =
     Option.bind (active_until self resume tick s) (\<lambda>(b, t).
     Option.bind (if b then Some (True, t) else loop_until self resume waits t) (\<lambda>(b, t).
       if b then Some (t, during k) else None))"

section \<open>The split loop is the loop\<close>

text \<open>With \<open>self\<close> resumed by \<open>continue\<close> the processing of the active list is the processing up to
  its turn, the run of \<open>self\<close>, and the rest.\<close>

lemma process_item_serve:
  "process_item (resume(self := continue)) lp s =
     Option.bind (serve self resume lp s) (\<lambda>(b, t). if b then continue t else Some t)"
  by (cases "process_item resume lp s") (auto simp: process_item_def serve_def)

lemma process_active_ends:
  assumes "process_active r now s = Some t" "r = resume(self := continue)"
  shows "\<exists>b v. active_until self resume now s = Some (b, v)"
  using assms
proof (induction rule: process_active.raw_induct [rotated, consumes 1, case_names 1])
  case (1 pa r now s t)
  note r = "1.prems"
  have goon: "\<exists>b v. Option.bind (serve self resume n u)
      (\<lambda>(b, t). if b then Some (True, t) else active_until self resume now t) = Some (b, v)"
    if "Option.bind (process_item r n u) (pa r now) = Some t" for n u
    using that "1.IH" r unfolding r process_item_serve
    by (cases "serve self resume n u")
      (fastforce simp: Option.bind_eq_Some_conv simp del: fun_upd_apply split: if_splits)+
  show ?case
    using "1.hyps" "1.IH" r goon
    by (subst active_until.simps)
      (auto simp: Let_def simp del: fun_upd_apply split: option.splits prod.splits if_splits)
qed

lemma active_until_process:
  assumes "active_until self resume now s = Some w"
  shows "process_active (resume(self := continue)) now s =
    (case w of (b, v) \<Rightarrow> if b then Option.bind (continue v) (process_active (resume(self := continue)) now)
     else Some v)"
  using assms
proof (induction rule: active_until.raw_induct [rotated, consumes 1, case_names 1])
  case (1 au self resume now s w)
  have goon: "Option.bind (process_item (resume(self := continue)) n u) (process_active (resume(self := continue)) now) =
      (case w of (b, v) \<Rightarrow> if b then Option.bind (continue v) (process_active (resume(self := continue)) now)
       else Some v)"
    if "Option.bind (serve self resume n u) (\<lambda>(b, t). if b then Some (True, t) else au self resume now t) = Some w" for n u
    using that "1.IH" unfolding process_item_serve
    by (cases "serve self resume n u"; cases w) (auto simp del: fun_upd_apply split: if_splits)
  show ?case
    using "1.hyps" "1.IH" goon
    by (subst process_active.simps)
      (auto simp: Let_def simp del: fun_upd_apply split: option.splits prod.splits if_splits)
qed

lemma process_active_split:
  "process_active (resume(self := continue)) now s =
     Option.bind (active_until self resume now s) (\<lambda>(b, v).
       if b then Option.bind (continue v) (process_active (resume(self := continue)) now) else Some v)"
proof (cases "active_until self resume now s")
  case None
  then show ?thesis using process_active_ends [OF _ refl, of resume self continue now s]
    by (cases "process_active (resume(self := continue)) now s") auto
qed (auto simp: active_until_process)

text \<open>Cutting the processing of the active list at the turn of one coroutine loses nothing: the loop that
  resumes \<open>self\<close> by some code is the loop up to its turn, that code, and the rest of the loop, also
  where one of them crashes or does not end.\<close>

theorem loop_split:
  "process_active (resume(self := continue)) now s =
     Option.bind (active_until self resume now s) (\<lambda>(b, v).
       if b then Option.bind (continue v) (process_active (resume(self := continue)) now) else Some v)"
  by (rule process_active_split)

section \<open>What the poll relies on\<close>

text \<open>
  \<open>P\<close> are the poll items epoll knows. They have their callback, those of this poll and no others
  point to it, and nothing else that could be processed would resume the polling coroutine.
\<close>

definition poll_env ::
  "'co \<Rightarrow> 'n \<Rightarrow> 'n set \<Rightarrow> 'n set \<Rightarrow> ('n, 'co, 'z) stCoEpoll_scheme \<Rightarrow> bool" where
  "poll_env self arg I P s \<longleftrightarrow>
     (\<forall>i \<in> P. pfnPrepare s i \<and> (pPoll s i = arg \<longleftrightarrow> i \<in> I)) \<and>
     (\<forall>n. pfnProcess s n \<and> pArg s n = self \<longrightarrow> n = arg) \<and> (\<forall>n. uint (ullExpireTime s n) < 2 ^ 62)"

text \<open>The poll is as it was, its mark apart.\<close>

definition same_poll ::
  "'n \<Rightarrow> 'n set \<Rightarrow> ('n, 'co, 'z) stCoEpoll_scheme \<Rightarrow> ('n, 'co, 'z) stCoEpoll_scheme \<Rightarrow> bool" where
  "same_poll arg I s t \<longleftrightarrow> ullExpireTime t arg = ullExpireTime s arg \<and> pfnProcess t arg = pfnProcess s arg \<and>
     pArg t arg = pArg s arg \<and> iRaiseCnt t arg = iRaiseCnt s arg \<and>
     iAllEventDetach t arg = iAllEventDetach s arg \<and> (\<forall>i \<in> I. revents t i = revents s i)"

lemma same_poll_refl [simp]: "same_poll arg I s s"
  by (simp add: same_poll_def)

lemma same_poll_trans: "same_poll arg I s t \<Longrightarrow> same_poll arg I t u \<Longrightarrow> same_poll arg I s u"
  by (simp add: same_poll_def)

text \<open>The other coroutines yield, and leave the poll alone: it stays in the list it is in.\<close>

definition others ::
  "('z \<Rightarrow> nat) \<Rightarrow> 'co \<Rightarrow> 'n \<Rightarrow> 'n set \<Rightarrow> 'n set \<Rightarrow>
   ('co \<Rightarrow> ('n, 'co, 'z) stCoEpoll_scheme \<Rightarrow> ('n, 'co, 'z) stCoEpoll_scheme option) \<Rightarrow> bool" where
  "others pot self arg I P resume \<longleftrightarrow> (\<forall>now. now \<noteq> 0 \<longrightarrow> yields pot now resume) \<and>
     (\<forall>co s t L M. co \<noteq> self \<and> resume co s = Some t \<and> represents (lnk s) L \<and> represents (lnk t) M \<and>
        poll_env self arg I P s \<longrightarrow>
        poll_env self arg I P t \<and> same_poll arg I s t \<and> bTimeout t arg = bTimeout s arg \<and>
        (\<forall>k. arg \<in> set (M k) \<longleftrightarrow> arg \<in> set (L k)))"

lemma poll_env_cong:
  "pfnPrepare t = pfnPrepare s \<Longrightarrow> pPoll t = pPoll s \<Longrightarrow> pfnProcess t = pfnProcess s \<Longrightarrow>
   pArg t = pArg s \<Longrightarrow> ullExpireTime t = ullExpireTime s \<Longrightarrow>
   poll_env self arg I P t = poll_env self arg I P s"
  by (simp add: poll_env_def)

lemma process_item_other:
  assumes O: "others pot self arg I P resume" and inv: "loop_inv now s L" and nz: "now \<noteq> 0"
    and env: "poll_env self arg I P s" and n: "n \<noteq> arg"
  shows "\<exists>t M woken. serve self resume n s = Some (False, t) \<and> loop_inv now t M \<and>
    M ActiveList = L ActiveList @ woken \<and> M TimeoutList = L TimeoutList \<and>
    pot (stCoEpoll.more t) + length woken \<le> pot (stCoEpoll.more s) \<and>
    poll_env self arg I P t \<and> same_poll arg I s t \<and> bTimeout t arg = bTimeout s arg \<and>
    (\<forall>k. arg \<in> set (M k) \<longleftrightarrow> arg \<in> set (L k))"
proof -
  have Y: "yields pot now resume" using O nz by (simp add: others_def)
  obtain t M woken where t: "process_item resume n s = Some t" "loop_inv now t M"
    "M ActiveList = L ActiveList @ woken" "M TimeoutList = L TimeoutList"
    "pot (stCoEpoll.more t) + length woken \<le> pot (stCoEpoll.more s)"
    using process_item_spec [OF Y inv, of n] by blast
  have noself: "\<not> (pfnProcess s n \<and> pArg s n = self)" using env n by (auto simp: poll_env_def)
  note rs = ring_invD(1) [OF loop_invD(1) [OF inv]] and rt = ring_invD(1) [OF loop_invD(1) [OF t(2)]]
  have "poll_env self arg I P t \<and> same_poll arg I s t \<and> bTimeout t arg = bTimeout s arg \<and>
      (\<forall>k. arg \<in> set (M k) \<longleftrightarrow> arg \<in> set (L k))"
  proof (cases "pfnProcess s n")
    case True
    let ?s = "s\<lparr>proc_log := proc_log s @ [(n, bTimeout s n, ullExpireTime s n)]\<rparr>"
    have "resume (pArg s n) ?s = Some t" "pArg s n \<noteq> self" using t(1) True noself by (auto simp: process_item_def)
    moreover have "poll_env self arg I P ?s" using env by (simp add: poll_env_def)
    moreover have "represents (lnk ?s) L" using rs by simp
    ultimately have "poll_env self arg I P t \<and> same_poll arg I ?s t \<and> bTimeout t arg = bTimeout ?s arg \<and>
        (\<forall>k. arg \<in> set (M k) \<longleftrightarrow> arg \<in> set (L k))"
      using O rt unfolding others_def by blast
    then show ?thesis by (simp add: same_poll_def)
  next
    case False
    then have "t = s" using t(1) by (simp add: process_item_def)
    moreover from this have "M = L" using links.rep_fun rs rt by blast
    ultimately show ?thesis using env by simp
  qed
  moreover have "serve self resume n s = Some (False, t)" using noself t(1) by (auto simp: serve_def)
  ultimately show ?thesis using t(2-5) by blast
qed

section \<open>The poll in the active list\<close>

lemma active_until_done:
  "loop_inv now s L \<Longrightarrow> L ActiveList = [] \<Longrightarrow> active_until self resume now s = Some (False, s)"
  using represents_lhead [OF ring_invD(1) [OF loop_invD(1)], of now s L ActiveList]
  by (simp add: active_until.simps)

lemma active_until_head:
  assumes "loop_inv now s L" "L ActiveList = n # ns"
  shows "active_until self resume now s =
    (let s1 = s\<lparr>lnk := PopHead ActiveList (lnk s)\<rparr>
     in if rearms now s n
        then (case AddTimeout n now s1 of
                (ret, s2) \<Rightarrow>
                  if ret = 0
                  then active_until self resume now (s2\<lparr>bTimeout := (bTimeout s2)(n := False)\<rparr>)
                  else Option.bind (serve self resume n s2)
                         (\<lambda>(b, t). if b then Some (True, t) else active_until self resume now t))
        else Option.bind (serve self resume n s1)
               (\<lambda>(b, t). if b then Some (True, t) else active_until self resume now t))"
proof -
  have "lhead (lnk s) ActiveList = Some n"
    using represents_lhead [OF ring_invD(1) [OF loop_invD(1) [OF assms(1)]], of ActiveList] assms(2)
    by simp
  then show ?thesis by (subst active_until.simps) (simp add: Let_def rearms_def)
qed

text \<open>What is true of the poll while the active list is processed: it is in the active list or in a slot
  of the ring; in the ring it is not marked.\<close>

definition poll_linked :: "'co \<Rightarrow> 'n \<Rightarrow> ('n, 'co, 'z) stCoEpoll_scheme \<Rightarrow> (link_id \<Rightarrow> 'n list) \<Rightarrow> bool" where
  "poll_linked self arg s L \<longleftrightarrow> pfnProcess s arg \<and> pArg s arg = self \<and>
     (arg \<in> set (L ActiveList) \<or> (\<exists>i. arg \<in> set (L (Slot i)) \<and> \<not> bTimeout s arg))"

text \<open>The result of the processing: the poll has been reached, or it waits in the ring.\<close>

definition poll_served ::
  "'co \<Rightarrow> 'n \<Rightarrow> 'n set \<Rightarrow> 'n set \<Rightarrow> u64 \<Rightarrow> bool \<Rightarrow> ('n, 'co, 'z) stCoEpoll_scheme \<Rightarrow>
   (link_id \<Rightarrow> 'n list) \<Rightarrow> bool" where
  "poll_served self arg I P now b t M \<longleftrightarrow>
     (if b then represents (lnk t) M
      else loop_inv now t M \<and> M ActiveList = [] \<and> M TimeoutList = [] \<and> poll_env self arg I P t \<and>
        (\<exists>i. arg \<in> set (M (Slot i)) \<and> \<not> bTimeout t arg))"

text \<open>An item at the head whose time has not come goes back into the ring, unmarked.\<close>

lemma active_until_rearm:
  assumes inv: "loop_inv now s L" and L: "L ActiveList = n # ns" and r: "rearms now s n" and nz: "now \<noteq> 0"
  shows "\<exists>i l. let u = s\<lparr>lnk := l, bTimeout := (bTimeout s)(n := False)\<rparr> in
    loop_inv now u (L(ActiveList := ns, Slot i := L (Slot i) @ [n])) \<and>
    active_until self resume now s = active_until self resume now u"
proof -
  let ?s = "s\<lparr>lnk := PopHead ActiveList (lnk s)\<rparr>" and ?L = "L(ActiveList := ns)"
  have "now < ullExpireTime ?s n" using r by (simp add: rearms_def)
  moreover have "uint (ullExpireTime ?s n) < 2 ^ 62" using loop_invD(4) [OF inv, of n] L by simp
  ultimately obtain i where i: "loop_inv now (snd (AddTimeout n now ?s)) (?L(Slot i := ?L (Slot i) @ [n]))"
    "AddTimeout n now ?s = (0, ?s\<lparr>lnk := AddTail (Slot i) n (lnk ?s)\<rparr>)"
    using loop_inv_rearm [OF loop_inv_pop [OF inv L] popped_fresh [OF inv L] _ _ nz] by blast
  let ?u = "s\<lparr>lnk := AddTail (Slot i) n (lnk ?s), bTimeout := (bTimeout s)(n := False)\<rparr>"
  have "loop_inv now ?u (?L(Slot i := ?L (Slot i) @ [n]))"
    by (rule loop_inv_cong [OF i(1)]) (simp_all add: i(2))
  then have "loop_inv now ?u (L(ActiveList := ns, Slot i := L (Slot i) @ [n]))" by simp
  moreover have "active_until self resume now s = active_until self resume now ?u"
    unfolding active_until_head [OF inv L] Let_def using r i(2) by simp
  ultimately show ?thesis
    by (intro exI [of _ i] exI [of _ "AddTail (Slot i) n (lnk ?s)"]) (simp add: Let_def)
qed

lemma active_until_spec:
  assumes O: "others pot self arg I P resume" and nz: "now \<noteq> 0"
    and "loop_inv now s L" "L TimeoutList = []" "poll_env self arg I P s" "poll_linked self arg s L"
  shows "\<exists>t M. let b = (arg \<in> set (L ActiveList) \<and> \<not> rearms now s arg) in
    active_until self resume now s = Some (b, t) \<and> same_poll arg I s t \<and>
    poll_served self arg I P now b t M"
  using assms(3-)
proof (induction "pot (stCoEpoll.more s) + length (L ActiveList)" arbitrary: s L rule: less_induct)
  case less
  show ?case
  proof (cases "L ActiveList")
    case Nil
    with less.prems show ?thesis
      by (intro exI [of _ s] exI [of _ L])
        (simp add: active_until_done poll_served_def poll_linked_def Let_def)
  next
    case (Cons n ns)
    let ?s = "s\<lparr>lnk := PopHead ActiveList (lnk s)\<rparr>" and ?L = "L(ActiveList := ns)"
    note inv1 = loop_inv_pop [OF less.prems(1) Cons]
    note fresh = popped_fresh [OF less.prems(1) Cons]
    note step = active_until_head [OF less.prems(1) Cons, of self resume, unfolded Let_def]
    have dist: "n \<notin> set ns" using fresh by (metis fun_upd_same)
    show ?thesis
    proof (cases "rearms now s n")
      case True
      obtain i l where u: "loop_inv now (s\<lparr>lnk := l, bTimeout := (bTimeout s)(n := False)\<rparr>)
          (L(ActiveList := ns, Slot i := L (Slot i) @ [n]))"
        "active_until self resume now s = active_until self resume now (s\<lparr>lnk := l, bTimeout := (bTimeout s)(n := False)\<rparr>)"
        using active_until_rearm [OF less.prems(1) Cons True nz] unfolding Let_def by blast
      let ?u = "s\<lparr>lnk := l, bTimeout := (bTimeout s)(n := False)\<rparr>" and ?M = "L(ActiveList := ns, Slot i := L (Slot i) @ [n])"
      have T: "?M TimeoutList = []" using less.prems(2) by simp
      have m: "pot (stCoEpoll.more ?u) + length (?M ActiveList) < pot (stCoEpoll.more s) + length (L ActiveList)"
        using Cons by simp
      have e: "poll_env self arg I P ?u" using less.prems(3) by (simp add: poll_env_def)
      have l: "poll_linked self arg ?u ?M" using less.prems(4) Cons by (auto simp: poll_linked_def)
      have b: "(arg \<in> set (?M ActiveList) \<and> \<not> rearms now ?u arg) =
          (arg \<in> set (L ActiveList) \<and> \<not> rearms now s arg)"
        using True Cons dist by (auto simp: rearms_def)
      have "same_poll arg I s ?u" by (simp add: same_poll_def)
      then show ?thesis using less.hyps [OF m u(1) T e l] u(2) unfolding b Let_def
        by (metis same_poll_trans)
    next
      case False
      show ?thesis
      proof (cases "n = arg")
        case True
        let ?t = "?s\<lparr>proc_log := proc_log s @ [(n, bTimeout s n, ullExpireTime s n)]\<rparr>"
        have "active_until self resume now s = Some (True, ?t)"
          unfolding step using False True less.prems(4) by (simp add: serve_def poll_linked_def)
        moreover have "represents (lnk ?t) ?L" using ring_invD(1) [OF loop_invD(1) [OF inv1]] by simp
        moreover have "same_poll arg I s ?t" by (simp add: same_poll_def)
        ultimately show ?thesis using False True Cons
          by (intro exI [of _ ?t] exI [of _ ?L]) (simp add: poll_served_def Let_def)
      next
        case n: False
        have env: "poll_env self arg I P ?s" using less.prems(3) by (simp add: poll_env_def)
        obtain t M woken where t: "serve self resume n ?s = Some (False, t)" "loop_inv now t M"
          "M ActiveList = ?L ActiveList @ woken" "M TimeoutList = ?L TimeoutList"
          "pot (stCoEpoll.more t) + length woken \<le> pot (stCoEpoll.more ?s)"
          "poll_env self arg I P t" "same_poll arg I ?s t" "bTimeout t arg = bTimeout ?s arg"
          "\<forall>k. arg \<in> set (M k) \<longleftrightarrow> arg \<in> set (?L k)"
          using process_item_other [OF O inv1 nz env n] by blast
        have m: "pot (stCoEpoll.more t) + length (M ActiveList) < pot (stCoEpoll.more s) + length (L ActiveList)"
          using t(3,5) Cons by simp
        have T: "M TimeoutList = []" using t(4) less.prems(2) by simp
        have same: "same_poll arg I s t" using t(7) by (simp add: same_poll_def)
        have l: "poll_linked self arg t M"
          using less.prems(4) Cons n t(8,9) same by (auto simp: poll_linked_def same_poll_def)
        have b: "(arg \<in> set (M ActiveList) \<and> \<not> rearms now t arg) =
            (arg \<in> set (L ActiveList) \<and> \<not> rearms now s arg)"
          using Cons n t(8,9) same by (auto simp: rearms_def same_poll_def)
        have "active_until self resume now s = active_until self resume now t"
          unfolding step using False t(1) by simp
        then show ?thesis using less.hyps [OF m t(2) T t(6) l] same unfolding b Let_def
          by (metis same_poll_trans)
      qed
    qed
  qed
qed

section \<open>An iteration of the loop\<close>

text \<open>The events of an iteration that belong to a set of poll items.\<close>

definition hits :: "'n set \<Rightarrow> ('n \<times> u32) list \<Rightarrow> ('n \<times> u32) list" where
  "hits I es = filter (\<lambda>(i, e). i \<in> I) es"

definition reported :: "('n \<times> u32) list \<Rightarrow> 'n \<Rightarrow> short" where
  "reported es i = (case map_of es i of None \<Rightarrow> 0 | Some e \<Rightarrow> EpollEvent2Poll e)"

lemma prepare_event_fields:
  assumes "prepare_event (i, e) s = Some t" "pfnPrepare s i"
  shows "revents t = (revents s)(i := EpollEvent2Poll e)"
    "iRaiseCnt t = (iRaiseCnt s)(pPoll s i := iRaiseCnt s (pPoll s i) + 1)"
    "iAllEventDetach t = (iAllEventDetach s)(pPoll s i := True)"
    "pfnPrepare t = pfnPrepare s" "pPoll t = pPoll s"
  using assms
  by (auto simp: prepare_event_def OnPollPreparePfn_def Let_def fun_upd_idem split: if_splits)

lemma prepare_events_fields:
  assumes "fold_opt prepare_event es s = Some t" "\<forall>(i, e) \<in> set es. pfnPrepare s i" "distinct (map fst es)"
  shows "revents t i = (case map_of es i of None \<Rightarrow> revents s i | Some e \<Rightarrow> EpollEvent2Poll e) \<and>
    iRaiseCnt t p = iRaiseCnt s p + int (length (filter (\<lambda>(i, e). pPoll s i = p) es)) \<and>
    (iAllEventDetach t p \<longleftrightarrow> iAllEventDetach s p \<or> filter (\<lambda>(i, e). pPoll s i = p) es \<noteq> [])"
  using assms
proof (induction es arbitrary: s)
  case (Cons ev es)
  obtain j e where ev: "ev = (j, e)" by (cases ev)
  obtain u where u: "prepare_event (j, e) s = Some u" "fold_opt prepare_event es u = Some t"
    using Cons.prems(1) ev by (auto split: option.splits)
  have "pfnPrepare s j" using Cons.prems(2) ev by simp
  note f = prepare_event_fields [OF u(1) this]
  have "\<forall>(i, e) \<in> set es. pfnPrepare u i" using Cons.prems(2) f(4) by auto
  note IH = Cons.IH [OF u(2) this]
  have "map_of es j = None" using Cons.prems(3) ev by (auto simp: map_of_eq_None_iff)
  with IH Cons.prems(3) show ?case by (auto simp: ev f split: option.splits)
qed simp

text \<open>A poll that waits in the ring, its coroutine suspended.\<close>

definition waiting ::
  "'co \<Rightarrow> 'n \<Rightarrow> 'n set \<Rightarrow> 'n set \<Rightarrow> int \<Rightarrow> ('n, 'co, 'z) stCoEpoll_scheme \<Rightarrow> (link_id \<Rightarrow> 'n list) \<Rightarrow> bool" where
  "waiting self arg I P e s L \<longleftrightarrow> ring_inv s L \<and> L ActiveList = [] \<and> L TimeoutList = [] \<and>
     (\<exists>i. arg \<in> set (L (Slot i))) \<and> \<not> bTimeout s arg \<and> poll_env self arg I P s \<and>
     pfnProcess s arg \<and> pArg s arg = self \<and> uint (ullExpireTime s arg) = e \<and> iRaiseCnt s arg = 0 \<and>
     \<not> iAllEventDetach s arg \<and> (\<forall>i \<in> I. revents s i = 0)"

text \<open>The poll has been answered: the number of its events and the events themselves are recorded.\<close>

definition answered ::
  "'n \<Rightarrow> 'n set \<Rightarrow> ('n \<times> u32) list \<Rightarrow> ('n, 'co, 'z) stCoEpoll_scheme \<Rightarrow> bool" where
  "answered arg I es v \<longleftrightarrow> (\<exists>N. represents (lnk v) N) \<and> iRaiseCnt v arg = int (length (hits I es)) \<and>
     (\<forall>i \<in> I. revents v i = reported es i)"

lemma collected_poll:
  assumes W: "waiting self arg I P e s L" and clk: "clock_ok now s" "now \<noteq> 0"
    and es: "fst ` set es \<subseteq> P" "distinct (map fst es)" and I: "I \<subseteq> P"
  shows "\<exists>t M. collect_active es now s = Some t \<and> loop_inv now t M \<and> M TimeoutList = [] \<and>
    poll_env self arg I P t \<and> poll_linked self arg t M \<and> ullExpireTime t arg = ullExpireTime s arg \<and>
    iRaiseCnt t arg = int (length (hits I es)) \<and> (\<forall>i \<in> I. revents t i = reported es i) \<and>
    iAllEventDetach t arg = (hits I es \<noteq> []) \<and>
    (arg \<in> set (M ActiveList) \<and> \<not> rearms now t arg \<longleftrightarrow> hits I es \<noteq> [] \<or> e \<le> uint now)"
proof -
  have W: "ring_inv s L" "L ActiveList = []" "L TimeoutList = []" "\<exists>i. arg \<in> set (L (Slot i))"
    "\<not> bTimeout s arg" "poll_env self arg I P s" "pfnProcess s arg" "pArg s arg = self"
    "uint (ullExpireTime s arg) = e" "iRaiseCnt s arg = 0" "\<not> iAllEventDetach s arg"
    "\<forall>i \<in> I. revents s i = 0"
    using assms(1) by (auto simp: waiting_def)
  let ?R = "raised (pPoll s) (iAllEventDetach s) es" and ?T = "timed_out now es s L"
  let ?D = "detach ?R L"
  let ?M = "(taken now TimeoutList (started now s) ?D)(ActiveList := ?R @ ?T, TimeoutList := [])"
  have pre: "\<forall>(i, e) \<in> set es. pfnPrepare s i" using W(6) es(1) by (force simp: poll_env_def)
  obtain s1 l x where s1: "fold_opt prepare_event es s = Some s1" "same_items s s1"
    and c: "collect_active es now s = Some (s1\<lparr>lnk := l, ullStart := now, llStartIdx := x,
      bTimeout := \<lambda>n. n \<in> set ?T \<or> bTimeout s n\<rparr>)"
    and r: "ring_inv (s1\<lparr>lnk := l, ullStart := now, llStartIdx := x,
      bTimeout := \<lambda>n. n \<in> set ?T \<or> bTimeout s n\<rparr>) ?M"
    using collect_active_spec [OF W(1-3) clk(1) pre] unfolding Let_def by blast
  let ?t = "s1\<lparr>lnk := l, ullStart := now, llStartIdx := x, bTimeout := \<lambda>n. n \<in> set ?T \<or> bTimeout s n\<rparr>"
  note si = s1(2) [unfolded same_items_def]
  have mine: "filter (\<lambda>(i, e). pPoll s i = arg) es = hits I es"
    using W(6) es(1) unfolding hits_def poll_env_def by (intro filter_cong) force+
  note f = prepare_events_fields [OF s1(1) pre es(2)]
  have R: "arg \<in> set ?R \<longleftrightarrow> hits I es \<noteq> []"
    using raised_from [of arg "pPoll s" "iAllEventDetach s" es] raised_all [of _ _ es "iAllEventDetach s" "pPoll s"] W(11)
    unfolding mine [symmetric] by (auto simp: filter_empty_conv)
  have nT: "arg \<notin> set ?T" if "arg \<in> set ?R" using raised_not_timed_out [of L, OF W(3) that] .
  have due: "arg \<in> set (?R @ ?T)" if "e \<le> uint now"
    using eventloop_serves_aux [OF W(1-3) clk(1) refl refl] W(4,9) that by (auto simp: word_le_def)
  have slot: "\<exists>j. arg \<in> set (?M (Slot j))" if nRT: "arg \<notin> set (?R @ ?T)"
  proof -
    obtain i where "arg \<in> set (?D (Slot i))" using W(4) nRT by (auto simp: detach_def)
    then obtain k where k: "arg \<in> set (taken now TimeoutList (started now s) ?D k)"
      using taken_kept [of TimeoutList arg now "started now s" ?D] by auto
    moreover have "k \<noteq> TimeoutList" using k nRT by (auto simp: timed_out_def)
    moreover have "k \<noteq> ActiveList"
      using k nRT W(2) by (auto simp: taken_def detach_def split: if_splits)
    ultimately show ?thesis by (cases k) auto
  qed
  have "loop_inv now ?t ?M" using r W(6) si by (simp add: loop_inv_def poll_env_def)
  moreover have "poll_env self arg I P ?t" using W(6) si by (simp add: poll_env_def)
  moreover have "poll_linked self arg ?t ?M"
    using slot W(5,7,8) si by (auto simp: poll_linked_def)
  moreover have "iRaiseCnt ?t arg = int (length (hits I es))" "iAllEventDetach ?t arg = (hits I es \<noteq> [])"
    using f [of _ arg] W(10,11) by (simp_all add: mine)
  moreover have "\<forall>i \<in> I. revents ?t i = reported es i"
    using f W(12) by (simp add: reported_def split: option.splits)
  moreover have "arg \<in> set (?M ActiveList) \<and> \<not> rearms now ?t arg \<longleftrightarrow> hits I es \<noteq> [] \<or> e \<le> uint now"
    using R nT due W(5,9) si by (auto simp: rearms_def word_less_def)
  ultimately show ?thesis using c si by (intro exI [of _ ?t] exI [of _ ?M]) simp
qed

lemma iteration_poll:
  assumes O: "others pot self arg I P resume" and W: "waiting self arg I P e s L"
    and clk: "clock_ok now s" "now \<noteq> 0" and es: "fst ` set es \<subseteq> P" "distinct (map fst es)" and I: "I \<subseteq> P"
  shows "\<exists>s1 b t M. collect_active es now s = Some s1 \<and> active_until self resume now s1 = Some (b, t) \<and>
    (b \<longleftrightarrow> hits I es \<noteq> [] \<or> e \<le> uint now) \<and>
    (if b then answered arg I es t else waiting self arg I P e t M \<and> ullStart t = now)"
proof -
  obtain s1 M1 where s1: "collect_active es now s = Some s1" "loop_inv now s1 M1" "M1 TimeoutList = []"
    "poll_env self arg I P s1" "poll_linked self arg s1 M1" "ullExpireTime s1 arg = ullExpireTime s arg"
    "iRaiseCnt s1 arg = int (length (hits I es))" "\<forall>i \<in> I. revents s1 i = reported es i"
    "iAllEventDetach s1 arg = (hits I es \<noteq> [])"
    "arg \<in> set (M1 ActiveList) \<and> \<not> rearms now s1 arg \<longleftrightarrow> hits I es \<noteq> [] \<or> e \<le> uint now"
    using collected_poll [OF W clk es I] by (elim exE conjE)
  let ?b = "hits I es \<noteq> [] \<or> e \<le> uint now"
  obtain t M where t: "active_until self resume now s1 = Some (?b, t)" "same_poll arg I s1 t"
    "poll_served self arg I P now ?b t M"
    using active_until_spec [OF O clk(2) s1(2-5)] s1(10) by (auto simp: Let_def)
  have "if ?b then answered arg I es t else waiting self arg I P e t M \<and> ullStart t = now"
  proof (cases ?b)
    case True
    then show ?thesis using t(2,3) s1(7,8) by (auto simp: poll_served_def answered_def same_poll_def)
  next
    case False
    then have "reported es i = 0" if "i \<in> I" for i
      using that by (auto simp: hits_def filter_empty_conv reported_def dest: map_of_SomeD split: option.split)
    then show ?thesis
      using False t(2,3) s1(5-9) W
      by (auto simp: poll_served_def waiting_def same_poll_def loop_inv_def poll_linked_def)
  qed
  with s1(1) t(1) show ?thesis by blast
qed

text \<open>The clock of the iterations: it does not step back, and not ahead by \<open>2 ^ 31\<close> milliseconds.\<close>

fun clock_runs :: "u64 \<Rightarrow> (('n \<times> u32) list \<times> u64) list \<Rightarrow> bool" where
  "clock_runs start [] = True"
| "clock_runs start ((es, now) # waits) \<longleftrightarrow> start \<le> now \<and> uint now - uint start + 1 < 2 ^ 31 \<and>
     uint now < 2 ^ 62 \<and> clock_runs now waits"

text \<open>\<open>epoll_wait\<close> reports items it knows, each once in an iteration.\<close>

definition epoll_reports :: "'n set \<Rightarrow> (('n \<times> u32) list \<times> u64) list \<Rightarrow> bool" where
  "epoll_reports P waits \<longleftrightarrow> (\<forall>(es, now) \<in> set waits. fst ` set es \<subseteq> P \<and> distinct (map fst es))"

text \<open>Nothing happens for the poll: no event of its items, and its time has not come.\<close>

definition quiet :: "'n set \<Rightarrow> int \<Rightarrow> (('n \<times> u32) list \<times> u64) list \<Rightarrow> bool" where
  "quiet I e waits \<longleftrightarrow> (\<forall>(es, now) \<in> set waits. hits I es = [] \<and> uint now < e)"

lemma loop_until_poll:
  assumes O: "others pot self arg I P resume" and I: "I \<subseteq> P"
    and "waiting self arg I P e s L" "ullStart s \<noteq> 0"
    and "clock_runs (ullStart s) (ws @ [(es, now)])" "epoll_reports P (ws @ [(es, now)])" "quiet I e ws"
    and last: "hits I es \<noteq> [] \<or> e \<le> uint now"
  shows "(\<exists>t. loop_until self resume ws s = Some (False, t)) \<and>
    (\<exists>v. loop_until self resume (ws @ (es, now) # rest) s = Some (True, v) \<and> answered arg I es v)"
  using assms(3-7)
proof (induction ws arbitrary: s L)
  case Nil
  have clk: "clock_ok now s" "now \<noteq> 0" using Nil.prems(2,3) by (auto simp: clock_ok_def started_def)
  have "fst ` set es \<subseteq> P" "distinct (map fst es)" using Nil.prems(4) by (auto simp: epoll_reports_def)
  from iteration_poll [OF O Nil.prems(1) clk this I] last show ?case by auto
next
  case (Cons w ws)
  obtain fs m where w: "w = (fs, m)" by (cases w)
  have clk: "clock_ok m s" "m \<noteq> 0" using Cons.prems(2,3) w by (auto simp: clock_ok_def started_def)
  have fs: "fst ` set fs \<subseteq> P" "distinct (map fst fs)" using Cons.prems(4) w by (auto simp: epoll_reports_def)
  have q: "\<not> (hits I fs \<noteq> [] \<or> e \<le> uint m)" using Cons.prems(5) w by (auto simp: quiet_def)
  obtain s1 t M where t: "collect_active fs m s = Some s1" "active_until self resume m s1 = Some (False, t)"
    "waiting self arg I P e t M" "ullStart t = m"
    using iteration_poll [OF O Cons.prems(1) clk fs I] q by auto
  have "ullStart t \<noteq> 0" "clock_runs (ullStart t) (ws @ [(es, now)])" "epoll_reports P (ws @ [(es, now)])" "quiet I e ws"
    using Cons.prems(3-5) w t(4) clk(2) by (auto simp: epoll_reports_def quiet_def)
  from Cons.IH [OF t(3) this] show ?case by (simp add: w t(1,2))
qed

section \<open>The poll that is set up\<close>

definition item_fields ::
  "'n \<Rightarrow> 'n set \<Rightarrow> ('n, 'co, 'z) stCoEpoll_scheme \<Rightarrow> ('n, 'co, 'z) stCoEpoll_scheme \<Rightarrow> bool" where
  "item_fields arg I s t \<longleftrightarrow> pArg t = pArg s \<and> iRaiseCnt t = iRaiseCnt s \<and> iAllEventDetach t = iAllEventDetach s \<and>
     (\<forall>n. if n \<in> I
          then pPoll t n = arg \<and> pfnPrepare t n \<and> \<not> pfnProcess t n \<and> \<not> bTimeout t n \<and> revents t n = 0 \<and>
            ullExpireTime t n = 0
          else pPoll t n = pPoll s n \<and> pfnPrepare t n = pfnPrepare s n \<and> pfnProcess t n = pfnProcess s n \<and>
            bTimeout t n = bTimeout s n \<and> revents t n = revents s n \<and> ullExpireTime t n = ullExpireTime s n)"

lemma init_poll_item_fields: "item_fields arg {i} s (init_poll_item arg i s)"
  by (simp add: item_fields_def init_poll_item_def zero_item_def Let_def)

lemma item_fields_trans: "item_fields arg {i} s t \<Longrightarrow> item_fields arg I t u \<Longrightarrow> item_fields arg (insert i I) s u"
  by (simp add: item_fields_def split: if_splits) metis

lemma add_events_fields:
  "add_events ctl p nfds arg ifs s k = (False, t, k') \<Longrightarrow> item_fields arg (fst ` set ifs) s t"
proof (induction ifs arbitrary: s k)
  case (Cons x ifs)
  obtain i f where x: "x = (i, f)" by (cases x)
  have "\<exists>k1. add_events ctl p nfds arg ifs (init_poll_item arg i s) k1 = (False, t, k')"
    using Cons.prems x by (auto simp: Let_def split: prod.splits if_splits)
  with Cons.IH have "item_fields arg (fst ` set ifs) (init_poll_item arg i s) t" by blast
  from item_fields_trans [OF init_poll_item_fields this] show ?case by (simp add: x)
qed (simp add: item_fields_def)

lemma init_poll_fields:
  "pfnProcess (init_poll arg self s) = (pfnProcess s)(arg := True)"
  "pArg (init_poll arg self s) = (pArg s)(arg := self)"
  "iRaiseCnt (init_poll arg self s) arg = 0" "\<not> iAllEventDetach (init_poll arg self s) arg"
  "bTimeout (init_poll arg self s) = (bTimeout s)(arg := False)"
  "pfnPrepare (init_poll arg self s) = (pfnPrepare s)(arg := False)"
  "pPoll (init_poll arg self s) = pPoll s"
  "ullExpireTime (init_poll arg self s) = (ullExpireTime s)(arg := 0)"
  by (simp_all add: init_poll_def zero_item_def Let_def)

text \<open>Before the poll: its memory is fresh, and the polling coroutine waits for nothing else.\<close>

definition before_poll ::
  "'co \<Rightarrow> 'n \<Rightarrow> 'n set \<Rightarrow> 'n set \<Rightarrow> ('n, 'co, 'z) stCoEpoll_scheme \<Rightarrow> bool" where
  "before_poll self arg I P s \<longleftrightarrow> arg \<notin> P \<and> I \<subseteq> P \<and>
     (\<forall>i \<in> P - I. pfnPrepare s i \<and> pPoll s i \<noteq> arg) \<and>
     (\<forall>n. n \<notin> insert arg I \<and> pfnProcess s n \<longrightarrow> pArg s n \<noteq> self) \<and>
     (\<forall>n. n \<notin> insert arg I \<longrightarrow> uint (ullExpireTime s n) < 2 ^ 62)"

lemma poll_env_setup:
  assumes B: "before_poll self arg I P s" and f: "item_fields arg I (init_poll arg self s) t"
    and e: "uint e < 2 ^ 62"
    and u: "pfnPrepare u = pfnPrepare t" "pPoll u = pPoll t" "pfnProcess u = pfnProcess t" "pArg u = pArg t"
      "ullExpireTime u = (ullExpireTime t)(arg := e)"
  shows "poll_env self arg I P u"
proof -
  have nI: "arg \<notin> I" "arg \<notin> P" using B by (auto simp: before_poll_def)
  have "pfnPrepare u i \<and> (pPoll u i = arg) = (i \<in> I)" if "i \<in> P" for i
    using B f nI that u(1,2) by (cases "i \<in> I") (auto simp: item_fields_def before_poll_def init_poll_fields)
  moreover have "n = arg" if "pfnProcess u n" "pArg u n = self" for n
    using B f nI that u(3,4)
    by (cases "n \<in> I") (auto simp: item_fields_def before_poll_def init_poll_fields split: if_splits)
  moreover have "uint (ullExpireTime u n) < 2 ^ 62" for n
    using B f nI e u(5)
    by (cases "n \<in> I") (auto simp: item_fields_def before_poll_def init_poll_fields split: if_splits)
  ultimately show ?thesis by (simp add: poll_env_def)
qed

text \<open>The suspended poll, and what is left of the iteration it was called in.\<close>

lemma poll_yields:
  fixes s :: "('n, 'co, 'z) stCoEpoll_scheme"
  assumes inv: "ring_inv s L" "L TimeoutList = []" "\<forall>n \<in> set (L ActiveList). uint (ullExpireTime s n) < 2 ^ 62"
    and ex: "uint e < 2 ^ 62" and fresh: "\<forall>n \<in> insert arg I. \<forall>k. n \<notin> set (L k)"
    and B: "before_poll self arg I P s" and O: "others pot self arg I P resume"
    and f: "item_fields arg I (init_poll arg self s) t"
    and u: "u = (started now t)\<lparr>lnk := l, ullExpireTime := (ullExpireTime t)(arg := e)\<rparr>"
    and M: "ring_inv u (L(Slot j := L (Slot j) @ [arg]))" and nz: "ullStart u \<noteq> 0"
  shows "\<exists>v N. active_until self resume (ullStart u) u = Some (False, v) \<and>
    waiting self arg I P (uint e) v N \<and> ullStart v = ullStart u"
proof -
  let ?M = "L(Slot j := L (Slot j) @ [arg])"
  have nI: "arg \<notin> I" using B by (auto simp: before_poll_def)
  have st: "pfnPrepare (started now t) = pfnPrepare t" "pPoll (started now t) = pPoll t"
    "pfnProcess (started now t) = pfnProcess t" "pArg (started now t) = pArg t"
    "iRaiseCnt (started now t) = iRaiseCnt t" "iAllEventDetach (started now t) = iAllEventDetach t"
    "bTimeout (started now t) = bTimeout t" "revents (started now t) = revents t"
    by (simp_all add: started_def)
  have env: "poll_env self arg I P u" by (rule poll_env_setup [OF B f ex]) (simp_all add: u st)
  have arg: "pfnProcess u arg" "pArg u arg = self" "\<not> bTimeout u arg" "iRaiseCnt u arg = 0"
    "\<not> iAllEventDetach u arg" "\<forall>i \<in> I. revents u i = 0" "ullExpireTime u arg = e"
    using f nI by (auto simp: u st item_fields_def init_poll_fields)
  have inv_u: "loop_inv (ullStart u) u ?M" using M env by (simp add: loop_inv_def poll_env_def)
  have notin: "arg \<notin> set (?M ActiveList)" using fresh by simp
  have T: "?M TimeoutList = []" using inv(2) by simp
  have "poll_linked self arg u ?M" using arg by (auto simp: poll_linked_def)
  from active_until_spec [OF O nz inv_u T env this] notin
  obtain v N where v: "active_until self resume (ullStart u) u = Some (False, v)" "same_poll arg I u v"
    "poll_served self arg I P (ullStart u) False v N" by (auto simp: Let_def)
  then have "waiting self arg I P (uint e) v N" "ullStart v = ullStart u"
    using arg by (auto simp: waiting_def poll_served_def same_poll_def loop_inv_def)
  with v(1) show ?thesis by blast
qed

section \<open>The answer of a poll\<close>

text \<open>When a poll that has no poll function expires.\<close>

definition poll_expiry :: "u64 \<Rightarrow> int \<Rightarrow> int" where
  "poll_expiry now timeout = uint now + (if timeout < 0 then INT_MAX else timeout)"

text \<open>
  The setting of a poll: the ring is well formed and the clock is sane, at the call and in the
  iterations \<open>ws\<close> and \<open>(es, later)\<close> that follow; the memory of the poll is fresh; the other coroutines
  behave; and in the iterations \<open>ws\<close> nothing happens for the poll.
\<close>

definition poll_scene ::
  "('n, 'k) epoll_ctl \<Rightarrow> ('k \<Rightarrow> int set) \<Rightarrow> ('z \<Rightarrow> nat) \<Rightarrow>
   ('co \<Rightarrow> ('n, 'co, 'z) stCoEpoll_scheme \<Rightarrow> ('n, 'co, 'z) stCoEpoll_scheme option) \<Rightarrow>
   'co \<Rightarrow> 'n \<Rightarrow> 'n list \<Rightarrow> 'n set \<Rightarrow> (link_id \<Rightarrow> 'n list) \<Rightarrow> u64 \<Rightarrow> int \<Rightarrow>
   (('n \<times> u32) list \<times> u64) list \<Rightarrow> ('n \<times> u32) list \<Rightarrow> u64 \<Rightarrow> ('n, 'co, 'z) stCoEpoll_scheme \<Rightarrow> bool" where
  "poll_scene ctl watched pot resume self arg items P L now timeout ws es later s \<longleftrightarrow>
     ring_inv s L \<and> L TimeoutList = [] \<and> (\<forall>n \<in> set (L ActiveList). uint (ullExpireTime s n) < 2 ^ 62) \<and>
     clock_ok now s \<and> now \<noteq> 0 \<and> timeout \<noteq> 0 \<and> timeout \<le> INT_MAX \<and> uint now + INT_MAX < 2 ^ 62 \<and>
     (\<forall>n \<in> insert arg (set items). \<forall>k. n \<notin> set (L k)) \<and> removes ctl watched \<and>
     before_poll self arg (set items) P s \<and> others pot self arg (set items) P resume \<and>
     clock_runs (ullStart (started now s)) (ws @ [(es, later)]) \<and> epoll_reports P (ws @ [(es, later)]) \<and>
     quiet (set items) (poll_expiry now timeout) ws"

lemma poll_sceneD:
  assumes "poll_scene ctl watched pot resume self arg items P L now timeout ws es later s"
  shows "ring_inv s L" "L TimeoutList = []" "\<forall>n \<in> set (L ActiveList). uint (ullExpireTime s n) < 2 ^ 62"
    "clock_ok now s" "now \<noteq> 0" "timeout \<noteq> 0" "timeout \<le> INT_MAX" "uint now + INT_MAX < 2 ^ 62"
    "\<forall>n \<in> insert arg (set items). \<forall>k. n \<notin> set (L k)" "removes ctl watched"
    "before_poll self arg (set items) P s" "others pot self arg (set items) P resume"
    "clock_runs (ullStart (started now s)) (ws @ [(es, later)])" "epoll_reports P (ws @ [(es, later)])"
    "quiet (set items) (poll_expiry now timeout) ws"
  using assms by (simp_all add: poll_scene_def)

lemma poll_answer:
  fixes s :: "('n, 'co, 'z) stCoEpoll_scheme"
  assumes "poll_scene ctl watched pot resume self arg items P L now timeout ws es later s"
    and "length items = length fds" "hits (set items) es \<noteq> [] \<or> poll_expiry now timeout \<le> uint later"
  shows "co_poll ctl (yield_to_loop self resume (ullStart (started now s)) ws during) arg items self now fds timeout s k = None \<and>
    (\<exists>t k'. co_poll ctl (yield_to_loop self resume (ullStart (started now s)) (ws @ (es, later) # rest) during)
        arg items self now fds timeout s k =
      Some (int (length (hits (set items) es)),
        map2 (\<lambda>i f. f\<lparr>fd_revents := reported es i\<rparr>) items fds, t, k'))"
proof -
  define tick where tick: "tick = ullStart (started now s)"
  define e where e0_raw: "e = poll_expiry now timeout"
  note S = poll_sceneD [OF assms(1), folded tick e0_raw]
  note e0 = e0_raw [unfolded poll_expiry_def]
  let ?to = "if timeout < 0 then INT_MAX else timeout" and ?I = "set items"
  let ?e = "now + of_int (if timeout < 0 then INT_MAX else timeout) :: u64"
  obtain t2 k2 u j where t2: "add_events ctl False (length fds) arg (zip items fds) (init_poll arg self s) k = (False, t2, k2)"
    and u: "u = (started now t2)\<lparr>lnk := AddTail (Slot j) arg (lnk t2), ullExpireTime := (ullExpireTime t2)(arg := ?e)\<rparr>"
      "Slot j = slot_at (started now u) (distance (started now u) arg)" "ullStart u = tick" "suspended arg e u (L(Slot j := L (Slot j) @ [arg]))"
    and none: "\<forall>co_yield. co_yield u k2 = None \<longrightarrow> co_poll ctl co_yield arg items self now fds timeout s k = None"
    and some: "\<forall>co_yield v q' N. co_yield u k2 = Some (v, q') \<longrightarrow> represents (lnk v) N \<longrightarrow>
      (\<exists>t k'. co_poll ctl co_yield arg items self now fds timeout s k =
        Some (iRaiseCnt v arg, map2 (\<lambda>i f. f\<lparr>fd_revents := revents v i\<rparr>) items fds, t, k') \<and>
      represents (lnk t) (\<lambda>j. remove1 arg (N j)) \<and> (\<forall>j. arg \<notin> set (remove1 arg (N j))) \<and>
      watched k' = watched q' - {d \<in> fd ` set fds. -1 < d})"
    unfolding tick e0 by (rule co_poll_run [OF S(1,4-8) assms(2) S(9,10), of self k])
  have "fst ` set (zip items fds) = ?I" using assms(2) by (metis list.set_map map_fst_zip)
  with add_events_fields [OF t2] have f: "item_fields arg ?I (init_poll arg self s) t2" by simp
  have "ullExpireTime u arg = ?e" by (simp add: u(1))
  with u(4) have e: "uint ?e = e" by (simp add: suspended_def)
  have ex: "uint ?e < 2 ^ 62" using e S(7,8) by (auto simp: e0 split: if_splits)
  have nz: "ullStart u \<noteq> 0" using u(3) S(5) by (auto simp: tick started_def)
  have M: "ring_inv u (L(Slot j := L (Slot j) @ [arg]))" using u(4) by (simp add: suspended_def)
  obtain v N where v: "active_until self resume tick u = Some (False, v)" "waiting self arg ?I P e v N" "ullStart v = tick"
    using poll_yields [OF S(1-3) ex S(9,11,12) f u(1) M nz] unfolding e u(3) by blast
  have I: "?I \<subseteq> P" using S(11) by (simp add: before_poll_def)
  obtain w x where w: "loop_until self resume ws v = Some (False, w)"
    "loop_until self resume (ws @ (es, later) # rest) v = Some (True, x)" "answered arg ?I es x"
    using loop_until_poll [OF S(12) I v(2) _ _ S(14,15) assms(3) [folded e0_raw], of rest] v(3) nz u(3) S(13) by auto
  have "yield_to_loop self resume tick ws during u k2 = None"
    by (simp add: yield_to_loop_def v(1) w(1))
  then have still: "co_poll ctl (yield_to_loop self resume tick ws during) arg items self now fds timeout s k = None"
    by (rule none [rule_format])
  have resumed: "yield_to_loop self resume tick (ws @ (es, later) # rest) during u k2 = Some (x, during k2)"
    by (simp add: yield_to_loop_def v(1) w(2))
  obtain K where K: "represents (lnk x) K" using w(3) by (auto simp: answered_def)
  have cnt: "iRaiseCnt x arg = int (length (hits ?I es))" using w(3) by (simp add: answered_def)
  have "map2 (\<lambda>i f. f\<lparr>fd_revents := revents x i\<rparr>) items fds =
      map2 (\<lambda>i f. f\<lparr>fd_revents := reported es i\<rparr>) items fds"
    using w(3) by (auto simp: answered_def dest: set_zip_leftD)
  with some [rule_format, of "yield_to_loop self resume tick (ws @ (es, later) # rest) during", OF resumed K] still
  show ?thesis unfolding cnt tick [symmetric] by auto
qed

section \<open>Property\<close>

text \<open>C3
  A poll is answered in the first iteration of the loop that reports one of its events or that comes
  at or after its expiry, and not before, however many other coroutines the loop resumes in between:
  while nothing happens for the poll its coroutine stays suspended; then \<open>co_poll\<close> returns the number
  of its items that were reported (0 at a timeout) and in every entry of the caller exactly the events
  reported for it (none at a timeout).\<close>

theorem poll_answered:
  fixes s :: "('n, 'co, 'z) stCoEpoll_scheme"
  assumes "poll_scene ctl watched pot resume self arg items P L now timeout ws es later s"
    and "length items = length fds" "hits (set items) es \<noteq> [] \<or> poll_expiry now timeout \<le> uint later"
  shows "co_poll ctl (yield_to_loop self resume (ullStart (started now s)) ws during) arg items self now fds timeout s k = None \<and>
    (\<exists>t k'. co_poll ctl (yield_to_loop self resume (ullStart (started now s)) (ws @ (es, later) # rest) during)
        arg items self now fds timeout s k =
      Some (int (length (hits (set items) es)),
        map2 (\<lambda>i f. f\<lparr>fd_revents := reported es i\<rparr>) items fds, t, k'))"
  by (rule poll_answer [OF assms])

section \<open>A concrete run\<close>

text \<open>Coroutine 7 polls a descriptor for 20 milliseconds at time 1002. At 1010 the poll of another
  coroutine is answered, at 1015 its own descriptor is readable.\<close>

lemma demo_others: "others (\<lambda>_. 0) 7 7 {8} {1, 8} (\<lambda>_ :: nat. Some :: (nat, nat) stCoEpoll \<Rightarrow> _)"
  using links.rep_fun trivial_yields by (fastforce simp: others_def)

lemma demo_scene:
  assumes "8 < timeout" "timeout \<le> INT_MAX"
  shows "poll_scene demo_ctl id (\<lambda>_. 0) (\<lambda>_. Some) 7 7 [8] {1, 8} demo_lists 1002 timeout
      [([(1, 1)], 1010)] [(8, 1)] 1015 demo_loop"
proof -
  have tick: "ullStart (started 1002 demo_loop) = 1000" by (simp add: started_def demo_loop_def)
  have "\<forall>n \<in> insert 7 (set [8]). \<forall>k. n \<notin> set (demo_lists k)" by (simp add: demo_lists_def)
  moreover have "before_poll 7 7 (set [8]) {1, 8} demo_loop" by (auto simp: before_poll_def demo_loop_def)
  moreover have "clock_ok 1002 demo_loop" by (simp add: clock_ok_def started_def demo_loop_def)
  ultimately show ?thesis
    using demo_loop_inv demo_removes demo_others assms
    by (simp add: poll_scene_def tick demo_lists_def epoll_reports_def quiet_def hits_def poll_expiry_def word_le_def)
qed

theorem poll_answered_witness:
  "co_poll demo_ctl (yield_to_loop 7 (\<lambda>_. Some) 1000 [([(1, 1)], 1010)] id) 7 [8] 7 1002 demo_fds 20 demo_loop {4} = None \<and>
   (\<exists>t k'. co_poll demo_ctl (yield_to_loop 7 (\<lambda>_. Some) 1000 [([(1, 1)], 1010), ([(8, 1)], 1015)] id)
      7 [8] 7 1002 demo_fds 20 demo_loop {4} = Some (1, [\<lparr>fd = 9, events = POLLIN, fd_revents = POLLIN\<rparr>], t, k'))"
proof -
  have tick: "ullStart (started 1002 demo_loop) = 1000" by (simp add: started_def demo_loop_def)
  have S: "poll_scene demo_ctl id (\<lambda>_. 0) (\<lambda>_. Some) 7 7 [8] {1, 8} demo_lists 1002 20
      [([(1, 1)], 1010)] [(8, 1)] 1015 demo_loop"
    by (rule demo_scene) simp_all
  have "reported [(8 :: nat, 1)] 8 = POLLIN"
    by (simp add: reported_def EpollEvent2Poll_def mask_tests)
  moreover have "hits {8 :: nat} [(8, 1)] = [(8, 1)]" by (simp add: hits_def)
  ultimately show ?thesis
    using poll_answered [OF S, of demo_fds id "{4}" "[]", unfolded tick] by simp
qed

end
