(* ===== verification/Epoll_Run.thy ===== *)
theory Epoll_Run
  imports Event_Loop
begin

text \<open>
  The loop of the server thread as a whole: the wrapper \<open>src/coroutine/co_epoll.cpp\<close> with its buffer of
  events, and \<open>co_eventloop\<close> of \<open>co_routine.cpp\<close> around the iteration of \<open>Event_Loop\<close>: the buffer is
  allocated at the first call, \<open>epoll_wait\<close> fills its front, the loop reads as many events as the return
  value says, and the callback \<open>pfn\<close> can end it. The theorem says that the buffer is never read
  beyond what the last wait has written, so that it can be left out.
\<close>

section \<open>The wrapper of epoll\<close>

text \<open>An element of the buffer: \<open>data.ptr\<close>, which is null in zeroed memory, and the event mask.\<close>

type_synonym 'n epoll_event = "'n option \<times> u32"

record 'n co_epoll_res =
  res_size :: int
  res_events :: "'n epoll_event list"

definition co_epoll_res_alloc :: "nat \<Rightarrow> 'n co_epoll_res" where
  "co_epoll_res_alloc n = \<lparr>res_size = int n, res_events = replicate n (None, 0)\<rparr>"

text \<open>The calls of the kernel on its state \<open>'k\<close>: \<open>epoll_wait\<close> on the descriptor, the number of elements and the
  timeout returns its value and the events it writes to the front of the buffer; the clock is \<open>GetTickMS\<close>.\<close>

record ('n, 'k) epoll_api =
  epoll_create :: "int \<Rightarrow> 'k \<Rightarrow> int \<times> 'k"
  epoll_wait :: "int \<Rightarrow> int \<Rightarrow> int \<Rightarrow> 'k \<Rightarrow> (int \<times> ('n \<times> u32) list) \<times> 'k"
  tick :: "'k \<Rightarrow> u64 \<times> 'k"

definition co_epoll_create :: "('n, 'k) epoll_api \<Rightarrow> int \<Rightarrow> 'k \<Rightarrow> int \<times> 'k" where
  "co_epoll_create api n k = epoll_create api n k"

text \<open>\<open>None\<close> when the kernel is told of more elements than the buffer has and writes past its end.\<close>

definition co_epoll_wait ::
  "('n, 'k) epoll_api \<Rightarrow> int \<Rightarrow> 'n co_epoll_res \<Rightarrow> int \<Rightarrow> int \<Rightarrow> 'k \<Rightarrow> (int \<times> 'n co_epoll_res \<times> 'k) option" where
  "co_epoll_wait api epfd res maxevents timeout k =
     (case epoll_wait api epfd maxevents timeout k of
        ((ret, es), k') \<Rightarrow>
          if length (res_events res) < length es then None
          else Some (ret, res\<lparr>res_events :=
                 map (\<lambda>(i, e). (Some i, e)) es @ drop (length es) (res_events res)\<rparr>, k'))"

section \<open>The loop\<close>

abbreviation (input) "EPOLL_SIZE \<equiv> (10240 :: nat)"

text \<open>What \<open>for (int i = 0; i < ret; i++)\<close> finds in the buffer; \<open>None\<close> is a read out of its bounds or a null
  item.\<close>

function read_events :: "'n co_epoll_res \<Rightarrow> int \<Rightarrow> int \<Rightarrow> ('n \<times> u32) list option" where
  "read_events res ret i =
     (if i < ret
      then if 0 \<le> i \<and> nat i < length (res_events res)
           then case res_events res ! nat i of
                  (None, e) \<Rightarrow> None
                | (Some item, e) \<Rightarrow> map_option (\<lambda>es. (item, e) # es) (read_events res ret (i + 1))
           else None
      else Some [])"
  by pat_completeness auto
termination by (relation "measure (\<lambda>(res, ret, i). nat (ret - i))") auto

declare read_events.simps [simp del]

text \<open>The state of the loop carries the kernel in its extension, as the coroutines that the loop resumes make
  system calls as well.\<close>

type_synonym ('n, 'co, 'k) lstate = "('n, 'co, 'k) stCoEpoll_scheme"

text \<open>One round up to the callback.\<close>

definition loop_round ::
  "('n, 'k) epoll_api \<Rightarrow> ('co \<Rightarrow> ('n, 'co, 'k) lstate \<Rightarrow> ('n, 'co, 'k) lstate option) \<Rightarrow> int \<Rightarrow>
    'n co_epoll_res \<Rightarrow> ('n, 'co, 'k) lstate \<Rightarrow> ('n co_epoll_res \<times> ('n, 'co, 'k) lstate) option" where
  "loop_round api resume iEpollFd res s =
     Option.bind (co_epoll_wait api iEpollFd res (int EPOLL_SIZE) 1 (stCoEpoll.more s)) (\<lambda>(ret, res1, k1).
     Option.bind (read_events res1 ret 0) (\<lambda>es.
       case tick api k1 of (now, k2) \<Rightarrow>
         map_option (Pair res1) (eventloop_iteration resume es now (stCoEpoll.more_update (\<lambda>_. k2) s))))"

text \<open>The callback: null, or a function that returns an integer and may change the state.\<close>

type_synonym ('n, 'co, 'k) pfn_co_eventloop_t = "(('n, 'co, 'k) lstate \<Rightarrow> (int \<times> ('n, 'co, 'k) lstate) option) option"

partial_function (option) eventloop_for ::
  "('n, 'k) epoll_api \<Rightarrow> ('co \<Rightarrow> ('n, 'co, 'k) lstate \<Rightarrow> ('n, 'co, 'k) lstate option) \<Rightarrow> int \<Rightarrow>
    ('n, 'co, 'k) pfn_co_eventloop_t \<Rightarrow> 'n co_epoll_res \<Rightarrow> ('n, 'co, 'k) lstate \<Rightarrow>
    ('n co_epoll_res \<times> ('n, 'co, 'k) lstate) option" where
  "eventloop_for api resume iEpollFd pfn res s =
     Option.bind (loop_round api resume iEpollFd res s) (\<lambda>(res1, t).
       case pfn of
         None \<Rightarrow> eventloop_for api resume iEpollFd pfn res1 t
       | Some f \<Rightarrow> Option.bind (f t) (\<lambda>(r, u).
           if r = - 1 then Some (res1, u) else eventloop_for api resume iEpollFd pfn res1 u))"

text \<open>\<open>result\<close> is the field of \<open>stCoEpoll_t\<close>, null until the first call.\<close>

definition co_eventloop ::
  "('n, 'k) epoll_api \<Rightarrow> ('co \<Rightarrow> ('n, 'co, 'k) lstate \<Rightarrow> ('n, 'co, 'k) lstate option) \<Rightarrow> int \<Rightarrow>
    ('n, 'co, 'k) pfn_co_eventloop_t \<Rightarrow> 'n co_epoll_res option \<Rightarrow> ('n, 'co, 'k) lstate \<Rightarrow>
    ('n co_epoll_res \<times> ('n, 'co, 'k) lstate) option" where
  "co_eventloop api resume iEpollFd pfn result s =
     eventloop_for api resume iEpollFd pfn
       (case result of None \<Rightarrow> co_epoll_res_alloc EPOLL_SIZE | Some res \<Rightarrow> res) s"

section \<open>The loop without the buffer\<close>

text \<open>The documented behaviour of \<open>epoll_wait\<close>: it returns the number of the events it has written, at most
  \<open>maxevents\<close>, or \<open>-1\<close> and writes none.\<close>

definition epoll_law :: "('n, 'k) epoll_api \<Rightarrow> bool" where
  "epoll_law api \<longleftrightarrow>
     (\<forall>epfd maxevents timeout k. 0 < maxevents \<longrightarrow>
        (case epoll_wait api epfd maxevents timeout k of
           ((ret, es), _) \<Rightarrow> ret = int (length es) \<and> ret \<le> maxevents \<or> ret = - 1 \<and> es = []))"

definition serve_round ::
  "('n, 'k) epoll_api \<Rightarrow> ('co \<Rightarrow> ('n, 'co, 'k) lstate \<Rightarrow> ('n, 'co, 'k) lstate option) \<Rightarrow> int \<Rightarrow>
    ('n, 'co, 'k) lstate \<Rightarrow> ('n, 'co, 'k) lstate option" where
  "serve_round api resume iEpollFd s =
     (case epoll_wait api iEpollFd (int EPOLL_SIZE) 1 (stCoEpoll.more s) of
        ((_, es), k1) \<Rightarrow> (case tick api k1 of
          (now, k2) \<Rightarrow> eventloop_iteration resume es now (stCoEpoll.more_update (\<lambda>_. k2) s)))"

partial_function (option) serve_for ::
  "('n, 'k) epoll_api \<Rightarrow> ('co \<Rightarrow> ('n, 'co, 'k) lstate \<Rightarrow> ('n, 'co, 'k) lstate option) \<Rightarrow> int \<Rightarrow>
    ('n, 'co, 'k) pfn_co_eventloop_t \<Rightarrow> ('n, 'co, 'k) lstate \<Rightarrow> ('n, 'co, 'k) lstate option" where
  "serve_for api resume iEpollFd pfn s =
     Option.bind (serve_round api resume iEpollFd s) (\<lambda>t.
       case pfn of
         None \<Rightarrow> serve_for api resume iEpollFd pfn t
       | Some f \<Rightarrow> Option.bind (f t) (\<lambda>(r, u).
           if r = - 1 then Some u else serve_for api resume iEpollFd pfn u))"

section \<open>The buffer\<close>

lemma read_events_front:
  assumes "res_events res = map (\<lambda>(i, e). (Some i, e)) es @ rest"
  shows "i \<le> length es \<Longrightarrow> read_events res (int (length es)) (int i) = Some (drop i es)"
proof (induction "length es - i" arbitrary: i)
  case 0
  then show ?case by (simp add: read_events.simps)
next
  case (Suc n)
  then have i: "i < length es" by simp
  obtain a e where ae: "es ! i = (a, e)" by (metis prod.collapse)
  have "read_events res (int (length es)) (int (Suc i)) = Some (drop (Suc i) es)"
    using Suc.hyps(1) [of "Suc i"] Suc.hyps(2) i by simp
  then show ?case
    using i ae Cons_nth_drop_Suc [OF i] by (subst read_events.simps) (simp add: assms nth_append add.commute)
qed

lemma read_events_none: "ret \<le> 0 \<Longrightarrow> read_events res ret 0 = Some []"
  by (simp add: read_events.simps)

text \<open>A round with a buffer of the right size is the round without it.\<close>

lemma loop_round_serves:
  assumes "epoll_law api" "length (res_events res) = EPOLL_SIZE"
  obtains res1 where "loop_round api resume fd res s = map_option (Pair res1) (serve_round api resume fd s)"
    "length (res_events res1) = EPOLL_SIZE"
proof -
  obtain ret es k1 where w: "epoll_wait api fd (int EPOLL_SIZE) 1 (stCoEpoll.more s) = ((ret, es), k1)"
    by (metis prod.collapse)
  then have law: "ret = int (length es) \<and> ret \<le> int EPOLL_SIZE \<or> ret = - 1 \<and> es = []"
    using assms(1) [unfolded epoll_law_def, rule_format, of "int EPOLL_SIZE" fd 1 "stCoEpoll.more s"] by simp
  let ?res = "res\<lparr>res_events := map (\<lambda>(i, e). (Some i, e)) es @ drop (length es) (res_events res)\<rparr>"
  have le: "length es \<le> EPOLL_SIZE" using law by auto
  have "read_events ?res ret 0 = Some es"
    using law read_events_front [of ?res es _ 0] read_events_none [of ret ?res] by auto
  then have "loop_round api resume fd res s = map_option (Pair ?res) (serve_round api resume fd s)"
    using w le assms(2) by (simp add: loop_round_def serve_round_def co_epoll_wait_def split: prod.split)
  moreover have "length (res_events ?res) = EPOLL_SIZE" using le assms(2) by simp
  ultimately show ?thesis by (rule that)
qed

lemma eventloop_for_serves:
  assumes "eventloop_for api resume fd pfn res s = Some y" "epoll_law api" "length (res_events res) = EPOLL_SIZE"
  shows "serve_for api resume fd pfn s = Some (snd y)"
  using assms
proof (induction rule: eventloop_for.raw_induct [rotated, consumes 1, case_names 1])
  case (1 loop api resume fd pfn res s y)
  obtain res1 where r: "loop_round api resume fd res s = map_option (Pair res1) (serve_round api resume fd s)"
    "length (res_events res1) = EPOLL_SIZE" using loop_round_serves [OF "1.prems"] .
  note IH = "1.IH" [OF _ "1.prems"(1) r(2)]
  obtain t where t: "serve_round api resume fd s = Some t"
    "(case pfn of None \<Rightarrow> loop api resume fd pfn res1 t
      | Some f \<Rightarrow> Option.bind (f t) (\<lambda>(r, u). if r = - 1 then Some (res1, u) else loop api resume fd pfn res1 u)) = Some y"
    using "1.hyps" r(1) by (auto simp: bind_eq_Some_conv)
  then show ?case
    by (subst serve_for.simps) (auto simp: IH bind_eq_Some_conv split: option.splits if_splits)
qed

lemma serve_for_eventloop:
  assumes "serve_for api resume fd pfn s = Some t" "epoll_law api" "length (res_events res) = EPOLL_SIZE"
  shows "\<exists>res'. eventloop_for api resume fd pfn res s = Some (res', t)"
  using assms
proof (induction arbitrary: res rule: serve_for.raw_induct [rotated, consumes 1, case_names 1])
  case (1 loop api resume fd pfn s t)
  obtain res1 where r: "loop_round api resume fd res s = map_option (Pair res1) (serve_round api resume fd s)"
    "length (res_events res1) = EPOLL_SIZE" using loop_round_serves [OF "1.prems"] .
  note IH = "1.IH" [OF _ "1.prems"(1) r(2)]
  obtain u where u: "serve_round api resume fd s = Some u"
    "(case pfn of None \<Rightarrow> loop api resume fd pfn u
      | Some f \<Rightarrow> Option.bind (f u) (\<lambda>(r, v). if r = - 1 then Some v else loop api resume fd pfn v)) = Some t"
    using "1.hyps" by (auto simp: bind_eq_Some_conv)
  show ?case
  proof (cases pfn)
    case None
    then have "\<exists>res'. eventloop_for api resume fd pfn res1 u = Some (res', t)" using u(2) by (intro IH) simp
    then show ?thesis using u(1) None by (subst eventloop_for.simps) (auto simp: r(1))
  next
    case (Some f)
    with u(2) obtain r v where f: "f u = Some (r, v)" "(if r = - 1 then Some v else loop api resume fd pfn v) = Some t"
      by (auto simp: bind_eq_Some_conv)
    then have "r \<noteq> - 1 \<Longrightarrow> \<exists>res'. eventloop_for api resume fd pfn res1 v = Some (res', t)" by (intro IH) simp
    then show ?thesis using u(1) Some f
      by (subst eventloop_for.simps) (auto simp: r(1) split: if_splits)
  qed
qed

section \<open>Properties\<close>

text \<open>C24
  The buffer of the event loop is exact: with the documented behaviour of \<open>epoll_wait\<close>, \<open>co_eventloop\<close>,
  whether it allocates the buffer or finds the one of an earlier call, is the loop that hands the events of
  each wait straight to an iteration: it never reads an event of an earlier wait, a null pointer or
  beyond the buffer, also when \<open>epoll_wait\<close> fails. It returns exactly when that loop does, with
  the same state.\<close>

theorem co_eventloop_serves:
  assumes "epoll_law api" "result = None \<or> (\<exists>res. result = Some res \<and> length (res_events res) = EPOLL_SIZE)"
  shows "map_option snd (co_eventloop api resume fd pfn result s) = serve_for api resume fd pfn s"
proof -
  let ?res = "case result of None \<Rightarrow> co_epoll_res_alloc EPOLL_SIZE | Some res \<Rightarrow> res"
  have len: "length (res_events ?res) = EPOLL_SIZE" using assms(2) by (auto simp: co_epoll_res_alloc_def)
  show ?thesis
  proof (cases "serve_for api resume fd pfn s")
    case None
    have "eventloop_for api resume fd pfn ?res s = None"
    proof (rule ccontr)
      assume "eventloop_for api resume fd pfn ?res s \<noteq> None"
      then obtain y where "eventloop_for api resume fd pfn ?res s = Some y" by blast
      from eventloop_for_serves [OF this assms(1) len] None show False by simp
    qed
    with None show ?thesis unfolding co_eventloop_def by simp
  next
    case (Some t)
    then show ?thesis using serve_for_eventloop [OF Some assms(1) len] unfolding co_eventloop_def by auto
  qed
qed

text \<open>With no callback, as \<open>main\<close> calls it, the loop never returns.\<close>

lemma eventloop_without_pfn: "co_eventloop api resume fd None result s = None"
proof -
  have "eventloop_for api resume fd pfn res s = Some y \<Longrightarrow> pfn \<noteq> None" for pfn res s y
    by (induction rule: eventloop_for.raw_induct [rotated, consumes 1, case_names 1])
      (auto simp: bind_eq_Some_conv split: option.splits)
  then show ?thesis unfolding co_eventloop_def by (metis not_Some_eq)
qed

section \<open>Concrete runs\<close>

text \<open>A kernel that reports the poll item of \<open>demo_loop\<close>, and one round that the callback ends.\<close>

definition demo_epoll :: "(nat, unit) epoll_api" where
  "demo_epoll = \<lparr>epoll_create = \<lambda>_ k. (4, k), epoll_wait = \<lambda>_ _ _ k. ((1, [(1, 1)]), k), tick = \<lambda>k. (1010, k)\<rparr>"

lemma demo_epoll_law: "epoll_law demo_epoll"
  by (simp add: epoll_law_def demo_epoll_def)

theorem co_eventloop_serves_witness:
  "\<exists>t M. map_option snd (co_eventloop demo_epoll (\<lambda>_. Some) 4 (Some (\<lambda>s. Some (- 1, s))) None demo_loop) = Some t \<and>
     ring_inv t M \<and> M ActiveList = []"
proof -
  have "clock_ok 1010 demo_loop" by (simp add: clock_ok_def started_def demo_loop_def)
  moreover have "demo_lists ActiveList = []" "demo_lists TimeoutList = []" by (simp_all add: demo_lists_def)
  moreover have "\<forall>(i, e) \<in> set [(1 :: nat, 1 :: u32)]. pfnPrepare demo_loop i" by (simp add: demo_loop_def)
  moreover have "\<forall>n. uint (ullExpireTime demo_loop n) < 2 ^ 62" "(1010 :: u64) \<noteq> 0"
    by (simp_all add: demo_loop_def)
  ultimately obtain t M where t: "eventloop_iteration (\<lambda>_. Some) [(1, 1)] 1010 demo_loop = Some t" "ring_inv t M"
    "M ActiveList = []"
    using eventloop_iteration_spec [OF demo_loop_inv _ _ _ _ _ _ trivial_yields, of 1010 "[(1, 1)]"] by blast
  moreover have "serve_round demo_epoll (\<lambda>_. Some) 4 demo_loop = eventloop_iteration (\<lambda>_. Some) [(1, 1)] 1010 demo_loop"
    by (simp add: serve_round_def demo_epoll_def demo_loop_def)
  ultimately have "serve_for demo_epoll (\<lambda>_. Some) 4 (Some (\<lambda>s. Some (- 1, s))) demo_loop = Some t"
    by (subst serve_for.simps) simp
  with co_eventloop_serves [OF demo_epoll_law, of None "\<lambda>_. Some" 4 "Some (\<lambda>s. Some (- 1, s))" demo_loop]
  show ?thesis using t(2,3) by auto
qed

end
