(* ===== verification/Coroutine.thy ===== *)
theory Coroutine
  imports Prelude
begin

unbundle bit_operations_syntax

text \<open>
  The coroutines of \<open>src/coroutine/co_routine.cpp\<close> and \<open>coctx.cpp\<close>: creation and the stack size,
  the call stack that \<open>co_resume\<close> and \<open>co_yield_env\<close> maintain, and the shared stacks, where
  \<open>co_swap\<close> saves the bytes of the coroutine that occupies a stack and restores those of the one
  it resumes. A stack is its byte array, \<open>stack_sp\<close> an offset into it; what a coroutine writes to
  its stack while it runs is an arbitrary step.
\<close>

section \<open>Stack size and initial context\<close>

text \<open>The clamping and rounding of \<open>co_create_env\<close>.\<close>

definition round_stack_size :: "int \<Rightarrow> int" where
  "round_stack_size sz =
     (let s = (if sz \<le> 0 then 128 * 1024
               else if 1024 * 1024 * 8 < sz then 1024 * 1024 * 8 else sz)
      in if s AND 0xFFF \<noteq> 0 then (s AND NOT 0xFFF) + 0x1000 else s)"

text \<open>\<open>coctx_make\<close> for \<open>x86_64\<close>: the fourteen registers, as addresses, and the word stored at the
  top of the stack.\<close>

record coctx =
  regs :: "u64 list"
  ss_size :: u64
  ss_sp :: u64

abbreviation "kRDI \<equiv> (7 :: nat)"
abbreviation "kRSI \<equiv> (8 :: nat)"
abbreviation "kRETAddr \<equiv> (9 :: nat)"
abbreviation "kRSP \<equiv> (13 :: nat)"

definition coctx_make :: "u64 \<Rightarrow> u64 \<Rightarrow> u64 \<Rightarrow> coctx \<Rightarrow> (u64 \<times> u64) \<times> coctx" where
  "coctx_make pfn a a1 ctx =
     (let sp0 = ss_sp ctx + ss_size ctx - 8;
          sp = sp0 AND (- 16)
      in ((sp, pfn),
          ctx\<lparr>regs := (replicate 14 0)[kRSP := sp, kRETAddr := pfn, kRDI := a, kRSI := a1]\<rparr>))"

definition coctx_init :: "coctx \<Rightarrow> coctx" where
  "coctx_init ctx = \<lparr>regs = replicate 14 0, ss_size = 0, ss_sp = 0\<rparr>"

section \<open>The state\<close>

text \<open>\<open>'c\<close> is the type of coroutines, \<open>'m\<close> of stack memories. \<open>ctx_fresh\<close> is true between
  \<open>coctx_make\<close> and the first time the coroutine is swapped out: a fresh context starts at
  \<open>CoRoutineFunc\<close> instead of returning into \<open>co_swap\<close>.\<close>

record ('c, 'm) co_state =
  pCallStack :: "'c list"
  pending_co :: "'c option"
  occupy_co :: "'c option"
  alive :: "'c set"
  cStart :: "'c \<Rightarrow> bool"
  cEnd :: "'c \<Rightarrow> bool"
  cIsMain :: "'c \<Rightarrow> bool"
  cEnableSysHook :: "'c \<Rightarrow> bool"
  cIsShareStack :: "'c \<Rightarrow> bool"
  ctx_fresh :: "'c \<Rightarrow> bool"
  stack_mem :: "'c \<Rightarrow> 'm"
  stack_sp :: "'c \<Rightarrow> nat"
  save_size :: "'c \<Rightarrow> nat"
  save_buffer :: "'c \<Rightarrow> byte list option"
  mem_occupy :: "'m \<Rightarrow> 'c option"
  mem_size :: "'m \<Rightarrow> nat"
  mem_data :: "'m \<Rightarrow> byte list"

text \<open>The current coroutine is the last entry of the call stack.\<close>

definition GetCurrCo :: "('c, 'm) co_state \<Rightarrow> 'c" where
  "GetCurrCo env = last (pCallStack env)"

section \<open>Creating coroutines\<close>

definition co_alloc_stackmem :: "'m \<Rightarrow> nat \<Rightarrow> byte list \<Rightarrow> ('c, 'm) co_state \<Rightarrow> ('c, 'm) co_state" where
  "co_alloc_stackmem m sz bytes s =
     s\<lparr>mem_occupy := (mem_occupy s)(m := None), mem_size := (mem_size s)(m := sz),
       mem_data := (mem_data s)(m := bytes)\<rparr>"

text \<open>The index of a shared stack is taken modulo the count in unsigned arithmetic; the counter
  wraps.\<close>

record 'm stShareStack =
  alloc_idx :: u32
  share_stack_size :: int
  count :: int
  stack_array :: "'m list"

definition co_alloc_sharestack ::
  "'m list \<Rightarrow> int \<Rightarrow> int \<Rightarrow> (nat \<Rightarrow> byte list) \<Rightarrow> ('c, 'm) co_state \<Rightarrow>
   'm stShareStack \<times> ('c, 'm) co_state" where
  "co_alloc_sharestack ms cnt sz bytes s =
     (\<lparr>alloc_idx = 0, share_stack_size = sz, count = cnt, stack_array = take (nat cnt) ms\<rparr>,
      fold (\<lambda>i. co_alloc_stackmem (ms ! i) (nat sz) (bytes i)) [0..<nat cnt] s)"

definition co_get_stackmem :: "'m stShareStack \<Rightarrow> ('m \<times> 'm stShareStack) option" where
  "co_get_stackmem sh =
     (if count sh = 0 then None
      else
        (let idx = to_int32 (ucast (alloc_idx sh mod of_int (count sh)))
         in if 0 \<le> idx \<and> nat idx < length (stack_array sh)
            then Some (stack_array sh ! nat idx, sh\<lparr>alloc_idx := alloc_idx sh + 1\<rparr>)
            else None))"

text \<open>\<open>co_create_env\<close>: \<open>lp\<close> and \<open>m\<close> are the addresses of the new coroutine and, for a private stack,
  of its memory. \<open>attr\<close> is the requested size and the shared stack, if any.\<close>

definition co_create_env ::
  "'c \<Rightarrow> 'm \<Rightarrow> byte list \<Rightarrow> int \<times> 'm stShareStack option \<Rightarrow> ('c, 'm) co_state \<Rightarrow>
   ('m stShareStack option \<times> ('c, 'm) co_state) option" where
  "co_create_env lp m bytes attr s =
     (let sz = round_stack_size (fst attr);
          s1 = s\<lparr>alive := insert lp (alive s), cStart := (cStart s)(lp := False),
                 cEnd := (cEnd s)(lp := False), cIsMain := (cIsMain s)(lp := False),
                 cEnableSysHook := (cEnableSysHook s)(lp := False),
                 cIsShareStack := (cIsShareStack s)(lp := snd attr \<noteq> None),
                 ctx_fresh := (ctx_fresh s)(lp := False),
                 stack_sp := (stack_sp s)(lp := 0),
                 save_size := (save_size s)(lp := 0), save_buffer := (save_buffer s)(lp := None)\<rparr>
      in case snd attr of
           Some sh \<Rightarrow>
             map_option (\<lambda>(m', sh'). (Some sh', s1\<lparr>stack_mem := (stack_mem s1)(lp := m')\<rparr>))
               (co_get_stackmem sh)
         | None \<Rightarrow>
             Some (None, (co_alloc_stackmem m (nat sz) bytes s1)\<lparr>stack_mem := (stack_mem s1)(lp := m)\<rparr>))"

section \<open>Switching\<close>

definition save_stack_buffer :: "'c \<Rightarrow> ('c, 'm) co_state \<Rightarrow> ('c, 'm) co_state" where
  "save_stack_buffer occupy s =
     (let m = stack_mem s occupy; len = mem_size s m - stack_sp s occupy
      in s\<lparr>save_buffer := (save_buffer s)(occupy :=
             Some (take len (drop (stack_sp s occupy) (mem_data s m)))),
           save_size := (save_size s)(occupy := len)\<rparr>)"

text \<open>\<open>co_swap\<close> up to \<open>coctx_swap\<close>; \<open>sp\<close> is the address of its local variable, in the stack of
  \<open>cur\<close>.\<close>

definition co_swap_out :: "'c \<Rightarrow> 'c \<Rightarrow> nat \<Rightarrow> ('c, 'm) co_state \<Rightarrow> ('c, 'm) co_state" where
  "co_swap_out cur pending sp s =
     (let s1 = s\<lparr>stack_sp := (stack_sp s)(cur := sp)\<rparr>
      in if \<not> cIsShareStack s1 pending then s1\<lparr>pending_co := None, occupy_co := None\<rparr>
         else
           (let m = stack_mem s1 pending; occ = mem_occupy s1 m;
                s2 = s1\<lparr>pending_co := Some pending, mem_occupy := (mem_occupy s1)(m := Some pending),
                        occupy_co := occ\<rparr>
            in case occ of
                 Some o1 \<Rightarrow> if o1 \<noteq> pending then save_stack_buffer o1 s2 else s2
               | None \<Rightarrow> s2))"

text \<open>Bytes copied into a stack at an offset.\<close>

definition write_at :: "nat \<Rightarrow> byte list \<Rightarrow> byte list \<Rightarrow> byte list" where
  "write_at off bs mem = take off mem @ bs @ drop (off + length bs) mem"

text \<open>\<open>co_swap\<close> after \<open>coctx_swap\<close>, on the stack of the coroutine that was resumed.\<close>

definition co_swap_in :: "('c, 'm) co_state \<Rightarrow> ('c, 'm) co_state" where
  "co_swap_in s =
     (case (occupy_co s, pending_co s) of
        (Some occ, Some p) \<Rightarrow>
          if occ \<noteq> p then
            (case save_buffer s p of
               Some b \<Rightarrow>
                 if 0 < save_size s p
                 then s\<lparr>mem_data := (mem_data s)(stack_mem s p :=
                        write_at (stack_sp s p) (take (save_size s p) b) (mem_data s (stack_mem s p)))\<rparr>
                 else s
             | None \<Rightarrow> s)
          else s
      | _ \<Rightarrow> s)"

definition co_swap :: "'c \<Rightarrow> 'c \<Rightarrow> nat \<Rightarrow> ('c, 'm) co_state \<Rightarrow> ('c, 'm) co_state" where
  "co_swap cur pending sp s =
     (let s1 = co_swap_out cur pending sp s;
          s2 = s1\<lparr>ctx_fresh := (ctx_fresh s1)(cur := False)\<rparr>
      in if ctx_fresh s2 pending then s2 else co_swap_in s2)"

text \<open>The call stack has 128 entries; a deeper nesting writes past it, an underflow reads before
  it: both are \<open>None\<close>.\<close>

definition co_resume :: "'c \<Rightarrow> nat \<Rightarrow> ('c, 'm) co_state \<Rightarrow> ('c, 'm) co_state option" where
  "co_resume co sp s =
     (if pCallStack s = [] \<or> 128 \<le> length (pCallStack s) then None
      else
        (let cur = GetCurrCo s;
             s1 = (if \<not> cStart s co
                   then s\<lparr>ctx_fresh := (ctx_fresh s)(co := True), cStart := (cStart s)(co := True)\<rparr>
                   else s);
             s2 = s1\<lparr>pCallStack := pCallStack s1 @ [co]\<rparr>
         in Some (co_swap cur co sp s2)))"

definition co_yield_env :: "nat \<Rightarrow> ('c, 'm) co_state \<Rightarrow> ('c, 'm) co_state option" where
  "co_yield_env sp s =
     (if length (pCallStack s) < 2 then None
      else
        (let lst = pCallStack s ! (length (pCallStack s) - 2);
             cur = pCallStack s ! (length (pCallStack s) - 1)
         in Some (co_swap cur lst sp (s\<lparr>pCallStack := butlast (pCallStack s)\<rparr>))))"

text \<open>The end of \<open>CoRoutineFunc\<close>, after the user function has returned.\<close>

definition CoRoutineFunc_end :: "nat \<Rightarrow> ('c, 'm) co_state \<Rightarrow> ('c, 'm) co_state option" where
  "CoRoutineFunc_end sp s = co_yield_env sp (s\<lparr>cEnd := (cEnd s)(GetCurrCo s := True)\<rparr>)"

section \<open>Reset and release\<close>

definition release_occupied :: "'c \<Rightarrow> ('c, 'm) co_state \<Rightarrow> ('c, 'm) co_state" where
  "release_occupied co s =
     (if mem_occupy s (stack_mem s co) = Some co
      then s\<lparr>mem_occupy := (mem_occupy s)(stack_mem s co := None)\<rparr> else s)"

definition co_reset :: "'c \<Rightarrow> ('c, 'm) co_state \<Rightarrow> ('c, 'm) co_state" where
  "co_reset co s =
     (if \<not> cStart s co \<or> cIsMain s co then s
      else
        (let s1 = s\<lparr>cStart := (cStart s)(co := False), cEnd := (cEnd s)(co := False)\<rparr>;
             s2 = (if save_buffer s1 co \<noteq> None
                   then s1\<lparr>save_buffer := (save_buffer s1)(co := None), save_size := (save_size s1)(co := 0)\<rparr>
                   else s1)
         in release_occupied co s2))"

definition co_free :: "'c \<Rightarrow> ('c, 'm) co_state \<Rightarrow> ('c, 'm) co_state" where
  "co_free co s =
     (let s1 = (if \<not> cIsShareStack s co then s
                else release_occupied co (s\<lparr>save_buffer := (save_buffer s)(co := None)\<rparr>))
      in s1\<lparr>alive := alive s1 - {co}\<rparr>)"

section \<open>Hook flag\<close>

definition co_disable_hook_sys :: "('c, 'm) co_state \<Rightarrow> ('c, 'm) co_state" where
  "co_disable_hook_sys s = s\<lparr>cEnableSysHook := (cEnableSysHook s)(GetCurrCo s := False)\<rparr>"

definition co_is_enable_sys_hook :: "('c, 'm) co_state \<Rightarrow> bool" where
  "co_is_enable_sys_hook s \<longleftrightarrow> pCallStack s \<noteq> [] \<and> cEnableSysHook s (GetCurrCo s)"

section \<open>The stack size\<close>

lemma and_fff: "(s AND 0xFFF :: int) = s mod 4096"
  using take_bit_eq_mask [of 12 s] by (simp add: take_bit_eq_mod mask_eq_exp_minus_1)

lemma and_not_fff: "(s AND - 4096 :: int) = s - s mod 4096"
proof -
  have "s - (s AND 0xFFF) = s AND NOT (s AND 0xFFF)"
    by (rule disjunctive_diff_eq_and_not) (simp only: and.assoc [symmetric] bit.conj_cancel_left, simp)
  also have "\<dots> = s AND NOT 0xFFF" by (rule bit_eqI) (auto simp: bit_simps)
  finally have "s AND NOT 0xFFF = s - (s AND 0xFFF)" ..
  then show ?thesis by (simp add: and_fff)
qed

lemma round_stack_size_eq:
  "round_stack_size sz =
     (let s = (if sz \<le> 0 then 131072 else min sz 8388608)
      in if s mod 4096 = 0 then s else s - s mod 4096 + 4096)"
  by (simp add: round_stack_size_def Let_def and_fff and_not_fff min_def)

section \<open>Shared stacks: what a coroutine finds when it is resumed\<close>

text \<open>
  \<open>img\<close> gives, for each coroutine, the bytes of its stack when it was last swapped out. A
  suspended coroutine on a shared stack either still occupies it, with these bytes in place, or
  another coroutine occupies it and the bytes are in the save buffer.
\<close>

definition suspended_co :: "('c, 'm) co_state \<Rightarrow> 'c \<Rightarrow> bool" where
  "suspended_co s c \<longleftrightarrow> c \<in> alive s \<and> cIsShareStack s c \<and> cStart s c \<and> \<not> ctx_fresh s c \<and>
     c \<noteq> GetCurrCo s"

definition stack_bytes :: "('c, 'm) co_state \<Rightarrow> 'c \<Rightarrow> byte list" where
  "stack_bytes s c = drop (stack_sp s c) (mem_data s (stack_mem s c))"

definition saved_ok :: "('c, 'm) co_state \<Rightarrow> ('c \<Rightarrow> byte list) \<Rightarrow> 'c \<Rightarrow> bool" where
  "saved_ok s img c \<longleftrightarrow> stack_sp s c < mem_size s (stack_mem s c) \<and>
     length (img c) = mem_size s (stack_mem s c) - stack_sp s c \<and>
     (if mem_occupy s (stack_mem s c) = Some c then stack_bytes s c = img c
      else mem_occupy s (stack_mem s c) \<noteq> None \<and> save_buffer s c = Some (img c) \<and>
        save_size s c = length (img c))"

definition share_inv :: "('c, 'm) co_state \<Rightarrow> ('c \<Rightarrow> byte list) \<Rightarrow> bool" where
  "share_inv s img \<longleftrightarrow>
     (\<forall>c. suspended_co s c \<longrightarrow> saved_ok s img c) \<and>
     (cIsShareStack s (GetCurrCo s) \<longrightarrow> mem_occupy s (stack_mem s (GetCurrCo s)) = Some (GetCurrCo s)) \<and>
     (\<forall>m. length (mem_data s m) = mem_size s m) \<and>
     (\<forall>m c. mem_occupy s m = Some c \<longrightarrow>
        stack_mem s c = m \<and> cIsShareStack s c \<and> (c = GetCurrCo s \<or> suspended_co s c)) \<and>
     GetCurrCo s \<in> alive s \<and> (cIsShareStack s (GetCurrCo s) \<longrightarrow> cStart s (GetCurrCo s))"

lemma write_at_length: "off + length bs \<le> length mem \<Longrightarrow> length (write_at off bs mem) = length mem"
  by (simp add: write_at_def)

lemma write_at_drop:
  "off + length bs = length mem \<Longrightarrow> drop off (write_at off bs mem) = bs"
  by (simp add: write_at_def)

text \<open>What a switch changes, field by field.\<close>

lemma save_stack_buffer_sel [simp]:
  "pCallStack (save_stack_buffer c s) = pCallStack s" "alive (save_stack_buffer c s) = alive s"
  "pending_co (save_stack_buffer c s) = pending_co s" "occupy_co (save_stack_buffer c s) = occupy_co s"
  "cStart (save_stack_buffer c s) = cStart s" "cIsShareStack (save_stack_buffer c s) = cIsShareStack s"
  "ctx_fresh (save_stack_buffer c s) = ctx_fresh s" "stack_mem (save_stack_buffer c s) = stack_mem s"
  "stack_sp (save_stack_buffer c s) = stack_sp s" "mem_occupy (save_stack_buffer c s) = mem_occupy s"
  "mem_size (save_stack_buffer c s) = mem_size s" "mem_data (save_stack_buffer c s) = mem_data s"
  "save_buffer (save_stack_buffer c s) = (save_buffer s)(c := Some (take
     (mem_size s (stack_mem s c) - stack_sp s c) (drop (stack_sp s c) (mem_data s (stack_mem s c)))))"
  "save_size (save_stack_buffer c s) =
     (save_size s)(c := mem_size s (stack_mem s c) - stack_sp s c)"
  by (simp_all add: save_stack_buffer_def Let_def)

lemma co_swap_out_sel [simp]:
  "pCallStack (co_swap_out c p sp s) = pCallStack s" "alive (co_swap_out c p sp s) = alive s"
  "cStart (co_swap_out c p sp s) = cStart s" "cIsShareStack (co_swap_out c p sp s) = cIsShareStack s"
  "ctx_fresh (co_swap_out c p sp s) = ctx_fresh s" "stack_mem (co_swap_out c p sp s) = stack_mem s"
  "stack_sp (co_swap_out c p sp s) = (stack_sp s)(c := sp)"
  "mem_size (co_swap_out c p sp s) = mem_size s" "mem_data (co_swap_out c p sp s) = mem_data s"
  "mem_occupy (co_swap_out c p sp s) =
     (if cIsShareStack s p then (mem_occupy s)(stack_mem s p := Some p) else mem_occupy s)"
  by (simp_all add: co_swap_out_def Let_def split: option.split)

lemma co_swap_in_sel [simp]:
  "pCallStack (co_swap_in s) = pCallStack s" "alive (co_swap_in s) = alive s"
  "cStart (co_swap_in s) = cStart s" "cIsShareStack (co_swap_in s) = cIsShareStack s"
  "ctx_fresh (co_swap_in s) = ctx_fresh s" "stack_mem (co_swap_in s) = stack_mem s"
  "stack_sp (co_swap_in s) = stack_sp s" "mem_occupy (co_swap_in s) = mem_occupy s"
  "mem_size (co_swap_in s) = mem_size s" "save_buffer (co_swap_in s) = save_buffer s"
  "save_size (co_swap_in s) = save_size s"
  by (simp_all add: co_swap_in_def split: option.split)

lemma co_swap_sel [simp]:
  "pCallStack (co_swap c p sp s) = pCallStack s" "alive (co_swap c p sp s) = alive s"
  "cStart (co_swap c p sp s) = cStart s" "cIsShareStack (co_swap c p sp s) = cIsShareStack s"
  "ctx_fresh (co_swap c p sp s) = (ctx_fresh s)(c := False)" "stack_mem (co_swap c p sp s) = stack_mem s"
  "stack_sp (co_swap c p sp s) = (stack_sp s)(c := sp)" "mem_size (co_swap c p sp s) = mem_size s"
  "mem_occupy (co_swap c p sp s) =
     (if cIsShareStack s p then (mem_occupy s)(stack_mem s p := Some p) else mem_occupy s)"
  "GetCurrCo (co_swap c p sp s) = GetCurrCo s"
  by (simp_all add: co_swap_def Let_def GetCurrCo_def)

lemma co_swap_main [simp]: "cIsMain (co_swap c p sp s) = cIsMain s"
proof -
  have a: "cIsMain (save_stack_buffer d t) = cIsMain t" for d and t :: "('a, 'b) co_state"
    by (simp add: save_stack_buffer_def Let_def)
  have b: "cIsMain (co_swap_out c p sp t) = cIsMain t" for t :: "('a, 'b) co_state"
    by (simp add: co_swap_out_def Let_def a split: option.split)
  have "cIsMain (co_swap_in t) = cIsMain t" for t :: "('a, 'b) co_state"
    by (simp add: co_swap_in_def split: option.split)
  with b show ?thesis by (simp add: co_swap_def Let_def)
qed

text \<open>The save buffers after a switch: only the evicted occupant's changes.\<close>

definition evicted :: "('c, 'm) co_state \<Rightarrow> 'c \<Rightarrow> 'c option" where
  "evicted s p =
     (if cIsShareStack s p
      then (case mem_occupy s (stack_mem s p) of Some o1 \<Rightarrow> if o1 \<noteq> p then Some o1 else None | None \<Rightarrow> None)
      else None)"

lemma co_swap_save:
  "save_buffer (co_swap c p sp s) = (case evicted s p of
     Some o1 \<Rightarrow> (save_buffer s)(o1 := Some (take (mem_size s (stack_mem s o1) - ((stack_sp s)(c := sp)) o1)
       (drop (((stack_sp s)(c := sp)) o1) (mem_data s (stack_mem s o1)))))
   | None \<Rightarrow> save_buffer s)"
  "save_size (co_swap c p sp s) = (case evicted s p of
     Some o1 \<Rightarrow> (save_size s)(o1 := mem_size s (stack_mem s o1) - ((stack_sp s)(c := sp)) o1)
   | None \<Rightarrow> save_size s)"
  by (simp_all add: co_swap_def co_swap_out_def Let_def evicted_def split: option.split)

text \<open>The bytes after a switch: a suspended coroutine that does not occupy its stack is copied back.\<close>

lemma co_swap_data:
  assumes "c \<noteq> p"
  shows "mem_data (co_swap c p sp s) =
    (case evicted s p of
       Some o1 \<Rightarrow>
         (case save_buffer s p of
            Some b \<Rightarrow>
              if \<not> ctx_fresh s p \<and> 0 < save_size s p
              then (mem_data s)(stack_mem s p := write_at (stack_sp s p) (take (save_size s p) b)
                     (mem_data s (stack_mem s p)))
              else mem_data s
          | None \<Rightarrow> mem_data s)
     | None \<Rightarrow> mem_data s)"
  using assms
  by (auto simp: co_swap_def co_swap_in_def co_swap_out_def Let_def evicted_def split: option.split)

text \<open>A switch from the current coroutine to \<open>p\<close>, which becomes the last of the call stack.\<close>

lemma GetCurrCo_upd [simp]:
  "cs \<noteq> [] \<Longrightarrow> GetCurrCo (s\<lparr>pCallStack := cs\<rparr>) = last cs"
  "GetCurrCo (s\<lparr>cStart := a, ctx_fresh := b\<rparr>) = GetCurrCo s"
  by (simp_all add: GetCurrCo_def)

lemma evicted_cs [simp]: "evicted (s\<lparr>pCallStack := cs\<rparr>) p = evicted s p"
  by (simp add: evicted_def)

lemma suspended_after:
  assumes "cs \<noteq> []" "last cs = p" "p \<noteq> GetCurrCo s" "GetCurrCo s \<in> alive s"
    "cIsShareStack s (GetCurrCo s) \<Longrightarrow> cStart s (GetCurrCo s)"
  shows "suspended_co (co_swap (GetCurrCo s) p sp (s\<lparr>pCallStack := cs\<rparr>)) c \<longleftrightarrow>
    c \<noteq> p \<and> (suspended_co s c \<or> c = GetCurrCo s \<and> cIsShareStack s c)"
  using assms by (auto simp: suspended_co_def)

lemma share_invD:
  assumes "share_inv s img"
  shows "\<And>c. suspended_co s c \<Longrightarrow> saved_ok s img c"
    "cIsShareStack s (GetCurrCo s) \<Longrightarrow> mem_occupy s (stack_mem s (GetCurrCo s)) = Some (GetCurrCo s)"
    "\<And>m. length (mem_data s m) = mem_size s m"
    "\<And>m c. mem_occupy s m = Some c \<Longrightarrow>
       stack_mem s c = m \<and> cIsShareStack s c \<and> (c = GetCurrCo s \<or> suspended_co s c)"
    "GetCurrCo s \<in> alive s" "cIsShareStack s (GetCurrCo s) \<Longrightarrow> cStart s (GetCurrCo s)"
  using assms unfolding share_inv_def by blast+

lemma evicted_occupant:
  assumes "share_inv s img" "evicted s p = Some c"
  shows "mem_occupy s (stack_mem s p) = Some c" "stack_mem s c = stack_mem s p" "c \<noteq> p" "cIsShareStack s p"
  using assms share_invD(4) [OF assms(1), of "stack_mem s p" c]
  by (auto simp: evicted_def split: if_splits option.splits)

lemma restore_size:
  assumes inv: "share_inv s img" and ev: "evicted s p = Some o1" and c: "suspended_co s p"
  shows "save_buffer s p = Some (img p)" "save_size s p = length (img p)" "0 < length (img p)"
    "stack_sp s p + length (img p) = length (mem_data s (stack_mem s p))" "\<not> ctx_fresh s p"
  using share_invD(1) [OF inv c] share_invD(3) [OF inv] evicted_occupant [OF inv ev] c
  by (auto simp: saved_ok_def suspended_co_def)

text \<open>The bytes of the resumed coroutine and the lengths of the stacks.\<close>

lemma co_swap_restores:
  assumes inv: "share_inv s img" and c: "suspended_co s p"
  shows "stack_bytes (co_swap (GetCurrCo s) p sp (s\<lparr>pCallStack := cs\<rparr>)) p = img p"
proof -
  have ne: "GetCurrCo s \<noteq> p" using c by (auto simp: suspended_co_def)
  show ?thesis
  proof (cases "evicted s p")
    case None
    have "mem_occupy s (stack_mem s p) = Some p"
      using None c share_invD(1) [OF inv c]
      by (auto simp: evicted_def suspended_co_def saved_ok_def split: option.splits if_splits)
    then have "stack_bytes s p = img p" using share_invD(1) [OF inv c] by (simp add: saved_ok_def)
    then show ?thesis using None ne by (simp add: stack_bytes_def co_swap_data)
  next
    case (Some o1)
    then show ?thesis using restore_size [OF inv Some c] ne
      by (simp add: stack_bytes_def co_swap_data write_at_drop)
  qed
qed

lemma co_swap_data_length:
  assumes inv: "share_inv s img" and ne: "GetCurrCo s \<noteq> p" and p: "suspended_co s p \<or> ctx_fresh s p \<or> \<not> cIsShareStack s p"
  shows "length (mem_data (co_swap (GetCurrCo s) p sp (s\<lparr>pCallStack := cs\<rparr>)) m) = mem_size s m"
proof (cases "evicted s p")
  case None
  then show ?thesis using ne share_invD(3) [OF inv] by (simp add: co_swap_data)
next
  case (Some o1)
  show ?thesis
  proof (cases "suspended_co s p")
    case True
    then show ?thesis using restore_size [OF inv Some True] ne share_invD(3) [OF inv] Some
      by (simp add: co_swap_data write_at_length)
  next
    case False
    then have "ctx_fresh s p" using p evicted_occupant(4) [OF inv Some] by auto
    then show ?thesis using ne share_invD(3) [OF inv] Some by (simp add: co_swap_data split: option.split)
  qed
qed

lemma co_swap_other_data:
  assumes "share_inv s img" "GetCurrCo s \<noteq> p" "m \<noteq> stack_mem s p \<or> \<not> cIsShareStack s p"
  shows "mem_data (co_swap (GetCurrCo s) p sp (s\<lparr>pCallStack := cs\<rparr>)) m = mem_data s m"
  using assms by (auto simp: co_swap_data evicted_def split: option.split)

lemma co_swap_inv:
  fixes s :: "('c, 'm) co_state"
  assumes inv: "share_inv s img" and cs: "cs \<noteq> []" "last cs = p" and ne: "p \<noteq> GetCurrCo s"
    and p: "p \<in> alive s" "cIsShareStack s p \<Longrightarrow> cStart s p" "suspended_co s p \<or> ctx_fresh s p \<or> \<not> cIsShareStack s p"
    and sp: "cIsShareStack s (GetCurrCo s) \<Longrightarrow> sp < mem_size s (stack_mem s (GetCurrCo s))"
  defines "t \<equiv> co_swap (GetCurrCo s) p sp (s\<lparr>pCallStack := cs\<rparr>)"
    and "img' \<equiv> img(GetCurrCo s := drop sp (mem_data s (stack_mem s (GetCurrCo s))))"
  shows "share_inv t img'"
proof -
  let ?c0 = "GetCurrCo s"
  note I = share_invD [OF inv]
  have ne': "?c0 \<noteq> p" using ne by simp
  have cur: "GetCurrCo t = p" using cs by (simp add: t_def)
  have susp: "suspended_co t c \<longleftrightarrow> c \<noteq> p \<and> (suspended_co s c \<or> c = ?c0 \<and> cIsShareStack s c)" for c
    unfolding t_def by (rule suspended_after [OF cs ne I(5,6)])
  have saved: "saved_ok t img' c" if c: "suspended_co t c" for c
  proof -
    have cp: "c \<noteq> p" using c susp by blast
    have sh: "cIsShareStack s c" using c susp by (auto simp: suspended_co_def)
    have spc: "stack_sp t c = ((stack_sp s)(?c0 := sp)) c" by (simp add: t_def)
    have bytes: "(if mem_occupy s (stack_mem s c) = Some c
        then drop (stack_sp t c) (mem_data s (stack_mem s c)) = img' c
        else mem_occupy s (stack_mem s c) \<noteq> None \<and> save_buffer s c = Some (img' c) \<and>
          save_size s c = length (img' c)) \<and>
        stack_sp t c < mem_size s (stack_mem s c) \<and>
        length (img' c) = mem_size s (stack_mem s c) - stack_sp t c"
    proof (cases "c = ?c0")
      case True
      then show ?thesis using I(2,3) sp sh spc by (simp add: img'_def)
    next
      case False
      then have "suspended_co s c" using c susp by blast
      with I(1) [OF this] False show ?thesis
        by (auto simp: saved_ok_def stack_bytes_def img'_def spc)
    qed
    show ?thesis
    proof (cases "evicted s p = Some c")
      case True
      note e = evicted_occupant [OF inv True]
      have "mem_occupy t (stack_mem t c) = Some p" using e by (simp add: t_def)
      moreover have "mem_occupy s (stack_mem s c) = Some c" using e by simp
      ultimately show ?thesis using bytes cp True I(3)
        by (simp add: saved_ok_def t_def co_swap_save)
    next
      case False
      have sb: "save_buffer t c = save_buffer s c" "save_size t c = save_size s c"
        using False by (auto simp: t_def co_swap_save split: option.split)
      show ?thesis
      proof (cases "cIsShareStack s p \<and> stack_mem s c = stack_mem s p")
        case True
        then have "mem_occupy s (stack_mem s c) \<noteq> Some c" using False cp by (auto simp: evicted_def)
        then show ?thesis using bytes sb cp True by (simp add: saved_ok_def t_def)
      next
        case other: False
        then have "mem_data t (stack_mem s c) = mem_data s (stack_mem s c)"
          unfolding t_def by (intro co_swap_other_data [OF inv ne']) auto
        moreover have "mem_occupy t (stack_mem s c) = mem_occupy s (stack_mem s c)"
          using other by (auto simp: t_def)
        moreover have "stack_mem t c = stack_mem s c" "mem_size t = mem_size s" by (simp_all add: t_def)
        ultimately show ?thesis using bytes sb by (simp add: saved_ok_def stack_bytes_def)
      qed
    qed
  qed
  have occ: "stack_mem t c = m \<and> cIsShareStack t c \<and> (c = GetCurrCo t \<or> suspended_co t c)"
    if o1: "mem_occupy t m = Some c" for m c
  proof (cases "cIsShareStack s p \<and> m = stack_mem s p")
    case True
    then show ?thesis using o1 cur by (simp add: t_def)
  next
    case False
    then have "mem_occupy s m = Some c" using o1 by (auto simp: t_def split: if_splits)
    note I(4) [OF this]
    moreover have "c \<noteq> p" using calculation False by auto
    ultimately show ?thesis using susp cur by (auto simp: t_def)
  qed
  show ?thesis
    unfolding share_inv_def
  proof (intro conjI allI impI)
    show "length (mem_data t m) = mem_size t m" for m
      using co_swap_data_length [OF inv ne' p(3)] by (simp add: t_def)
    show "GetCurrCo t \<in> alive t" using cur p by (simp add: t_def)
    show "cStart t (GetCurrCo t)" if "cIsShareStack t (GetCurrCo t)"
      using that cur p by (simp add: t_def)
    show "mem_occupy t (stack_mem t (GetCurrCo t)) = Some (GetCurrCo t)"
      if "cIsShareStack t (GetCurrCo t)" using that cur by (simp add: t_def)
  qed (use saved occ in blast)+
qed

section \<open>The steps of a thread\<close>

text \<open>\<open>co_init_curr_thread_env\<close>: the main coroutine is created and becomes the bottom of the call
  stack.\<close>

definition co_init_curr_thread_env ::
  "'c \<Rightarrow> 'm \<Rightarrow> byte list \<Rightarrow> ('c, 'm) co_state \<Rightarrow> ('c, 'm) co_state option" where
  "co_init_curr_thread_env self m bytes s =
     map_option
       (\<lambda>(_, s1). s1\<lparr>cIsMain := (cIsMain s1)(self := True), pending_co := None, occupy_co := None,
                     pCallStack := [self]\<rparr>)
       (co_create_env self m bytes (128 * 1024, None) s)"

text \<open>\<open>co_create\<close>: the first call of a thread makes its main coroutine first.\<close>

definition co_create ::
  "'c \<Rightarrow> 'm \<Rightarrow> byte list \<Rightarrow> 'c \<Rightarrow> 'm \<Rightarrow> byte list \<Rightarrow> int \<times> 'm stShareStack option \<Rightarrow> ('c, 'm) co_state \<Rightarrow>
   ('m stShareStack option \<times> ('c, 'm) co_state) option" where
  "co_create self m bytes lp m' bytes' attr s =
     Option.bind (if pCallStack s = [] then co_init_curr_thread_env self m bytes s else Some s)
       (co_create_env lp m' bytes' attr)"

definition co_release :: "'c \<Rightarrow> ('c, 'm) co_state \<Rightarrow> ('c, 'm) co_state" where
  "co_release co = co_free co"

definition co_self :: "('c, 'm) co_state \<Rightarrow> 'c option" where
  "co_self s = (if pCallStack s = [] then None else Some (GetCurrCo s))"

text \<open>The first \<open>co_create\<close> of a thread with a private stack leaves the main coroutine running, and the
  new one not started.\<close>

lemma co_create_first:
  assumes "pCallStack s = []" "self \<noteq> lp"
  shows "\<exists>t. co_create self m bytes lp m' bytes' (sz, None) s = Some (None, t) \<and> co_self t = Some self \<and>
    pCallStack t = [self] \<and> cIsMain t self \<and> {self, lp} \<subseteq> alive t \<and> \<not> cStart t lp \<and> stack_mem t lp = m'"
  using assms
  by (auto simp: co_create_def co_init_curr_thread_env_def co_create_env_def Let_def co_alloc_stackmem_def
      co_self_def GetCurrCo_def)

text \<open>The bytes of the coroutine that is swapped out with its stack pointer at \<open>sp\<close>.\<close>

definition swapped_img :: "('c, 'm) co_state \<Rightarrow> nat \<Rightarrow> ('c \<Rightarrow> byte list) \<Rightarrow> 'c \<Rightarrow> byte list" where
  "swapped_img s sp img = img(GetCurrCo s := drop sp (mem_data s (stack_mem s (GetCurrCo s))))"

definition sp_ok :: "('c, 'm) co_state \<Rightarrow> nat \<Rightarrow> bool" where
  "sp_ok s sp \<longleftrightarrow> (cIsShareStack s (GetCurrCo s) \<longrightarrow> sp < mem_size s (stack_mem s (GetCurrCo s)))"

text \<open>A coroutine can be freed or reset without harm when it is not running or waiting for one it
  resumed, and does not occupy a shared stack on which another one is suspended.\<close>

definition can_drop :: "('c, 'm) co_state \<Rightarrow> 'c \<Rightarrow> bool" where
  "can_drop s c \<longleftrightarrow> c \<notin> set (pCallStack s) \<and>
     (mem_occupy s (stack_mem s c) = Some c \<longrightarrow>
        (\<forall>d. suspended_co s d \<and> d \<noteq> c \<longrightarrow> stack_mem s d \<noteq> stack_mem s c))"

text \<open>The allocator does not hand out memory that is in use: the memories of a shared stack are nobody's
  own.\<close>

definition shared_apart :: "int \<times> 'm stShareStack option \<Rightarrow> ('c, 'm) co_state \<Rightarrow> bool" where
  "shared_apart attr s \<longleftrightarrow>
     (\<forall>sh. snd attr = Some sh \<longrightarrow> (\<forall>d \<in> alive s. \<not> cIsShareStack s d \<longrightarrow> stack_mem s d \<notin> set (stack_array sh)))"

text \<open>The running coroutine writes its stack as it likes. The main coroutine runs on the stack of the thread, and not
  in the memory \<open>co_create_env\<close> has given it.\<close>

inductive co_step ::
  "('c, 'm) co_state \<times> ('c \<Rightarrow> byte list) \<Rightarrow> ('c, 'm) co_state \<times> ('c \<Rightarrow> byte list) \<Rightarrow> bool" where
  run: "\<not> cIsMain s (GetCurrCo s) \<Longrightarrow> length d = mem_size s (stack_mem s (GetCurrCo s)) \<Longrightarrow>
    co_step (s, img) (s\<lparr>mem_data := (mem_data s)(stack_mem s (GetCurrCo s) := d)\<rparr>, img)"
| resume: "c \<in> alive s \<Longrightarrow> c \<notin> set (pCallStack s) \<Longrightarrow> sp_ok s sp \<Longrightarrow> co_resume c sp s = Some t \<Longrightarrow>
    co_step (s, img) (t, swapped_img s sp img)"
| yield: "sp_ok s sp \<Longrightarrow> co_yield_env sp s = Some t \<Longrightarrow> co_step (s, img) (t, swapped_img s sp img)"
| finish: "sp_ok s sp \<Longrightarrow> CoRoutineFunc_end sp s = Some t \<Longrightarrow>
    co_step (s, img) (t, swapped_img s sp img)"
| alloc: "\<forall>c \<in> alive s. stack_mem s c \<noteq> m \<Longrightarrow> length bytes = sz \<Longrightarrow>
    co_step (s, img) (co_alloc_stackmem m sz bytes s, img)"
| create: "c \<notin> alive s \<Longrightarrow> \<forall>d \<in> alive s. stack_mem s d \<noteq> m \<Longrightarrow>
    length bytes = nat (round_stack_size (fst attr)) \<Longrightarrow> shared_apart attr s \<Longrightarrow>
    co_create_env c m bytes attr s = Some (sh, t) \<Longrightarrow> co_step (s, img) (t, img)"
| reset: "can_drop s c \<Longrightarrow> co_step (s, img) (co_reset c s, img)"
| free: "can_drop s c \<Longrightarrow> co_step (s, img) (co_free c s, img)"

definition call_inv :: "('c, 'm) co_state \<Rightarrow> bool" where
  "call_inv s \<longleftrightarrow> pCallStack s \<noteq> [] \<and> distinct (pCallStack s) \<and>
     (\<forall>c \<in> set (pCallStack s). c \<in> alive s \<and>
        (cIsShareStack s c \<longrightarrow> cStart s c \<and> (c \<noteq> GetCurrCo s \<longrightarrow> \<not> ctx_fresh s c)))"

text \<open>The coroutines with a stack of their own: nobody else has this memory, so a coroutine that is not running
  finds its bytes there.\<close>

definition resting_co :: "('c, 'm) co_state \<Rightarrow> 'c \<Rightarrow> bool" where
  "resting_co s c \<longleftrightarrow> c \<in> alive s \<and> \<not> cIsShareStack s c \<and> \<not> cIsMain s c \<and> cStart s c \<and> \<not> ctx_fresh s c \<and>
     c \<noteq> GetCurrCo s"

definition own_inv :: "('c, 'm) co_state \<Rightarrow> ('c \<Rightarrow> byte list) \<Rightarrow> bool" where
  "own_inv s img \<longleftrightarrow>
     (\<forall>c d. c \<in> alive s \<and> \<not> cIsShareStack s c \<and> d \<in> alive s \<and> d \<noteq> c \<longrightarrow> stack_mem s d \<noteq> stack_mem s c) \<and>
     (\<forall>c \<in> set (pCallStack s). \<not> cIsMain s c \<longrightarrow> cStart s c \<and> (c \<noteq> GetCurrCo s \<longrightarrow> \<not> ctx_fresh s c)) \<and>
     (\<forall>c. resting_co s c \<longrightarrow> stack_bytes s c = img c) \<and>
     (\<forall>c \<in> alive s. cIsMain s c \<longrightarrow> \<not> cIsShareStack s c)"

lemma own_invD:
  assumes "own_inv s img"
  shows "\<And>c d. c \<in> alive s \<Longrightarrow> \<not> cIsShareStack s c \<Longrightarrow> d \<in> alive s \<Longrightarrow> d \<noteq> c \<Longrightarrow> stack_mem s d \<noteq> stack_mem s c"
    "\<And>c. c \<in> set (pCallStack s) \<Longrightarrow> \<not> cIsMain s c \<Longrightarrow> cStart s c"
    "\<And>c. c \<in> set (pCallStack s) \<Longrightarrow> \<not> cIsMain s c \<Longrightarrow> c \<noteq> GetCurrCo s \<Longrightarrow> \<not> ctx_fresh s c"
    "\<And>c. resting_co s c \<Longrightarrow> stack_bytes s c = img c"
    "\<And>c. c \<in> alive s \<Longrightarrow> cIsMain s c \<Longrightarrow> \<not> cIsShareStack s c"
  using assms unfolding own_inv_def by blast+

lemma GetCurrCo_cong: "pCallStack t = pCallStack s \<Longrightarrow> GetCurrCo t = GetCurrCo s"
  by (simp add: GetCurrCo_def)

lemma mem_occupant_unsuspended:
  assumes "share_inv s img" "\<not> suspended_co s c" "c \<noteq> GetCurrCo s"
  shows "mem_occupy s m \<noteq> Some c"
  using share_invD(4) [OF assms(1), of m c] assms(2,3) by auto

text \<open>Resuming: a coroutine that was not started gets a fresh context first.\<close>

lemma share_inv_start:
  assumes inv: "share_inv s img" and c: "c \<noteq> GetCurrCo s" "\<not> cStart s c"
  shows "share_inv (s\<lparr>ctx_fresh := (ctx_fresh s)(c := True), cStart := (cStart s)(c := True)\<rparr>) img"
proof -
  let ?t = "s\<lparr>ctx_fresh := (ctx_fresh s)(c := True), cStart := (cStart s)(c := True)\<rparr>"
  have cur: "GetCurrCo ?t = GetCurrCo s" by (rule GetCurrCo_cong) simp
  have susp: "suspended_co ?t d \<longleftrightarrow> suspended_co s d" for d
    using c cur by (auto simp: suspended_co_def)
  have "saved_ok ?t img d = saved_ok s img d" for d by (simp add: saved_ok_def stack_bytes_def)
  then show ?thesis using inv cur susp unfolding share_inv_def by (simp del: fun_upd_apply) auto
qed

lemma co_resume_inv:
  assumes inv: "share_inv s img" "call_inv s" and c: "c \<in> alive s" "c \<notin> set (pCallStack s)"
    and sp: "sp_ok s sp" and t: "co_resume c sp s = Some t"
  shows "share_inv t (swapped_img s sp img)" "call_inv t"
    "suspended_co s c \<Longrightarrow> stack_bytes t c = img c" "pCallStack t = pCallStack s @ [c]"
proof -
  have cs: "pCallStack s \<noteq> []" using inv(2) by (simp add: call_inv_def)
  then have ne: "c \<noteq> GetCurrCo s" using c(2) by (auto simp: GetCurrCo_def)
  let ?s = "if \<not> cStart s c
    then s\<lparr>ctx_fresh := (ctx_fresh s)(c := True), cStart := (cStart s)(c := True)\<rparr> else s"
  have cur: "GetCurrCo ?s = GetCurrCo s" "pCallStack ?s = pCallStack s" "alive ?s = alive s"
    "mem_data ?s = mem_data s" "stack_mem ?s = stack_mem s" "mem_size ?s = mem_size s"
    "cIsShareStack ?s = cIsShareStack s"
    by (simp_all add: GetCurrCo_def)
  have t_eq: "t = co_swap (GetCurrCo ?s) c sp (?s\<lparr>pCallStack := pCallStack s @ [c]\<rparr>)"
    using t unfolding co_resume_def Let_def by (simp add: cur GetCurrCo_def split: if_splits)
  have inv': "share_inv ?s img" using share_inv_start [OF inv(1) ne] inv(1) by simp
  have st: "cStart ?s c" by simp
  have p3: "suspended_co ?s c \<or> ctx_fresh ?s c \<or> \<not> cIsShareStack ?s c"
    using c(1) ne cur(1) by (auto simp: suspended_co_def)
  have sp': "cIsShareStack ?s (GetCurrCo ?s) \<Longrightarrow> sp < mem_size ?s (stack_mem ?s (GetCurrCo ?s))"
    using sp cur by (simp add: sp_ok_def)
  have "share_inv t (img(GetCurrCo ?s := drop sp (mem_data ?s (stack_mem ?s (GetCurrCo ?s)))))"
    unfolding t_eq
    by (rule co_swap_inv [OF inv' _ _ _ _ _ p3 sp']) (use ne c(1) st cur in \<open>simp_all del: if_split\<close>)
  then show "share_inv t (swapped_img s sp img)" unfolding swapped_img_def cur .
  show cst: "pCallStack t = pCallStack s @ [c]" by (simp add: t_eq)
  then have curt: "GetCurrCo t = c" by (simp add: GetCurrCo_def)
  show "call_inv t"
    using inv(2) c curt cst unfolding call_inv_def
    by (auto simp: t_eq GetCurrCo_def)
  show "stack_bytes t c = img c" if "suspended_co s c"
    using that co_swap_restores [OF inv', of c] unfolding t_eq by (simp add: suspended_co_def)
qed

lemma call_stack_split:
  assumes "call_inv s" "2 \<le> length (pCallStack s)"
  obtains cs p where "pCallStack s = cs @ [p, GetCurrCo s]"
proof -
  obtain xs x where x: "pCallStack s = xs @ [x]"
    using assms(2) by (cases "pCallStack s" rule: rev_cases) auto
  then obtain ys y where "xs = ys @ [y]" using assms(2) by (cases xs rule: rev_cases) auto
  with x that show ?thesis by (simp add: GetCurrCo_def)
qed

lemma co_yield_inv:
  assumes inv: "share_inv s img" "call_inv s" and sp: "sp_ok s sp" and t: "co_yield_env sp s = Some t"
  shows "share_inv t (swapped_img s sp img)" "call_inv t"
    "cIsShareStack s (GetCurrCo t) \<Longrightarrow> stack_bytes t (GetCurrCo t) = img (GetCurrCo t)"
    "pCallStack t = butlast (pCallStack s)"
proof -
  have len: "2 \<le> length (pCallStack s)" using t by (simp add: co_yield_env_def split: if_splits)
  obtain cs p where cs: "pCallStack s = cs @ [p, GetCurrCo s]" by (rule call_stack_split [OF inv(2) len])
  let ?c = "GetCurrCo s"
  have t_eq: "t = co_swap ?c p sp (s\<lparr>pCallStack := cs @ [p]\<rparr>)"
    using t len unfolding co_yield_env_def Let_def by (simp add: cs nth_append butlast_append)
  have ne: "p \<noteq> ?c" and p: "p \<in> alive s" "cIsShareStack s p \<Longrightarrow> cStart s p \<and> \<not> ctx_fresh s p"
    using inv(2) unfolding call_inv_def by (auto simp: cs)
  have susp: "cIsShareStack s p \<Longrightarrow> suspended_co s p" using ne p by (auto simp: suspended_co_def)
  have sp': "cIsShareStack s ?c \<Longrightarrow> sp < mem_size s (stack_mem s ?c)" using sp by (simp add: sp_ok_def)
  have "share_inv t (img(?c := drop sp (mem_data s (stack_mem s ?c))))"
    unfolding t_eq by (rule co_swap_inv [OF inv(1) _ _ ne p(1) _ _ sp']) (use p susp in auto)
  then show "share_inv t (swapped_img s sp img)" by (simp add: swapped_img_def)
  show pt: "pCallStack t = butlast (pCallStack s)" by (simp add: t_eq cs butlast_append)
  have curt: "GetCurrCo t = p" by (simp add: t_eq)
  show "call_inv t"
    using inv(2) unfolding call_inv_def curt by (auto simp: t_eq cs)
  show "stack_bytes t (GetCurrCo t) = img (GetCurrCo t)" if "cIsShareStack s (GetCurrCo t)"
    using co_swap_restores [OF inv(1) susp] that unfolding t_eq curt [unfolded t_eq] by simp
qed

text \<open>The steps that do not switch: what matters to the invariant is unchanged.\<close>

lemma invs_frame:
  assumes inv: "share_inv s img" "call_inv s" and cs: "pCallStack t = pCallStack s"
    and al: "\<And>c. suspended_co t c \<Longrightarrow> suspended_co s c \<and> saved_ok t img c"
    and cur: "\<And>c. c \<in> set (pCallStack s) \<Longrightarrow> c \<in> alive t \<and> cIsShareStack t c = cIsShareStack s c \<and>
      cStart t c = cStart s c \<and> ctx_fresh t c = ctx_fresh s c \<and> stack_mem t c = stack_mem s c"
    and occ: "cIsShareStack s (GetCurrCo s) \<Longrightarrow>
      mem_occupy t (stack_mem s (GetCurrCo s)) = Some (GetCurrCo s)"
    and len: "\<And>m. length (mem_data t m) = mem_size t m"
    and occs: "\<And>m c. mem_occupy t m = Some c \<Longrightarrow> mem_occupy s m = Some c \<and>
      (c = GetCurrCo s \<or> suspended_co t c \<and> stack_mem t c = stack_mem s c)"
  shows "share_inv t img \<and> call_inv t"
proof -
  have c: "GetCurrCo t = GetCurrCo s" by (rule GetCurrCo_cong [OF cs])
  have mem: "GetCurrCo s \<in> set (pCallStack s)" using inv(2) by (simp add: call_inv_def GetCurrCo_def)
  have "stack_mem t d = m \<and> cIsShareStack t d \<and> (d = GetCurrCo t \<or> suspended_co t d)"
    if "mem_occupy t m = Some d" for m d
  proof -
    have a: "stack_mem s d = m \<and> cIsShareStack s d" using occs [OF that] share_invD(4) [OF inv(1)] by blast
    show ?thesis
    proof (cases "d = GetCurrCo s")
      case True
      with a cur [OF mem] c show ?thesis by simp
    next
      case False
      then have "suspended_co t d \<and> stack_mem t d = stack_mem s d" using occs [OF that] by blast
      with a show ?thesis by (simp add: suspended_co_def)
    qed
  qed
  then have "share_inv t img"
    using al cur [OF mem] occ len share_invD(6) [OF inv(1)] unfolding share_inv_def c by simp
  moreover have "call_inv t" using inv(2) cur unfolding call_inv_def cs c by simp
  ultimately show ?thesis by simp
qed

lemma saved_ok_cong:
  "saved_ok s img c \<Longrightarrow> stack_sp t c = stack_sp s c \<Longrightarrow> stack_mem t c = stack_mem s c \<Longrightarrow>
   mem_size t (stack_mem s c) = mem_size s (stack_mem s c) \<Longrightarrow>
   mem_data t (stack_mem s c) = mem_data s (stack_mem s c) \<or> mem_occupy s (stack_mem s c) \<noteq> Some c \<Longrightarrow>
   mem_occupy t (stack_mem s c) = mem_occupy s (stack_mem s c) \<Longrightarrow>
   save_buffer t c = save_buffer s c \<Longrightarrow> save_size t c = save_size s c \<Longrightarrow> saved_ok t img c"
  by (auto simp: saved_ok_def stack_bytes_def)

lemma run_inv:
  assumes inv: "share_inv s img" "call_inv s"
    and own: "\<And>x. \<not> cIsShareStack s (GetCurrCo s) \<Longrightarrow> suspended_co s x \<Longrightarrow> stack_mem s x \<noteq> stack_mem s (GetCurrCo s)"
    and d: "length d = mem_size s (stack_mem s (GetCurrCo s))"
  defines "t \<equiv> s\<lparr>mem_data := (mem_data s)(stack_mem s (GetCurrCo s) := d)\<rparr>"
  shows "share_inv t img \<and> call_inv t"
proof (rule invs_frame [OF inv])
  have c: "GetCurrCo t = GetCurrCo s" by (rule GetCurrCo_cong) (simp add: t_def)
  have su: "suspended_co t x = suspended_co s x" for x using c by (simp add: suspended_co_def t_def)
  note I = share_invD [OF inv(1)]
  show "suspended_co s x \<and> saved_ok t img x" if "suspended_co t x" for x
  proof -
    have x: "suspended_co s x" using that su by simp
    have "x \<noteq> GetCurrCo s" using x by (simp add: suspended_co_def)
    then have "mem_data t (stack_mem s x) = mem_data s (stack_mem s x) \<or> mem_occupy s (stack_mem s x) \<noteq> Some x"
      using I(2) own x by (cases "cIsShareStack s (GetCurrCo s)") (auto simp: t_def)
    then have "saved_ok t img x" by (intro saved_ok_cong [OF I(1) [OF x]]) (simp_all add: t_def)
    with x show ?thesis by simp
  qed
  show "mem_occupy s m = Some x \<and> (x = GetCurrCo s \<or> suspended_co t x \<and> stack_mem t x = stack_mem s x)"
    if "mem_occupy t m = Some x" for m x
  proof -
    have "mem_occupy s m = Some x" using that by (simp add: t_def)
    moreover have "stack_mem t x = stack_mem s x" by (simp add: t_def)
    ultimately show ?thesis using I(4) su by blast
  qed
  show "x \<in> alive t \<and> cIsShareStack t x = cIsShareStack s x \<and> cStart t x = cStart s x \<and>
      ctx_fresh t x = ctx_fresh s x \<and> stack_mem t x = stack_mem s x" if "x \<in> set (pCallStack s)" for x
    using that inv(2) by (simp add: t_def call_inv_def)
  show "length (mem_data t m) = mem_size t m" for m using I(3) d by (simp add: t_def)
  show "mem_occupy t (stack_mem s (GetCurrCo s)) = Some (GetCurrCo s)" if "cIsShareStack s (GetCurrCo s)"
    using I(2) [OF that] by (simp add: t_def)
qed (simp add: t_def)

lemma alloc_inv:
  assumes inv: "share_inv s img" "call_inv s"
    and m: "\<forall>c \<in> alive s. stack_mem s c \<noteq> m" "length bytes = sz"
  shows "share_inv (co_alloc_stackmem m sz bytes s) img \<and> call_inv (co_alloc_stackmem m sz bytes s)"
    (is "share_inv ?t img \<and> _")
proof (rule invs_frame [OF inv])
  have c: "GetCurrCo ?t = GetCurrCo s" by (rule GetCurrCo_cong) (simp add: co_alloc_stackmem_def)
  have su: "suspended_co ?t x = suspended_co s x" for x
    using c by (simp add: suspended_co_def co_alloc_stackmem_def)
  note I = share_invD [OF inv(1)]
  show "suspended_co s x \<and> saved_ok ?t img x" if "suspended_co ?t x" for x
  proof -
    have x: "suspended_co s x" using that su by simp
    then have "stack_mem s x \<noteq> m" using m(1) by (auto simp: suspended_co_def)
    then have "saved_ok ?t img x"
      by (intro saved_ok_cong [OF I(1) [OF x]]) (simp_all add: co_alloc_stackmem_def)
    with x show ?thesis by simp
  qed
  show "mem_occupy s k = Some x \<and> (x = GetCurrCo s \<or> suspended_co ?t x \<and> stack_mem ?t x = stack_mem s x)"
    if "mem_occupy ?t k = Some x" for k x
  proof -
    have "mem_occupy s k = Some x" using that by (simp add: co_alloc_stackmem_def split: if_splits)
    moreover have "stack_mem ?t x = stack_mem s x" by (simp add: co_alloc_stackmem_def)
    ultimately show ?thesis using I(4) su by blast
  qed
  show "x \<in> alive ?t \<and> cIsShareStack ?t x = cIsShareStack s x \<and> cStart ?t x = cStart s x \<and>
      ctx_fresh ?t x = ctx_fresh s x \<and> stack_mem ?t x = stack_mem s x" if "x \<in> set (pCallStack s)" for x
    using that inv(2) by (simp add: co_alloc_stackmem_def call_inv_def)
  show "length (mem_data ?t k) = mem_size ?t k" for k
    using I(3) m(2) by (simp add: co_alloc_stackmem_def)
  show "mem_occupy ?t (stack_mem s (GetCurrCo s)) = Some (GetCurrCo s)" if "cIsShareStack s (GetCurrCo s)"
  proof -
    have "stack_mem s (GetCurrCo s) \<noteq> m" using I(5) m(1) by blast
    then show ?thesis using I(2) [OF that] by (simp add: co_alloc_stackmem_def)
  qed
qed (simp add: co_alloc_stackmem_def)

lemma can_drop_occ:
  assumes inv: "share_inv s img" "call_inv s" and d: "can_drop s c" and x: "suspended_co s x" "x \<noteq> c"
  shows "mem_occupy s (stack_mem s c) = Some c \<longrightarrow> stack_mem s x \<noteq> stack_mem s c"
    "c \<noteq> GetCurrCo s"
  using d x inv(2) by (auto simp: can_drop_def call_inv_def GetCurrCo_def)

lemma drop_inv:
  assumes inv: "share_inv s img" "call_inv s" and d: "can_drop s c"
    and cs: "pCallStack t = pCallStack s" and gone: "\<not> suspended_co t c"
    and same: "stack_mem t = stack_mem s" "stack_sp t = stack_sp s" "mem_size t = mem_size s"
      "mem_data t = mem_data s" "cIsShareStack t = cIsShareStack s" "ctx_fresh t = ctx_fresh s"
      "\<And>x. x \<noteq> c \<Longrightarrow> cStart t x = cStart s x \<and> save_buffer t x = save_buffer s x \<and>
        save_size t x = save_size s x \<and> (x \<in> alive t \<longleftrightarrow> x \<in> alive s)"
      "mem_occupy t = (if mem_occupy s (stack_mem s c) = Some c
        then (mem_occupy s)(stack_mem s c := None) else mem_occupy s)"
  shows "share_inv t img \<and> call_inv t"
proof (rule invs_frame [OF inv cs])
  have c: "GetCurrCo t = GetCurrCo s" by (rule GetCurrCo_cong [OF cs])
  note I = share_invD [OF inv(1)]
  have cc: "c \<notin> set (pCallStack s)" using d by (simp add: can_drop_def)
  then have cn: "c \<noteq> GetCurrCo s" using inv(2) by (auto simp: call_inv_def GetCurrCo_def)
  have su: "suspended_co t x \<longleftrightarrow> suspended_co s x \<and> x \<noteq> c" for x
    using gone same(1-6) same(7) [of x] c by (cases "x = c") (auto simp: suspended_co_def)
  show "suspended_co s x \<and> saved_ok t img x" if "suspended_co t x" for x
  proof -
    have x: "suspended_co s x" "x \<noteq> c" using that su by auto
    have "mem_occupy t (stack_mem s x) = mem_occupy s (stack_mem s x)"
      using can_drop_occ(1) [OF inv d x] same(8) by auto
    then have "saved_ok t img x"
      using same x by (intro saved_ok_cong [OF I(1) [OF x(1)]]) auto
    with x show ?thesis by simp
  qed
  show "mem_occupy s k = Some x \<and> (x = GetCurrCo s \<or> suspended_co t x \<and> stack_mem t x = stack_mem s x)"
    if "mem_occupy t k = Some x" for k x
  proof -
    have k0: "mem_occupy s k = Some x" using that same(8) by (auto split: if_splits)
    moreover have "x \<noteq> c"
    proof
      assume "x = c"
      then have k: "mem_occupy s k = Some c" "k = stack_mem s c" using I(4) calculation by auto
      then have "mem_occupy t k = None" unfolding same(8) by simp
      with that show False by simp
    qed
    moreover have "x = GetCurrCo s \<or> suspended_co s x" using I(4) [OF k0] by simp
    ultimately show ?thesis by (simp add: su same(1))
  qed
  show "mem_occupy t (stack_mem s (GetCurrCo s)) = Some (GetCurrCo s)" if "cIsShareStack s (GetCurrCo s)"
  proof -
    have "stack_mem s (GetCurrCo s) \<noteq> stack_mem s c" if "mem_occupy s (stack_mem s c) = Some c"
    proof
      assume "stack_mem s (GetCurrCo s) = stack_mem s c"
      with that I(2) [OF \<open>cIsShareStack s (GetCurrCo s)\<close>] cn show False by (metis option.inject)
    qed
    then have "mem_occupy t (stack_mem s (GetCurrCo s)) = mem_occupy s (stack_mem s (GetCurrCo s))"
      unfolding same(8) by (cases "mem_occupy s (stack_mem s c) = Some c") (simp_all only: if_True if_False fun_upd_other simp_thms)
    then show ?thesis using I(2) [OF that] by (rule trans)
  qed
  show "x \<in> alive t \<and> cIsShareStack t x = cIsShareStack s x \<and> cStart t x = cStart s x \<and>
      ctx_fresh t x = ctx_fresh s x \<and> stack_mem t x = stack_mem s x" if "x \<in> set (pCallStack s)" for x
  proof -
    have "x \<noteq> c" using that cc by blast
    with that same(1,5,6) same(7) [of x] inv(2) show ?thesis by (simp add: call_inv_def)
  qed
  show "length (mem_data t m) = mem_size t m" for m using I(3) same by simp
qed

lemma reset_inv:
  assumes inv: "share_inv s img" "call_inv s" and d: "can_drop s c"
  shows "share_inv (co_reset c s) img \<and> call_inv (co_reset c s)"
proof (cases "cStart s c \<and> \<not> cIsMain s c")
  case True
  show ?thesis
    by (rule drop_inv [OF inv d])
      (use True in \<open>auto simp: co_reset_def release_occupied_def suspended_co_def GetCurrCo_def Let_def\<close>)
qed (use inv in \<open>auto simp: co_reset_def\<close>)

lemma free_inv:
  assumes inv: "share_inv s img" "call_inv s" and d: "can_drop s c"
  shows "share_inv (co_free c s) img \<and> call_inv (co_free c s)"
proof (cases "cIsShareStack s c")
  case True
  show ?thesis
    by (rule drop_inv [OF inv d])
      (use True in \<open>auto simp: co_free_def release_occupied_def suspended_co_def GetCurrCo_def Let_def\<close>)
next
  case False
  have "mem_occupy s (stack_mem s c) \<noteq> Some c" using False share_invD(4) [OF inv(1)] by blast
  show ?thesis
    by (rule drop_inv [OF inv d])
      (use False \<open>mem_occupy s (stack_mem s c) \<noteq> Some c\<close>
        in \<open>auto simp: co_free_def release_occupied_def suspended_co_def GetCurrCo_def Let_def\<close>)
qed

text \<open>A new coroutine is not in the call stack, not suspended and occupies nothing.\<close>

definition created :: "'c \<Rightarrow> bool \<Rightarrow> 'm \<Rightarrow> ('c, 'm) co_state \<Rightarrow> ('c, 'm) co_state" where
  "created c sh m s =
     s\<lparr>alive := insert c (alive s), cStart := (cStart s)(c := False),
       cEnd := (cEnd s)(c := False), cIsMain := (cIsMain s)(c := False),
       cEnableSysHook := (cEnableSysHook s)(c := False), cIsShareStack := (cIsShareStack s)(c := sh),
       ctx_fresh := (ctx_fresh s)(c := False), stack_mem := (stack_mem s)(c := m),
       stack_sp := (stack_sp s)(c := 0), save_size := (save_size s)(c := 0),
       save_buffer := (save_buffer s)(c := None)\<rparr>"

lemma created_inv:
  assumes inv: "share_inv s img" "call_inv s" and c: "c \<notin> alive s"
  shows "share_inv (created c sh m s) img \<and> call_inv (created c sh m s)" (is "share_inv ?t img \<and> _")
proof (rule invs_frame [OF inv])
  note I = share_invD [OF inv(1)]
  have cn: "c \<noteq> GetCurrCo s" using I(5) c by blast
  have cur: "GetCurrCo ?t = GetCurrCo s" by (rule GetCurrCo_cong) (simp add: created_def)
  have su: "suspended_co ?t x \<longleftrightarrow> suspended_co s x" for x
    using c cur by (cases "x = c") (simp_all add: suspended_co_def created_def)
  have sx: "stack_mem ?t x = stack_mem s x" if "x \<noteq> c" for x using that by (simp add: created_def)
  have nc: "x \<noteq> c" if "suspended_co s x" for x using that c by (auto simp: suspended_co_def)
  show "suspended_co s x \<and> saved_ok ?t img x" if "suspended_co ?t x" for x
  proof -
    have x: "suspended_co s x" using that su by simp
    have "saved_ok ?t img x"
      using nc [OF x] by (intro saved_ok_cong [OF I(1) [OF x]]) (simp_all add: created_def)
    with x show ?thesis by simp
  qed
  show "mem_occupy s k = Some x \<and> (x = GetCurrCo s \<or> suspended_co ?t x \<and> stack_mem ?t x = stack_mem s x)"
    if "mem_occupy ?t k = Some x" for k x
  proof -
    have k: "mem_occupy s k = Some x" using that by (simp add: created_def)
    then have "x = GetCurrCo s \<or> suspended_co s x" using I(4) by blast
    with k su sx nc show ?thesis by blast
  qed
  show "x \<in> alive ?t \<and> cIsShareStack ?t x = cIsShareStack s x \<and> cStart ?t x = cStart s x \<and>
      ctx_fresh ?t x = ctx_fresh s x \<and> stack_mem ?t x = stack_mem s x" if "x \<in> set (pCallStack s)" for x
  proof -
    have "x \<in> alive s" using that inv(2) by (simp add: call_inv_def)
    then show ?thesis using c by (cases "x = c") (simp_all add: created_def)
  qed
  show "length (mem_data ?t k) = mem_size ?t k" for k using I(3) by (simp add: created_def)
  show "mem_occupy ?t (stack_mem s (GetCurrCo s)) = Some (GetCurrCo s)" if "cIsShareStack s (GetCurrCo s)"
    using I(2) [OF that] by (simp add: created_def)
qed (simp add: created_def)

lemma co_create_env_eq:
  assumes "co_create_env c m bytes attr s = Some (sh, t)"
  shows "(\<exists>m' sh1. snd attr = Some sh1 \<and> m' \<in> set (stack_array sh1) \<and> t = created c True m' s) \<or>
    t = created c False m (co_alloc_stackmem m (nat (round_stack_size (fst attr))) bytes s)"
proof (cases "snd attr")
  case None
  then have "t = created c False m (co_alloc_stackmem m (nat (round_stack_size (fst attr))) bytes s)"
    using assms
    by (intro co_state.equality) (auto simp: co_create_env_def created_def co_alloc_stackmem_def Let_def)
  then show ?thesis by simp
next
  case (Some sh1)
  then obtain m' sh' where "co_get_stackmem sh1 = Some (m', sh')"
    using assms by (cases "co_get_stackmem sh1") (auto simp: co_create_env_def Let_def)
  moreover from this have "m' \<in> set (stack_array sh1)"
    by (auto simp: co_get_stackmem_def Let_def split: if_splits)
  moreover from Some calculation(1) have "t = created c True m' s"
    using assms by (intro co_state.equality) (auto simp: co_create_env_def Let_def created_def)
  ultimately show ?thesis using Some by blast
qed

section \<open>Stacks of their own\<close>

lemma resting_cong:
  "GetCurrCo t = GetCurrCo s \<Longrightarrow> c \<in> alive t \<longrightarrow> c \<in> alive s \<Longrightarrow> cIsShareStack t c = cIsShareStack s c \<Longrightarrow>
   cIsMain t c = cIsMain s c \<Longrightarrow> cStart t c \<longrightarrow> cStart s c \<Longrightarrow> ctx_fresh t c = ctx_fresh s c \<Longrightarrow>
   resting_co t c \<Longrightarrow> resting_co s c"
  by (auto simp: resting_co_def)

text \<open>Steps that do not switch and create nobody.\<close>

lemma own_keep:
  assumes own: "own_inv s img" and cs: "pCallStack t = pCallStack s"
    and same: "cIsShareStack t = cIsShareStack s" "cIsMain t = cIsMain s" "stack_mem t = stack_mem s"
      "stack_sp t = stack_sp s"
    and al: "alive t \<subseteq> alive s"
    and st: "\<And>c. c \<in> set (pCallStack s) \<Longrightarrow> cStart s c \<Longrightarrow> cStart t c"
      "\<And>c. c \<in> set (pCallStack s) \<Longrightarrow> ctx_fresh t c = ctx_fresh s c"
    and rest: "\<And>c. resting_co t c \<Longrightarrow> resting_co s c \<and> mem_data t (stack_mem s c) = mem_data s (stack_mem s c)"
  shows "own_inv t img"
proof -
  have c: "GetCurrCo t = GetCurrCo s" by (rule GetCurrCo_cong [OF cs])
  note O = own_invD [OF own]
  show ?thesis
    unfolding own_inv_def cs c same
  proof (intro conjI allI ballI impI)
    show "stack_mem s d \<noteq> stack_mem s x"
      if "x \<in> alive t \<and> \<not> cIsShareStack s x \<and> d \<in> alive t \<and> d \<noteq> x" for x d
      using that O(1) al by blast
    show "cStart t x" if "x \<in> set (pCallStack s)" "\<not> cIsMain s x" for x using O(2) [OF that] st(1) [OF that(1)] by simp
    show "\<not> ctx_fresh t x" if "x \<in> set (pCallStack s)" "\<not> cIsMain s x" "x \<noteq> GetCurrCo s" for x
      using O(3) [OF that] st(2) [OF that(1)] by simp
    show "stack_bytes t x = img x" if "resting_co t x" for x
      using rest [OF that] O(4) same by (simp add: stack_bytes_def)
    show "\<not> cIsShareStack s x" if "x \<in> alive t" "cIsMain s x" for x using O(5) that al by blast
  qed
qed

lemma created_own:
  assumes inv: "share_inv s img" "call_inv s" and own: "own_inv s img" and c: "c \<notin> alive s"
    and m: "\<forall>d \<in> alive s. sh \<longrightarrow> \<not> cIsShareStack s d \<longrightarrow> stack_mem s d \<noteq> m"
      "\<forall>d \<in> alive s. \<not> sh \<longrightarrow> stack_mem s d \<noteq> m"
  shows "own_inv (created c sh m s) img" (is "own_inv ?t img")
proof -
  note O = own_invD [OF own]
  have cur: "GetCurrCo ?t = GetCurrCo s" by (rule GetCurrCo_cong) (simp add: created_def)
  have cs: "x \<in> alive s" if "x \<in> set (pCallStack s)" for x using inv(2) that by (simp add: call_inv_def)
  have "stack_mem ?t d \<noteq> stack_mem ?t x"
    if a: "x \<in> alive ?t" "\<not> cIsShareStack ?t x" "d \<in> alive ?t" "d \<noteq> x" for x d
  proof -
    consider "x = c" "d \<in> alive s" | "d = c" "x \<in> alive s" | "x \<in> alive s" "d \<in> alive s" "x \<noteq> c" "d \<noteq> c"
      using a by (auto simp: created_def)
    then show ?thesis
    proof cases
      case 1
      then show ?thesis using a m by (auto simp: created_def)
    next
      case 2
      then show ?thesis using a m by (cases sh) (auto simp: created_def)
    next
      case 3
      then show ?thesis using a O(1) by (simp add: created_def)
    qed
  qed
  moreover have "\<not> cIsMain ?t x \<longrightarrow> cStart ?t x \<and> (x \<noteq> GetCurrCo ?t \<longrightarrow> \<not> ctx_fresh ?t x)"
    if "x \<in> set (pCallStack ?t)" for x
  proof -
    have "x \<in> set (pCallStack s)" using that by (simp add: created_def)
    then show ?thesis using O(2,3) cs [of x] c cur by (cases "x = c") (auto simp: created_def)
  qed
  moreover have "stack_bytes ?t x = img x" if "resting_co ?t x" for x
  proof -
    have "x \<noteq> c" using that by (auto simp: resting_co_def created_def)
    then have "resting_co s x" "stack_bytes ?t x = stack_bytes s x"
      using that cur by (auto simp: resting_co_def created_def stack_bytes_def)
    then show ?thesis using O(4) by simp
  qed
  moreover have "\<not> cIsShareStack ?t x" if "x \<in> alive ?t" "cIsMain ?t x" for x
    using that O(5) [of x] by (cases "x = c") (simp_all add: created_def)
  ultimately show ?thesis unfolding own_inv_def by blast
qed

lemma alloc_own:
  assumes own: "own_inv s img" and m: "\<forall>c \<in> alive s. stack_mem s c \<noteq> m"
  shows "own_inv (co_alloc_stackmem m sz bytes s) img" (is "own_inv ?t img")
proof (rule own_keep [OF own])
  have c: "GetCurrCo ?t = GetCurrCo s" by (rule GetCurrCo_cong) (simp add: co_alloc_stackmem_def)
  show "resting_co s x \<and> mem_data ?t (stack_mem s x) = mem_data s (stack_mem s x)" if "resting_co ?t x" for x
    using that m c by (auto simp: resting_co_def co_alloc_stackmem_def)
qed (simp_all add: co_alloc_stackmem_def)

text \<open>A switch to \<open>p\<close>, which becomes the last of the call stack.\<close>

lemma swap_own_bytes:
  assumes inv: "share_inv s img" and own: "own_inv s img" and p: "p \<in> alive s" "p \<noteq> GetCurrCo s"
    and x: "x \<in> alive s" "\<not> cIsShareStack s x"
  shows "stack_bytes (co_swap (GetCurrCo s) p sp (s\<lparr>pCallStack := cs\<rparr>)) x =
    drop (((stack_sp s)(GetCurrCo s := sp)) x) (mem_data s (stack_mem s x))"
proof -
  have "stack_mem s x \<noteq> stack_mem s p \<or> \<not> cIsShareStack s p"
    using own_invD(1) [OF own x p(1)] x(2) by metis
  then show ?thesis using co_swap_other_data [OF inv p(2) [symmetric]] by (simp add: stack_bytes_def)
qed

lemma swap_own:
  fixes sp :: nat
  assumes inv: "share_inv s img" and own: "own_inv s img" and p: "p \<in> alive s" "p \<noteq> GetCurrCo s"
    and cs: "cs \<noteq> []" "last cs = p" "\<And>c. c \<in> set cs \<Longrightarrow> \<not> cIsMain s c \<Longrightarrow> cStart s c \<and> (c \<noteq> p \<and> c \<noteq> GetCurrCo s \<longrightarrow> \<not> ctx_fresh s c)"
  defines "t \<equiv> co_swap (GetCurrCo s) p sp (s\<lparr>pCallStack := cs\<rparr>)"
  shows "own_inv t (img(GetCurrCo s := drop sp (mem_data s (stack_mem s (GetCurrCo s)))))"
    and "resting_co s p \<Longrightarrow> stack_bytes t p = img p"
proof -
  let ?c0 = "GetCurrCo s" let ?img = "img(?c0 := drop sp (mem_data s (stack_mem s ?c0)))"
  note O = own_invD [OF own]
  have cur: "GetCurrCo t = p" using cs by (simp add: t_def)
  have f: "alive t = alive s" "cIsShareStack t = cIsShareStack s" "cIsMain t = cIsMain s" "stack_mem t = stack_mem s"
    "pCallStack t = cs" "cStart t = cStart s" "ctx_fresh t = (ctx_fresh s)(?c0 := False)"
    by (simp_all add: t_def)
  have "stack_bytes t x = ?img x" if x: "resting_co t x" for x
  proof -
    have a: "x \<in> alive s" "\<not> cIsShareStack s x" using x by (simp_all add: resting_co_def f)
    show ?thesis
    proof (cases "x = ?c0")
      case True
      then show ?thesis using swap_own_bytes [OF inv own p a, of sp cs] by (simp add: t_def)
    next
      case False
      then have "resting_co s x" using x by (simp add: resting_co_def f)
      then show ?thesis using O(4) False swap_own_bytes [OF inv own p a, of sp cs] by (simp add: t_def stack_bytes_def)
    qed
  qed
  then show "own_inv t ?img"
    using O(1,5) cs(3) unfolding own_inv_def f cur by auto
  show "stack_bytes t p = img p" if "resting_co s p"
  proof -
    have "p \<in> alive s" "\<not> cIsShareStack s p" using that by (simp_all add: resting_co_def)
    from swap_own_bytes [OF inv own p this, of sp cs] show ?thesis
      using O(4) [OF that] p(2) by (simp add: t_def stack_bytes_def)
  qed
qed

lemma co_resume_own:
  assumes inv: "share_inv s img" "call_inv s" "own_inv s img" and c: "c \<in> alive s" "c \<notin> set (pCallStack s)"
    and t: "co_resume c sp s = Some t"
  shows "own_inv t (swapped_img s sp img)" "resting_co s c \<Longrightarrow> stack_bytes t c = img c"
proof -
  have cs: "pCallStack s \<noteq> []" using inv(2) by (simp add: call_inv_def)
  then have ne: "c \<noteq> GetCurrCo s" using c(2) by (auto simp: GetCurrCo_def)
  let ?s = "if \<not> cStart s c
    then s\<lparr>ctx_fresh := (ctx_fresh s)(c := True), cStart := (cStart s)(c := True)\<rparr> else s"
  have cur: "GetCurrCo ?s = GetCurrCo s" "pCallStack ?s = pCallStack s" "alive ?s = alive s"
    "mem_data ?s = mem_data s" "stack_mem ?s = stack_mem s" "cIsShareStack ?s = cIsShareStack s" "cIsMain ?s = cIsMain s"
    by (simp_all add: GetCurrCo_def)
  have t_eq: "t = co_swap (GetCurrCo ?s) c sp (?s\<lparr>pCallStack := pCallStack s @ [c]\<rparr>)"
    using t unfolding co_resume_def Let_def by (simp add: cur GetCurrCo_def split: if_splits)
  have inv': "share_inv ?s img" using share_inv_start [OF inv(1) ne] inv(1) by simp
  have "own_inv ?s img"
  proof (rule own_keep [OF inv(3)])
    show "resting_co s x \<and> mem_data ?s (stack_mem s x) = mem_data s (stack_mem s x)" if "resting_co ?s x" for x
      using that cur by (auto simp: resting_co_def split: if_splits)
  qed (use c in \<open>auto split: if_splits\<close>)
  note sw = swap_own [OF inv'(1) this, of c "pCallStack s @ [c]" sp, unfolded cur, folded t_eq [unfolded cur]]
  have st: "cStart ?s c" by simp
  have ok: "cStart ?s x \<and> (x \<noteq> c \<and> x \<noteq> GetCurrCo s \<longrightarrow> \<not> ctx_fresh ?s x)"
    if "x \<in> set (pCallStack s @ [c])" "\<not> cIsMain s x" for x
    using that own_invD(2,3) [OF inv(3), of x] by auto
  show "own_inv t (swapped_img s sp img)"
    unfolding swapped_img_def by (rule sw(1) [OF c(1) ne _ _ ok]) simp_all
  show "stack_bytes t c = img c" if "resting_co s c"
    by (rule sw(2) [OF c(1) ne _ _ ok]) (use that in \<open>auto simp: resting_co_def cur\<close>)
qed

lemma co_yield_own:
  assumes inv: "share_inv s img" "call_inv s" "own_inv s img" and t: "co_yield_env sp s = Some t"
  shows "own_inv t (swapped_img s sp img)"
    "\<not> cIsShareStack s (GetCurrCo t) \<Longrightarrow> \<not> cIsMain s (GetCurrCo t) \<Longrightarrow> stack_bytes t (GetCurrCo t) = img (GetCurrCo t)"
proof -
  have len: "2 \<le> length (pCallStack s)" using t by (simp add: co_yield_env_def split: if_splits)
  obtain cs p where cs: "pCallStack s = cs @ [p, GetCurrCo s]" by (rule call_stack_split [OF inv(2) len])
  let ?c = "GetCurrCo s"
  have t_eq: "t = co_swap ?c p sp (s\<lparr>pCallStack := cs @ [p]\<rparr>)"
    using t len unfolding co_yield_env_def Let_def by (simp add: cs nth_append butlast_append)
  have ne: "p \<noteq> ?c" and p: "p \<in> alive s" and pin: "p \<in> set (pCallStack s)"
    using inv(2) unfolding call_inv_def by (auto simp: cs)
  have "cStart s x \<and> (x \<noteq> p \<and> x \<noteq> ?c \<longrightarrow> \<not> ctx_fresh s x)" if "x \<in> set (cs @ [p])" "\<not> cIsMain s x" for x
    using that own_invD(2,3) [OF inv(3), of x] by (auto simp: cs)
  note sw = swap_own [OF inv(1,3) p ne, of "cs @ [p]" sp, folded t_eq, OF _ _ this]
  show "own_inv t (swapped_img s sp img)" unfolding swapped_img_def by (rule sw(1)) simp_all
  have curt: "GetCurrCo t = p" by (simp add: t_eq)
  show "stack_bytes t (GetCurrCo t) = img (GetCurrCo t)"
    if "\<not> cIsShareStack s (GetCurrCo t)" "\<not> cIsMain s (GetCurrCo t)"
  proof -
    have "resting_co s p" using that p ne own_invD(2,3) [OF inv(3) pin] by (simp add: resting_co_def curt)
    then show ?thesis using sw(2) curt by simp
  qed
qed

lemma co_end_inv:
  assumes inv: "share_inv s img" "call_inv s" "own_inv s img"
  defines "t \<equiv> s\<lparr>cEnd := (cEnd s)(GetCurrCo s := True)\<rparr>"
  shows "share_inv t img" "call_inv t" "own_inv t img" "GetCurrCo t = GetCurrCo s" "swapped_img t sp img = swapped_img s sp img"
    "sp_ok s sp \<Longrightarrow> sp_ok t sp"
proof -
  show c: "GetCurrCo t = GetCurrCo s" by (rule GetCurrCo_cong) (simp add: t_def)
  have "suspended_co t x = suspended_co s x" "saved_ok t img x = saved_ok s img x" "resting_co t x = resting_co s x" for x
    by (simp_all add: suspended_co_def resting_co_def c saved_ok_def stack_bytes_def, simp_all add: t_def)
  then show "share_inv t img" "own_inv t img"
    using inv(1,3) unfolding share_inv_def own_inv_def c by (simp_all add: t_def stack_bytes_def)
  show "call_inv t" using inv(2) unfolding call_inv_def c by (simp add: t_def)
  show "swapped_img t sp img = swapped_img s sp img" by (simp add: swapped_img_def c) (simp add: t_def)
  show "sp_ok s sp \<Longrightarrow> sp_ok t sp" unfolding sp_ok_def c by (simp add: t_def)
qed

lemma run_invs:
  assumes inv: "share_inv s img" "call_inv s" "own_inv s img"
    and d: "length d = mem_size s (stack_mem s (GetCurrCo s))"
  defines "t \<equiv> s\<lparr>mem_data := (mem_data s)(stack_mem s (GetCurrCo s) := d)\<rparr>"
  shows "share_inv t img \<and> call_inv t \<and> own_inv t img"
proof -
  have al: "GetCurrCo s \<in> alive s" by (rule share_invD(5) [OF inv(1)])
  have c: "GetCurrCo t = GetCurrCo s" by (rule GetCurrCo_cong) (simp add: t_def)
  have "stack_mem s x \<noteq> stack_mem s (GetCurrCo s)" if "\<not> cIsShareStack s (GetCurrCo s)" "suspended_co s x" for x
    using own_invD(1) [OF inv(3) al that(1)] that(2) by (auto simp: suspended_co_def)
  from run_inv [OF inv(1,2) this d] have "share_inv t img \<and> call_inv t" by (simp add: t_def)
  moreover have "own_inv t img"
  proof (rule own_keep [OF inv(3)])
    show "resting_co s x \<and> mem_data t (stack_mem s x) = mem_data s (stack_mem s x)" if x: "resting_co t x" for x
    proof -
      have r: "resting_co s x" using x c by (simp add: resting_co_def) (simp add: t_def)
      then have "stack_mem s (GetCurrCo s) \<noteq> stack_mem s x"
        using own_invD(1) [OF inv(3), of x "GetCurrCo s"] al by (auto simp: resting_co_def)
      with r show ?thesis by (simp add: t_def)
    qed
  qed (simp_all add: t_def)
  ultimately show ?thesis by blast
qed

lemma drop_own:
  assumes own: "own_inv s img" and d: "can_drop s c"
  shows "own_inv (co_reset c s) img" "own_inv (co_free c s) img"
proof -
  have "x \<noteq> c" if "x \<in> set (pCallStack s)" for x using d that by (auto simp: can_drop_def)
  then have keep: "own_inv t img" if "pCallStack t = pCallStack s" "cIsShareStack t = cIsShareStack s" "cIsMain t = cIsMain s"
      "stack_mem t = stack_mem s" "stack_sp t = stack_sp s" "mem_data t = mem_data s" "ctx_fresh t = ctx_fresh s"
      "alive t \<subseteq> alive s" "\<And>x. x \<noteq> c \<Longrightarrow> cStart t x = cStart s x" "\<And>x. cStart t x \<Longrightarrow> cStart s x" for t
    using that GetCurrCo_cong [OF that(1)]
    by (intro own_keep [OF own]) (auto simp: resting_co_def)
  show "own_inv (co_reset c s) img" "own_inv (co_free c s) img"
    by (rule keep; auto simp: co_reset_def co_free_def release_occupied_def Let_def split: if_splits)+
qed

lemma co_step_inv:
  assumes "co_step (s, img) (t, img')" and inv: "share_inv s img" "call_inv s" "own_inv s img"
  shows "share_inv t img' \<and> call_inv t \<and> own_inv t img'"
  using assms(1)
proof (cases rule: co_step.cases)
  case (run d)
  then show ?thesis using run_invs [OF inv] by simp
next
  case (resume c sp)
  then show ?thesis using co_resume_inv(1,2) [OF inv(1,2)] co_resume_own(1) [OF inv] by simp
next
  case (yield sp)
  then show ?thesis using co_yield_inv(1,2) [OF inv(1,2)] co_yield_own(1) [OF inv] by simp
next
  case (finish sp)
  note e = co_end_inv [OF inv]
  have "co_yield_env sp (s\<lparr>cEnd := (cEnd s)(GetCurrCo s := True)\<rparr>) = Some t"
    using finish by (simp add: CoRoutineFunc_end_def)
  then show ?thesis
    using co_yield_inv(1,2) [OF e(1,2)] co_yield_own(1) [OF e(1-3)] e(5,6) finish by metis
next
  case (alloc m bytes sz)
  then show ?thesis using alloc_inv [OF inv(1,2)] alloc_own [OF inv(3)] by simp
next
  case (create c m bytes attr sh)
  from co_create_env_eq [OF create(6)] show ?thesis
  proof
    assume "\<exists>m' sh1. snd attr = Some sh1 \<and> m' \<in> set (stack_array sh1) \<and> t = created c True m' s"
    then obtain m' sh1 where m': "snd attr = Some sh1" "m' \<in> set (stack_array sh1)" "t = created c True m' s" by blast
    have "\<forall>d \<in> alive s. True \<longrightarrow> \<not> cIsShareStack s d \<longrightarrow> stack_mem s d \<noteq> m'"
      using create(5) m' by (auto simp: shared_apart_def)
    then show ?thesis using created_inv [OF inv(1,2) create(2)] created_own [OF inv create(2), of True m'] m'(3) create(1)
      by simp
  next
    let ?s = "co_alloc_stackmem m (nat (round_stack_size (fst attr))) bytes s"
    assume t: "t = created c False m ?s"
    have a: "share_inv ?s img \<and> call_inv ?s" by (rule alloc_inv [OF inv(1,2) create(3,4)])
    have o: "own_inv ?s img" by (rule alloc_own [OF inv(3) create(3)])
    have c: "c \<notin> alive ?s" "\<forall>d \<in> alive ?s. stack_mem ?s d \<noteq> m"
      using create(2,3) by (simp_all add: co_alloc_stackmem_def)
    then show ?thesis using created_inv [of ?s img c False m] created_own [of ?s img c False m] a o t create(1) by simp
  qed
next
  case (reset c)
  then show ?thesis using reset_inv [OF inv(1,2)] drop_own(1) [OF inv(3)] by simp
next
  case (free c)
  then show ?thesis using free_inv [OF inv(1,2)] drop_own(2) [OF inv(3)] by simp
qed

text \<open>The states a thread reaches from its initialisation in an environment without coroutines.\<close>

definition empty_env :: "('c, 'm) co_state \<Rightarrow> bool" where
  "empty_env s \<longleftrightarrow> alive s = {} \<and> (\<forall>m. mem_occupy s m = None \<and> length (mem_data s m) = mem_size s m)"

inductive co_reach :: "('c, 'm) co_state \<Rightarrow> ('c \<Rightarrow> byte list) \<Rightarrow> bool" where
  start: "empty_env s \<Longrightarrow> length bytes = 131072 \<Longrightarrow>
    co_init_curr_thread_env self m bytes s = Some t \<Longrightarrow> co_reach t img"
| step: "co_reach s img \<Longrightarrow> co_step (s, img) (t, img') \<Longrightarrow> co_reach t img'"

lemma co_reach_inv: "co_reach s img \<Longrightarrow> share_inv s img \<and> call_inv s \<and> own_inv s img"
proof (induction rule: co_reach.induct)
  case (start s bytes self m t img)
  have t: "t = (created self False m (co_alloc_stackmem m 131072 bytes s))
      \<lparr>cIsMain := (cIsMain s)(self := True), pending_co := None, occupy_co := None, pCallStack := [self]\<rparr>"
    using start(3) by (intro co_state.equality) (auto simp: co_init_curr_thread_env_def co_create_env_def
        round_stack_size_eq Let_def created_def co_alloc_stackmem_def)
  have c: "GetCurrCo t = self" by (simp add: t)
  have "\<not> suspended_co t x" for x
    using start(1) by (cases "x = self") (simp_all add: suspended_co_def c, simp_all add: t created_def
        co_alloc_stackmem_def empty_env_def)
  then have "share_inv t img"
    using start(1,2) unfolding share_inv_def c
    by (simp add: t created_def co_alloc_stackmem_def empty_env_def)
  moreover have "call_inv t" unfolding call_inv_def c by (simp add: t created_def)
  moreover have "alive t = {self}" "cIsMain t self" "\<not> cIsShareStack t self"
    using start(1) by (simp_all add: t created_def co_alloc_stackmem_def empty_env_def)
  then have "own_inv t img" unfolding own_inv_def resting_co_def c by (simp add: t)
  ultimately show ?case by simp
next
  case (step s img t img')
  then show ?case using co_step_inv by blast
qed

section \<open>Properties\<close>

lemma found_again:
  assumes inv: "share_inv s img" "call_inv s" "own_inv s img"
    and c: "c \<in> alive s" "c \<notin> set (pCallStack s)" "\<not> cIsMain s c" "cStart s c" "\<not> ctx_fresh s c" and sp: "sp_ok s sp"
  shows "(\<forall>t. co_resume c sp s = Some t \<longrightarrow> stack_bytes t c = img c) \<and>
    (\<forall>t. co_yield_env sp s = Some t \<and> \<not> cIsMain s (GetCurrCo t) \<longrightarrow>
       stack_bytes t (GetCurrCo t) = img (GetCurrCo t))"
proof -
  have ne: "c \<noteq> GetCurrCo s" using c(2) inv(2) by (auto simp: call_inv_def GetCurrCo_def)
  have "stack_bytes t c = img c" if "co_resume c sp s = Some t" for t
    using co_resume_inv(3) [OF inv(1,2) c(1,2) sp that] co_resume_own(2) [OF inv c(1,2) that] c ne
    by (cases "cIsShareStack s c") (simp_all add: suspended_co_def resting_co_def)
  moreover have "stack_bytes t (GetCurrCo t) = img (GetCurrCo t)"
    if "co_yield_env sp s = Some t" "\<not> cIsMain s (GetCurrCo t)" for t
    using co_yield_inv(3) [OF inv(1,2) sp that(1)] co_yield_own(2) [OF inv that(1)] that(2) by blast
  ultimately show ?thesis by blast
qed



text \<open>C40
  Resetting a coroutine that occupies a shared stack loses the saved bytes of the others: the next
  resume of a coroutine whose bytes are in its save buffer copies nothing back, because \<open>co_reset\<close>
  has cleared the occupant, so it runs on the bytes the reset coroutine left.\<close>

theorem reset_occupant_corrupts:
  assumes "share_inv s img" "suspended_co s c" "c \<notin> set (pCallStack s)"
    and "mem_occupy s (stack_mem s c) = Some b" "b \<noteq> c" "cStart s b" "\<not> cIsMain s b"
    and "co_resume c sp (co_reset b s) = Some t"
  shows "stack_bytes t c = stack_bytes s c"
proof -
  let ?s = "co_reset b s"
  have sb: "stack_mem s b = stack_mem s c" using share_invD(4) [OF assms(1,4)] by simp
  have r: "mem_occupy ?s (stack_mem s c) = None" "stack_mem ?s = stack_mem s" "mem_data ?s = mem_data s"
    "cStart ?s c = cStart s c" "ctx_fresh ?s = ctx_fresh s" "GetCurrCo ?s = GetCurrCo s"
    "stack_sp ?s = stack_sp s" "cIsShareStack ?s = cIsShareStack s"
    using assms(4-7) sb by (simp_all add: co_reset_def release_occupied_def Let_def GetCurrCo_def)
  have c: "cStart s c" "c \<noteq> GetCurrCo s" using assms(2) by (simp_all add: suspended_co_def)
  have t: "t = co_swap (GetCurrCo s) c sp (?s\<lparr>pCallStack := pCallStack ?s @ [c]\<rparr>)"
    using assms(8) c(1) r(4,6) by (simp add: co_resume_def Let_def split: if_splits)
  have "evicted ?s c = None" using r by (simp add: evicted_def)
  then have "mem_data t = mem_data s" using c(2) r(3) by (simp add: t co_swap_data)
  moreover have "stack_mem t = stack_mem s" "stack_sp t c = stack_sp s c"
    using c(2) r by (simp_all add: t)
  ultimately show ?thesis by (simp add: stack_bytes_def)
qed

text \<open>The stack size of a coroutine is a positive multiple of the page size of at most 8 MB, and a
  requested size within the limit is only rounded up to the next page.\<close>

theorem stack_size_rounded:
  "4096 dvd round_stack_size n \<and> 4096 \<le> round_stack_size n \<and> round_stack_size n \<le> 8388608 \<and>
   (0 < n \<and> n \<le> 8388608 \<longrightarrow> n \<le> round_stack_size n \<and> round_stack_size n < n + 4096)"
proof -
  define s where "s = (if n \<le> 0 then 131072 else min n (8388608 :: int))"
  have s: "0 < s" "s \<le> 8388608" "round_stack_size n = (if s mod 4096 = 0 then s else s - s mod 4096 + 4096)"
    by (auto simp: round_stack_size_eq Let_def s_def)
  have m: "0 \<le> s mod 4096" "s mod 4096 < 4096" by simp_all
  have "4096 dvd s - s mod 4096" by (rule dvd_minus_mod)
  then have d: "4096 dvd round_stack_size n" unfolding s(3) by auto
  then obtain k where k: "round_stack_size n = 4096 * k" by blast
  have b: "s \<le> round_stack_size n" "round_stack_size n < s + 4096" using s(3) m by auto
  have "0 < k" "k < 2049" using k b s(1,2) by simp_all
  then have "4096 \<le> round_stack_size n" "round_stack_size n \<le> 8388608" unfolding k by simp_all
  moreover have "s = n" if "0 < n \<and> n \<le> 8388608" using that by (simp add: s_def)
  ultimately show ?thesis using b d by auto
qed

lemma word_and_minus_16: "uint (w AND - 16 :: u64) = uint w - uint w mod 16"
proof -
  have "w - (w AND 15) = w AND NOT (w AND 15)"
    by (rule disjunctive_diff_eq_and_not) (simp only: and.assoc [symmetric] bit.conj_cancel_left, simp)
  also have "\<dots> = w AND NOT 15" by (rule bit_eqI) (auto simp: bit_simps)
  finally have "w AND - 16 = w - (w AND 15)" by simp
  also have "w AND 15 = w mod 16" using take_bit_eq_mask [of 4 w] by (simp add: take_bit_eq_mod mask_eq_exp_minus_1)
  finally have "w AND - 16 = w - w mod 16" .
  moreover have "w mod 16 \<le> w" by (simp add: word_le_def uint_mod_distrib zmod_le_nonneg_dividend)
  ultimately show ?thesis by (simp add: uint_diff_le uint_mod_distrib)
qed

text \<open>The initial context of a coroutine has its stack pointer 16-byte aligned and inside the stack, with
  room for the return address it stores there, and passes the entry function and both arguments in
  the registers \<open>coctx_swap\<close> loads.\<close>

theorem coctx_make_aligned:
  assumes "24 \<le> uint (ss_size ctx)" "uint (ss_sp ctx) + uint (ss_size ctx) < 2 ^ 64"
    and "coctx_make pfn a a1 ctx = ((sp, w), ctx')"
  shows "uint sp mod 16 = 0 \<and> uint (ss_sp ctx) \<le> uint sp \<and>
    uint sp + 8 \<le> uint (ss_sp ctx) + uint (ss_size ctx) \<and> w = pfn \<and>
    regs ctx' ! kRSP = sp \<and> regs ctx' ! kRETAddr = pfn \<and> regs ctx' ! kRDI = a \<and> regs ctx' ! kRSI = a1"
proof -
  let ?x = "ss_sp ctx + ss_size ctx - 8"
  have "uint (ss_sp ctx + ss_size ctx) = uint (ss_sp ctx) + uint (ss_size ctx)"
    using assms(2) by (intro uint_add_small_u64)
  moreover have "8 \<le> uint (ss_sp ctx) + uint (ss_size ctx)"
    using assms(1) uint_ge_0 [of "ss_sp ctx"] by linarith
  then have "8 \<le> ss_sp ctx + ss_size ctx" using calculation by (simp add: word_le_def)
  ultimately have x: "uint ?x = uint (ss_sp ctx) + uint (ss_size ctx) - 8"
    by (simp add: uint_diff_le)
  have sp: "uint sp = uint ?x - uint ?x mod 16" "w = pfn"
    "ctx' = ctx\<lparr>regs := (replicate 14 0)[kRSP := sp, kRETAddr := pfn, kRDI := a, kRSI := a1]\<rparr>"
    using assms(3) word_and_minus_16 [of ?x] by (auto simp: coctx_make_def Let_def)
  have "0 \<le> uint ?x mod 16" "uint ?x mod 16 < 16" by simp_all
  then have b: "uint (ss_sp ctx) \<le> uint sp" "uint sp + 8 \<le> uint (ss_sp ctx) + uint (ss_size ctx)"
    using sp(1) x assms(1) by linarith+
  have "(uint ?x - uint ?x mod 16) mod 16 = 0" by (simp add: mod_diff_eq [symmetric])
  then have "uint sp mod 16 = 0" by (simp only: sp(1))
  moreover have "regs ctx' ! 13 = sp" "regs ctx' ! 9 = pfn" "regs ctx' ! 7 = a" "regs ctx' ! 8 = a1"
    unfolding sp(3) by (simp_all add: nth_list_update)
  ultimately show ?thesis using b sp(2) by blast
qed

section \<open>Concrete runs\<close>

text \<open>
  Coroutine 0 is the main one; 1 and 2 share the stack memory 1, of four bytes. Coroutine 1 runs,
  fills the stack with ones and yields; coroutine 2 does the same with twos.
\<close>

definition demo0 :: "(nat, nat) co_state" where
  "demo0 = \<lparr>pCallStack = [], pending_co = None, occupy_co = None, alive = {}, cStart = (\<lambda>_. False),
     cEnd = (\<lambda>_. False), cIsMain = (\<lambda>_. False), cEnableSysHook = (\<lambda>_. False),
     cIsShareStack = (\<lambda>_. False), ctx_fresh = (\<lambda>_. False), stack_mem = (\<lambda>_. 9), stack_sp = (\<lambda>_. 0),
     save_size = (\<lambda>_. 0), save_buffer = (\<lambda>_. None), mem_occupy = (\<lambda>_. None), mem_size = (\<lambda>_. 0),
     mem_data = (\<lambda>_. [])\<rparr>"

abbreviation demo_share :: "u32 \<Rightarrow> nat stShareStack" where
  "demo_share i \<equiv> \<lparr>alloc_idx = i, share_stack_size = 4, count = 1, stack_array = [1]\<rparr>"

definition demo1 :: "(nat, nat) co_state" where
  "demo1 = the (co_init_curr_thread_env 0 0 (replicate 131072 0) demo0)"

definition demo2 :: "(nat, nat) co_state" where
  "demo2 = co_alloc_stackmem 1 4 [0, 0, 0, 0] demo1"

definition demo3 :: "(nat, nat) co_state" where
  "demo3 = snd (the (co_create_env 1 5 (replicate 131072 0) (131072, Some (demo_share 0)) demo2))"

definition demo4 :: "(nat, nat) co_state" where
  "demo4 = snd (the (co_create_env 2 5 (replicate 131072 0) (131072, Some (demo_share 1)) demo3))"

definition demo5 :: "(nat, nat) co_state" where "demo5 = the (co_resume 1 0 demo4)"

definition demo6 :: "(nat, nat) co_state" where
  "demo6 = demo5\<lparr>mem_data := (mem_data demo5)(1 := [1, 1, 1, 1])\<rparr>"

definition demo7 :: "(nat, nat) co_state" where "demo7 = the (co_yield_env 1 demo6)"

definition demo8 :: "(nat, nat) co_state" where "demo8 = the (co_resume 2 0 demo7)"

definition demo9 :: "(nat, nat) co_state" where
  "demo9 = demo8\<lparr>mem_data := (mem_data demo8)(1 := [2, 2, 2, 2])\<rparr>"

definition demo10 :: "(nat, nat) co_state" where "demo10 = the (co_yield_env 0 demo9)"

text \<open>The fields of each state.\<close>

declare One_nat_def [simp del]

lemma round_demo: "round_stack_size 131072 = 131072"
  by (simp add: round_stack_size_eq Let_def)

lemma demo1_run: "co_init_curr_thread_env 0 0 (replicate 131072 0) demo0 = Some demo1"
  by (simp add: demo1_def co_init_curr_thread_env_def co_create_env_def Let_def)

lemma demo3_run: "\<exists>sh. co_create_env 1 5 (replicate 131072 0) (131072, Some (demo_share 0)) demo2 = Some (sh, demo3)"
  by (simp add: demo3_def co_create_env_def co_get_stackmem_def Let_def to_int32_def)

lemma demo4_run: "\<exists>sh. co_create_env 2 5 (replicate 131072 0) (131072, Some (demo_share 1)) demo3 = Some (sh, demo4)"
  by (simp add: demo4_def co_create_env_def co_get_stackmem_def Let_def to_int32_def)

lemma demo4_sel:
  "pCallStack demo4 = [0]" "alive demo4 = {0, 1, 2}" "stack_mem demo4 = (\<lambda>_. 9)(0 := 0, 1 := 1, 2 := 1)"
  "cIsShareStack demo4 = (\<lambda>_. False)(1 := True, 2 := True)" "cStart demo4 = (\<lambda>_. False)"
  "ctx_fresh demo4 = (\<lambda>_. False)" "mem_size demo4 = (\<lambda>_. 0)(0 := 131072, 1 := 4)"
  "cIsMain demo4 = (\<lambda>_. False)(0 := True)" "mem_occupy demo4 = (\<lambda>_. None)"
  by (auto simp: demo4_def demo3_def demo2_def demo1_def demo0_def co_create_env_def co_get_stackmem_def
      co_init_curr_thread_env_def co_alloc_stackmem_def round_demo Let_def to_int32_def fun_eq_iff)

lemma demo_reach4: "co_reach demo4 (\<lambda>_. [])"
proof -
  have "co_reach demo1 (\<lambda>_. [])"
    by (rule co_reach.start [OF _ _ demo1_run]) (simp_all add: empty_env_def demo0_def)
  moreover have "co_step (demo1, \<lambda>_. []) (demo2, \<lambda>_. [])"
    unfolding demo2_def
    by (rule co_step.alloc) (simp_all add: demo1_def demo0_def co_init_curr_thread_env_def
        co_create_env_def co_alloc_stackmem_def Let_def)
  ultimately have "co_reach demo2 (\<lambda>_. [])" by (rule co_reach.step)
  moreover obtain sh where
    "co_create_env 1 5 (replicate 131072 0) (131072, Some (demo_share 0)) demo2 = Some (sh, demo3)"
    using demo3_run by blast
  then have "co_step (demo2, \<lambda>_. []) (demo3, \<lambda>_. [])"
    by (rule co_step.create [rotated 4]) (simp_all add: shared_apart_def demo2_def demo1_def demo0_def
        co_init_curr_thread_env_def co_create_env_def co_alloc_stackmem_def round_demo Let_def)
  ultimately have "co_reach demo3 (\<lambda>_. [])" by (rule co_reach.step)
  moreover obtain sh' where
    "co_create_env 2 5 (replicate 131072 0) (131072, Some (demo_share 1)) demo3 = Some (sh', demo4)"
    using demo4_run by blast
  then have "co_step (demo3, \<lambda>_. []) (demo4, \<lambda>_. [])"
    by (rule co_step.create [rotated 4]) (auto simp: shared_apart_def demo3_def demo2_def demo1_def demo0_def
        co_init_curr_thread_env_def co_create_env_def co_alloc_stackmem_def co_get_stackmem_def
        to_int32_def round_demo Let_def)
  ultimately show ?thesis by (rule co_reach.step)
qed

lemma demo5_run: "co_resume 1 0 demo4 = Some demo5"
  by (simp add: demo5_def co_resume_def Let_def demo4_sel)

lemma demo5_eq:
  "demo5 = co_swap 0 1 0 (demo4\<lparr>ctx_fresh := (ctx_fresh demo4)(1 := True), cStart := (cStart demo4)(1 := True),
     pCallStack := [0, 1]\<rparr>)"
  by (simp add: demo5_def co_resume_def Let_def demo4_sel GetCurrCo_def)

lemma demo6_sel:
  "pCallStack demo6 = [0, 1]" "alive demo6 = {0, 1, 2}" "stack_mem demo6 = (\<lambda>_. 9)(0 := 0, 1 := 1, 2 := 1)"
  "cIsShareStack demo6 = (\<lambda>_. False)(1 := True, 2 := True)" "cStart demo6 = (\<lambda>_. False)(1 := True)"
  "ctx_fresh demo6 = (\<lambda>_. False)(1 := True)" "mem_size demo6 = (\<lambda>_. 0)(0 := 131072, 1 := 4)"
  "mem_occupy demo6 = (\<lambda>_. None)(1 := Some 1)"
  "mem_data demo6 1 = [1, 1, 1, 1]"
  by (auto simp: demo6_def demo5_eq demo4_sel fun_eq_iff)

lemma demo7_eq: "demo7 = co_swap 1 0 1 (demo6\<lparr>pCallStack := [0]\<rparr>)"
  by (simp add: demo7_def co_yield_env_def Let_def demo6_sel)

lemma demo7_run: "co_yield_env 1 demo6 = Some demo7"
  by (simp add: demo7_def co_yield_env_def Let_def demo6_sel)

lemma demo7_sel:
  "pCallStack demo7 = [0]" "alive demo7 = {0, 1, 2}" "stack_mem demo7 = (\<lambda>_. 9)(0 := 0, 1 := 1, 2 := 1)"
  "cIsShareStack demo7 = (\<lambda>_. False)(1 := True, 2 := True)" "cStart demo7 = (\<lambda>_. False)(1 := True)"
  "ctx_fresh demo7 = (\<lambda>_. False)" "mem_size demo7 = (\<lambda>_. 0)(0 := 131072, 1 := 4)"
  "mem_occupy demo7 = (\<lambda>_. None)(1 := Some 1)"
  by (auto simp: demo7_eq demo6_sel)

lemma demo8_run: "co_resume 2 0 demo7 = Some demo8"
  by (simp add: demo8_def co_resume_def Let_def demo7_sel)

lemma demo8_eq:
  "demo8 = co_swap 0 2 0 (demo7\<lparr>ctx_fresh := (ctx_fresh demo7)(2 := True), cStart := (cStart demo7)(2 := True),
     pCallStack := [0, 2]\<rparr>)"
  by (simp add: demo8_def co_resume_def Let_def demo7_sel GetCurrCo_def)

lemma demo9_sel:
  "pCallStack demo9 = [0, 2]" "alive demo9 = {0, 1, 2}" "stack_mem demo9 = (\<lambda>_. 9)(0 := 0, 1 := 1, 2 := 1)"
  "cIsShareStack demo9 = (\<lambda>_. False)(1 := True, 2 := True)"
  "cStart demo9 = (\<lambda>_. False)(1 := True, 2 := True)"
  "ctx_fresh demo9 = (\<lambda>_. False)(2 := True)" "mem_size demo9 = (\<lambda>_. 0)(0 := 131072, 1 := 4)"
  "mem_occupy demo9 = (\<lambda>_. None)(1 := Some 2)"
  "mem_data demo9 1 = [2, 2, 2, 2]"
  by (auto simp: demo9_def demo8_eq demo7_sel fun_eq_iff)

lemma demo10_eq: "demo10 = co_swap 2 0 0 (demo9\<lparr>pCallStack := [0]\<rparr>)"
  by (simp add: demo10_def co_yield_env_def Let_def demo9_sel)

lemma demo10_run: "co_yield_env 0 demo9 = Some demo10"
  by (simp add: demo10_def co_yield_env_def Let_def demo9_sel)

lemma demo10_sel:
  "pCallStack demo10 = [0]" "alive demo10 = {0, 1, 2}" "stack_mem demo10 = (\<lambda>_. 9)(0 := 0, 1 := 1, 2 := 1)"
  "cIsShareStack demo10 = (\<lambda>_. False)(1 := True, 2 := True)"
  "cStart demo10 = (\<lambda>_. False)(1 := True, 2 := True)" "stack_sp demo10 1 = 1"
  "ctx_fresh demo10 = (\<lambda>_. False)" "mem_occupy demo10 = (\<lambda>_. None)(1 := Some 2)"
  "mem_data demo10 1 = [2, 2, 2, 2]" "cIsMain demo10 2 = False" "GetCurrCo demo10 = 0"
proof -
  have "stack_sp demo10 1 = 1"
    by (simp add: demo10_eq demo9_def demo8_eq demo7_eq)
  moreover have "evicted demo9 0 = None" by (simp add: evicted_def demo9_sel)
  then have "mem_data demo10 1 = [2, 2, 2, 2]" by (simp add: demo10_eq co_swap_data demo9_sel)
  moreover have "cIsMain demo10 2 = cIsMain demo4 2"
    by (simp add: demo10_eq demo9_def demo8_eq demo7_eq demo6_def demo5_eq)
  then have "cIsMain demo10 2 = False" by (simp add: demo4_sel)
  ultimately show "pCallStack demo10 = [0]" "alive demo10 = {0, 1, 2}"
    "stack_mem demo10 = (\<lambda>_. 9)(0 := 0, 1 := 1, 2 := 1)"
    "cIsShareStack demo10 = (\<lambda>_. False)(1 := True, 2 := True)"
    "cStart demo10 = (\<lambda>_. False)(1 := True, 2 := True)" "stack_sp demo10 1 = 1"
    "ctx_fresh demo10 = (\<lambda>_. False)" "mem_occupy demo10 = (\<lambda>_. None)(1 := Some 2)"
    "mem_data demo10 1 = [2, 2, 2, 2]" "cIsMain demo10 2 = False" "GetCurrCo demo10 = 0"
    by (auto simp: demo10_eq demo9_sel GetCurrCo_def)
qed

lemma demo10_main: "cIsMain demo10 = (\<lambda>_. False)(0 := True)" "mem_size demo10 = (\<lambda>_. 0)(0 := 131072, 1 := 4)"
proof -
  have "cIsMain demo10 = cIsMain demo4"
    by (simp add: demo10_eq demo9_def demo8_eq demo7_eq demo6_def demo5_eq)
  then show "cIsMain demo10 = (\<lambda>_. False)(0 := True)" by (simp add: demo4_sel)
  have "mem_size demo10 = mem_size demo4"
    by (simp add: demo10_eq demo9_def demo8_eq demo7_eq demo6_def demo5_eq)
  then show "mem_size demo10 = (\<lambda>_. 0)(0 := 131072, 1 := 4)" by (simp add: demo4_sel)
qed

lemma demo_reach10: "\<exists>img. co_reach demo10 img \<and> img 1 = [1, 1, 1]"
proof -
  have c: "GetCurrCo demo4 = 0" "GetCurrCo demo6 = 1" "GetCurrCo demo7 = 0" "GetCurrCo demo9 = 2"
    "GetCurrCo demo5 = 1" "GetCurrCo demo8 = 2"
    by (simp_all add: GetCurrCo_def demo4_sel demo6_sel demo7_sel demo9_sel demo5_eq demo8_eq)
  have "co_step (demo4, \<lambda>_. []) (demo5, swapped_img demo4 0 (\<lambda>_. []))"
    by (rule co_step.resume [OF _ _ _ demo5_run]) (simp_all add: demo4_sel sp_ok_def c)
  with demo_reach4 obtain i5 where i5: "co_reach demo5 i5" by (metis co_reach.step)
  have "co_step (demo5, i5) (demo5\<lparr>mem_data := (mem_data demo5)(stack_mem demo5 (GetCurrCo demo5) := [1, 1, 1, 1])\<rparr>, i5)"
    by (rule co_step.run) (simp_all add: c, simp_all add: demo5_eq demo4_sel)
  then have "co_step (demo5, i5) (demo6, i5)" by (simp add: demo6_def c) (simp add: demo5_eq demo4_sel)
  with i5 have i6: "co_reach demo6 i5" by (rule co_reach.step)
  have "co_step (demo6, i5) (demo7, swapped_img demo6 1 i5)"
    by (rule co_step.yield [OF _ demo7_run]) (simp add: demo6_sel sp_ok_def c)
  with i6 have i7: "co_reach demo7 (swapped_img demo6 1 i5)" by (rule co_reach.step)
  have im: "swapped_img demo6 1 i5 1 = [1, 1, 1]" by (simp add: swapped_img_def c demo6_sel drop_Cons')
  let ?i7 = "swapped_img demo6 1 i5" and ?i8 = "swapped_img demo7 0 (swapped_img demo6 1 i5)"
  have "co_step (demo7, ?i7) (demo8, ?i8)"
    by (rule co_step.resume [OF _ _ _ demo8_run]) (simp_all add: demo7_sel sp_ok_def c)
  with i7 have i8: "co_reach demo8 ?i8" by (rule co_reach.step)
  have "co_step (demo8, ?i8) (demo8\<lparr>mem_data := (mem_data demo8)(stack_mem demo8 (GetCurrCo demo8) := [2, 2, 2, 2])\<rparr>, ?i8)"
    by (rule co_step.run) (simp_all add: c, simp_all add: demo8_eq demo7_sel, simp add: demo7_eq demo6_def demo5_eq demo4_sel)
  then have "co_step (demo8, ?i8) (demo9, ?i8)" by (simp add: demo9_def c) (simp add: demo8_eq demo7_sel)
  with i8 have i9: "co_reach demo9 ?i8" by (rule co_reach.step)
  have "co_step (demo9, ?i8) (demo10, swapped_img demo9 0 ?i8)"
    by (rule co_step.yield [OF _ demo10_run]) (simp add: demo9_sel sp_ok_def c)
  with i9 have "co_reach demo10 (swapped_img demo9 0 ?i8)" by (rule co_reach.step)
  moreover have "swapped_img demo9 0 ?i8 1 = ?i8 1" "?i8 1 = ?i7 1" by (simp_all add: swapped_img_def c)
  ultimately show ?thesis using im by metis
qed



theorem reset_occupant_corrupts_witness:
  "\<exists>img t. co_reach demo10 img \<and> img 1 = [1, 1, 1] \<and>
     co_resume 1 0 (co_reset 2 demo10) = Some t \<and> stack_bytes t 1 = [2, 2, 2]"
proof -
  obtain img where img: "co_reach demo10 img" "img 1 = [1, 1, 1]" using demo_reach10 by blast
  have "pCallStack (co_reset 2 demo10) = [0]"
    by (simp add: co_reset_def release_occupied_def Let_def demo10_sel)
  then obtain t where t: "co_resume 1 0 (co_reset 2 demo10) = Some t"
    by (simp add: co_resume_def Let_def)
  have "stack_bytes t 1 = stack_bytes demo10 1"
    by (rule reset_occupant_corrupts [OF conjunct1 [OF co_reach_inv [OF img(1)]] _ _ _ _ _ _ t])
      (simp_all add: suspended_co_def demo10_sel)
  with img t show ?thesis by (auto simp: stack_bytes_def demo10_sel drop_Cons')
qed

theorem stack_size_rounded_witness: "5000 \<le> round_stack_size 5000 \<and> round_stack_size 5000 < 9096"
  using stack_size_rounded [of 5000] by simp

theorem coctx_make_aligned_witness:
  "\<exists>sp w ctx. coctx_make 77 1 2 \<lparr>regs = [], ss_size = 131072, ss_sp = 4096\<rparr> = ((sp, w), ctx) \<and>
     uint sp mod 16 = 0 \<and> regs ctx ! kRETAddr = 77"
proof -
  obtain sp w ctx where c: "coctx_make 77 1 2 \<lparr>regs = [], ss_size = 131072, ss_sp = 4096\<rparr> = ((sp, w), ctx)"
    by (metis surj_pair)
  from coctx_make_aligned [OF _ _ c] c show ?thesis by auto
qed

declare One_nat_def [simp]

end
