(* ===== verification/Context_Switch.thy ===== *)
theory Context_Switch
  imports Coroutine
begin

text \<open>
  The context switch \<open>coctx_swap\<close> of \<open>src/coctx_swap.S\<close> in its \<open>x86_64\<close> branch, instruction by
  instruction, on the registers and the memory of the processor. The lemmas show that a call saves the
  registers of its caller and loads those of the other context, that a coroutine that is swapped in
  again goes on behind its own call with all its registers, and that the first switch to a context
  \<open>coctx_make\<close> has made enters the function of the coroutine as the ABI asks for.
\<close>

section \<open>The processor\<close>

datatype reg = RAX | RBX | RCX | RDX | RSI | RDI | RBP | RSP | R8 | R9 | R10 | R11 | R12 | R13 | R14 | R15

text \<open>The memory as the words at the multiples of 8. The flags are not looked at.\<close>

record cpu =
  gpr :: "reg \<Rightarrow> u64"
  ram :: "u64 \<Rightarrow> u64"
  rip :: u64

text \<open>The operands are in the order of the assembler: the source first. A displacement and a register are
  an operand in memory.\<close>

datatype instr =
    Lea u64 reg reg
  | Store reg u64 reg
  | Load u64 reg reg
  | Xor reg reg
  | PushMem u64 reg
  | Ret

text \<open>An access to a word that is not aligned is outside of the model.\<close>

definition aligned :: "u64 \<Rightarrow> bool" where
  "aligned a \<longleftrightarrow> take_bit 3 a = 0"

definition read_word :: "u64 \<Rightarrow> cpu \<Rightarrow> u64 option" where
  "read_word a c = (if aligned a then Some (ram c a) else None)"

definition write_word :: "u64 \<Rightarrow> u64 \<Rightarrow> cpu \<Rightarrow> cpu option" where
  "write_word a v c = (if aligned a then Some (c\<lparr>ram := (ram c)(a := v)\<rparr>) else None)"

definition set_reg :: "reg \<Rightarrow> u64 \<Rightarrow> cpu \<Rightarrow> cpu" where
  "set_reg r v c = c\<lparr>gpr := (gpr c)(r := v)\<rparr>"

fun exec_instr :: "instr \<Rightarrow> cpu \<Rightarrow> cpu option" where
  "exec_instr (Lea d b r) c = Some (set_reg r (gpr c b + d) c)"
| "exec_instr (Store r d b) c = write_word (gpr c b + d) (gpr c r) c"
| "exec_instr (Load d b r) c = map_option (\<lambda>v. set_reg r v c) (read_word (gpr c b + d) c)"
| "exec_instr (Xor r q) c = Some (set_reg q (xor (gpr c q) (gpr c r)) c)"
| "exec_instr (PushMem d b) c =
     Option.bind (read_word (gpr c b + d) c) (\<lambda>v. write_word (gpr c RSP - 8) v (set_reg RSP (gpr c RSP - 8) c))"
| "exec_instr Ret c =
     map_option (\<lambda>v. (set_reg RSP (gpr c RSP + 8) c)\<lparr>rip := v\<rparr>) (read_word (gpr c RSP) c)"

section \<open>The code\<close>

text \<open>The part that saves the caller, and the part that loads the other context.\<close>

definition coctx_save :: "instr list" where
  "coctx_save =
     [Lea 0 RSP RAX, Store RAX 104 RDI, Store RBX 96 RDI, Store RCX 88 RDI, Store RDX 80 RDI, Load 0 RAX RAX,
      Store RAX 72 RDI, Store RSI 64 RDI, Store RDI 56 RDI, Store RBP 48 RDI, Store R8 40 RDI, Store R9 32 RDI,
      Store R12 24 RDI, Store R13 16 RDI, Store R14 8 RDI, Store R15 0 RDI]"

definition coctx_load :: "instr list" where
  "coctx_load =
     [Load 48 RSI RBP, Load 104 RSI RSP, Load 0 RSI R15, Load 8 RSI R14, Load 16 RSI R13, Load 24 RSI R12,
      Load 32 RSI R9, Load 40 RSI R8, Load 56 RSI RDI, Load 80 RSI RDX, Load 88 RSI RCX, Load 96 RSI RBX,
      Lea 8 RSP RSP, PushMem 72 RSI, Load 64 RSI RSI, Ret]"

definition coctx_swap :: "cpu \<Rightarrow> cpu option" where
  "coctx_swap = fold_opt exec_instr (coctx_save @ [Xor RAX RAX] @ coctx_load)"

section \<open>Contexts in memory\<close>

text \<open>The fourteen words of the \<open>regs\<close> of a \<open>coctx_t\<close> at an address.\<close>

definition ctx_words :: "(u64 \<Rightarrow> u64) \<Rightarrow> u64 \<Rightarrow> u64 list" where
  "ctx_words m a = map (\<lambda>i. m (a + i)) [0, 8, 16, 24, 32, 40, 48, 56, 64, 72, 80, 88, 96, 104]"

definition ctx_area :: "u64 \<Rightarrow> u64 set" where
  "ctx_area a = (+) a ` {0, 8, 16, 24, 32, 40, 48, 56, 64, 72, 80, 88, 96, 104}"

text \<open>What a call saves, and the registers behind a context that is loaded.\<close>

definition saved_regs :: "cpu \<Rightarrow> u64 list" where
  "saved_regs c =
     map (gpr c) [R15, R14, R13, R12, R9, R8, RBP, RDI, RSI] @ [ram c (gpr c RSP)] @ map (gpr c) [RDX, RCX, RBX, RSP]"

definition loaded_regs :: "u64 list \<Rightarrow> (reg \<Rightarrow> u64) \<Rightarrow> reg \<Rightarrow> u64" where
  "loaded_regs ws g =
     g(R15 := ws ! 0, R14 := ws ! 1, R13 := ws ! 2, R12 := ws ! 3, R9 := ws ! 4, R8 := ws ! 5, RBP := ws ! 6,
       RDI := ws ! 7, RSI := ws ! 8, RDX := ws ! 10, RCX := ws ! 11, RBX := ws ! 12, RSP := ws ! 13 + 8, RAX := 0)"

section \<open>Alignment\<close>

lemma aligned_uint: "aligned a \<longleftrightarrow> take_bit 3 (uint a) = 0"
  by (metis aligned_def unsigned_eq_0_iff unsigned_take_bit_eq)

lemma aligned_offset [simp]:
  assumes "aligned a" "take_bit 3 d = 0"
  shows "aligned (a + d)"
proof -
  have "take_bit 3 (uint a) = 0" "take_bit 3 (uint d) = 0"
    using assms aligned_uint [of a] aligned_uint [of d] by (simp_all add: aligned_def)
  then have "take_bit 3 (uint a + uint d) = 0" using take_bit_add [of 3 "uint a" "uint d"] by simp
  then show ?thesis by (simp add: aligned_uint uint_word_ariths take_bit_eq_mod mod_mod_cancel)
qed

lemma aligned_area: "aligned a \<Longrightarrow> x \<in> ctx_area a \<Longrightarrow> aligned x"
  by (auto simp: ctx_area_def)

section \<open>One switch\<close>

lemma save_part:
  assumes "aligned (gpr c RDI)" "aligned (gpr c RSP)" "gpr c RSP \<notin> ctx_area (gpr c RDI)"
  shows "\<exists>m. fold_opt exec_instr coctx_save c = Some (c\<lparr>gpr := (gpr c)(RAX := ram c (gpr c RSP)), ram := m\<rparr>) \<and>
    ctx_words m (gpr c RDI) = saved_regs c \<and> (\<forall>x. x \<notin> ctx_area (gpr c RDI) \<longrightarrow> m x = ram c x)"
proof -
  let ?a = "gpr c RDI" and ?g = "gpr c"
  let ?m = "(ram c)(?a + 104 := ?g RSP, ?a + 96 := ?g RBX, ?a + 88 := ?g RCX, ?a + 80 := ?g RDX,
      ?a + 72 := ram c (?g RSP), ?a + 64 := ?g RSI, ?a + 56 := ?a, ?a + 48 := ?g RBP, ?a + 40 := ?g R8,
      ?a + 32 := ?g R9, ?a + 24 := ?g R12, ?a + 16 := ?g R13, ?a + 8 := ?g R14, ?a := ?g R15)"
  have "fold_opt exec_instr coctx_save c = Some (c\<lparr>gpr := ?g(RAX := ram c (?g RSP)), ram := ?m\<rparr>)"
    using assms by (simp add: coctx_save_def write_word_def read_word_def set_reg_def ctx_area_def)
  moreover have "ctx_words ?m ?a = saved_regs c" by (simp add: ctx_words_def saved_regs_def)
  moreover have "\<forall>x. x \<notin> ctx_area ?a \<longrightarrow> ?m x = ram c x" by (simp add: ctx_area_def)
  ultimately show ?thesis by blast
qed

lemma load_part:
  assumes "aligned (gpr c RSI)" "aligned (ctx_words (ram c) (gpr c RSI) ! 13)"
    and "ctx_words (ram c) (gpr c RSI) ! 13 \<notin> ctx_area (gpr c RSI)" "gpr c RAX = 0"
  shows "fold_opt exec_instr coctx_load c =
    (let ws = ctx_words (ram c) (gpr c RSI)
     in Some (c\<lparr>gpr := loaded_regs ws (gpr c), ram := (ram c)(ws ! 13 := ws ! 9), rip := ws ! 9\<rparr>))"
proof -
  have rax: "(gpr c)(RAX := 0) = gpr c" using assms(4) by (simp add: fun_eq_iff)
  have "gpr c RSI + 64 \<noteq> ram c (gpr c RSI + 104)"
    using assms(3) by (auto simp: ctx_words_def ctx_area_def)
  then show ?thesis using assms rax
    by (simp add: coctx_load_def write_word_def read_word_def set_reg_def ctx_words_def ctx_area_def loaded_regs_def
        Let_def fun_upd_twist)
qed

text \<open>What a call relies on: the two contexts and the words on top of the two stacks are aligned and do not
  overlap.\<close>

definition swap_ok :: "cpu \<Rightarrow> bool" where
  "swap_ok c \<longleftrightarrow>
     (let top = ctx_words (ram c) (gpr c RSI) ! 13
      in aligned (gpr c RDI) \<and> aligned (gpr c RSI) \<and> aligned (gpr c RSP) \<and> aligned top \<and>
         ctx_area (gpr c RDI) \<inter> ctx_area (gpr c RSI) = {} \<and> gpr c RSP \<notin> ctx_area (gpr c RDI) \<and>
         top \<notin> ctx_area (gpr c RDI) \<and> top \<notin> ctx_area (gpr c RSI))"

lemma ctx_words_cong: "(\<And>x. x \<in> ctx_area a \<Longrightarrow> m x = n x) \<Longrightarrow> ctx_words m a = ctx_words n a"
  by (simp add: ctx_words_def ctx_area_def)

lemma swap_effect:
  assumes "swap_ok c"
  shows "\<exists>m. let ws = ctx_words (ram c) (gpr c RSI) in
    coctx_swap c = Some (c\<lparr>gpr := loaded_regs ws (gpr c), ram := m, rip := ws ! 9\<rparr>) \<and>
    ctx_words m (gpr c RDI) = saved_regs c \<and> m (ws ! 13) = ws ! 9 \<and>
    (\<forall>x. x \<notin> ctx_area (gpr c RDI) \<and> x \<noteq> ws ! 13 \<longrightarrow> m x = ram c x)"
proof -
  note ok = assms [unfolded swap_ok_def Let_def]
  let ?ws = "ctx_words (ram c) (gpr c RSI)" and ?a = "gpr c RDI"
  obtain m where m: "fold_opt exec_instr coctx_save c = Some (c\<lparr>gpr := (gpr c)(RAX := ram c (gpr c RSP)), ram := m\<rparr>)"
    "ctx_words m ?a = saved_regs c" "\<forall>x. x \<notin> ctx_area ?a \<longrightarrow> m x = ram c x"
    using save_part [of c] ok by blast
  let ?c = "c\<lparr>gpr := (gpr c)(RAX := 0), ram := m\<rparr>"
  have ws: "ctx_words m (gpr c RSI) = ?ws" using m(3) ok by (intro ctx_words_cong) blast
  have "fold_opt exec_instr coctx_load ?c =
      Some (?c\<lparr>gpr := loaded_regs ?ws (gpr ?c), ram := m(?ws ! 13 := ?ws ! 9), rip := ?ws ! 9\<rparr>)"
    using load_part [of ?c] ok ws by (simp add: Let_def)
  moreover have "loaded_regs ?ws ((gpr c)(RAX := 0)) = loaded_regs ?ws (gpr c)"
    by (simp add: loaded_regs_def fun_eq_iff)
  moreover have "exec_instr (Xor RAX RAX) (c\<lparr>gpr := (gpr c)(RAX := ram c (gpr c RSP)), ram := m\<rparr>) = Some ?c"
    by (simp add: set_reg_def)
  ultimately have "coctx_swap c = Some (c\<lparr>gpr := loaded_regs ?ws (gpr c), ram := m(?ws ! 13 := ?ws ! 9), rip := ?ws ! 9\<rparr>)"
    using m(1) by (simp add: coctx_swap_def fold_opt_append del: exec_instr.simps)
  moreover have "ctx_words (m(?ws ! 13 := ?ws ! 9)) ?a = saved_regs c"
  proof -
    have "ctx_words (m(?ws ! 13 := ?ws ! 9)) ?a = ctx_words m ?a" using ok by (intro ctx_words_cong) auto
    then show ?thesis using m(2) by simp
  qed
  ultimately show ?thesis using m(3) by (intro exI [of _ "m(?ws ! 13 := ?ws ! 9)"]) (simp add: Let_def)
qed

section \<open>Coming back\<close>

lemma loaded_saved:
  "loaded_regs (saved_regs c) g r =
     (if r = RAX then 0 else if r = RSP then gpr c RSP + 8 else if r \<in> {R10, R11} then g r else gpr c r)"
  by (cases r) (simp_all add: loaded_regs_def saved_regs_def)

lemma saved_top: "saved_regs c ! 13 = gpr c RSP" "saved_regs c ! 9 = ram c (gpr c RSP)"
  by (simp_all add: saved_regs_def)

text \<open>C5: a coroutine that is swapped out and in again does not notice: let \<open>c\<close> be the processor when it calls
  \<open>coctx_swap\<close>, and \<open>d\<close> any later one that calls \<open>coctx_swap\<close> for the context it was saved in, with the
  words of this context untouched. The second call ends behind the first one: at its return address,
  with the stack pointer behind it, 0 as the result, and every register as it was, except for \<open>R10\<close>
  and \<open>R11\<close>, which a called function need not keep. The memory outside of the two contexts
  keeps its contents, but for the return address itself, which is written again.\<close>

theorem swap_returns:
  assumes "swap_ok c" "coctx_swap c = Some c1" "swap_ok d" "gpr d RSI = gpr c RDI"
    and "ctx_words (ram d) (gpr c RDI) = ctx_words (ram c1) (gpr c RDI)"
  shows "\<exists>d1. coctx_swap d = Some d1 \<and> rip d1 = ram c (gpr c RSP) \<and> gpr d1 RSP = gpr c RSP + 8 \<and> gpr d1 RAX = 0 \<and>
    (\<forall>r. r \<notin> {RAX, RSP, R10, R11} \<longrightarrow> gpr d1 r = gpr c r) \<and>
    ram d1 (gpr c RSP) = ram c (gpr c RSP) \<and>
    (\<forall>x. x \<notin> ctx_area (gpr d RDI) \<and> x \<noteq> gpr c RSP \<longrightarrow> ram d1 x = ram d x)"
proof -
  have "ctx_words (ram c1) (gpr c RDI) = saved_regs c"
    using swap_effect [OF assms(1)] assms(2) by (auto simp: Let_def)
  then have w: "ctx_words (ram d) (gpr d RSI) = saved_regs c" using assms(4,5) by simp
  obtain m where "coctx_swap d = Some (d\<lparr>gpr := loaded_regs (saved_regs c) (gpr d), ram := m, rip := saved_regs c ! 9\<rparr>)"
    "m (saved_regs c ! 13) = saved_regs c ! 9"
    "\<forall>x. x \<notin> ctx_area (gpr d RDI) \<and> x \<noteq> saved_regs c ! 13 \<longrightarrow> m x = ram d x"
    using swap_effect [OF assms(3)] w by (auto simp: Let_def)
  then show ?thesis by (simp add: loaded_saved saved_top)
qed

section \<open>The first switch\<close>

lemma add_8_mod_16: "x mod 16 = 0 \<Longrightarrow> (x + 8) mod 16 = 8" for x :: int
  by presburger

text \<open>C23: the first switch to a coroutine enters its function the way the ABI asks for: when the context
  holds what \<open>coctx_make\<close> has made of it, with the return address it stores on the stack,
  \<open>coctx_swap\<close> ends at the entry of the function, with the two arguments in \<open>RDI\<close> and \<open>RSI\<close>, with a
  stack pointer that is 8 modulo 16, as it is behind a call, and inside the stack, and with 0 in the
  registers that a called function must keep. The registers of the caller are saved in its context, and
  besides this context only the word below the new stack pointer is written: the word the function would return
  to is none that \<open>coctx_make\<close> or \<open>coctx_swap\<close> has put there.\<close>

theorem first_switch:
  assumes "swap_ok c" "24 \<le> uint (ss_size ctx)" "uint (ss_sp ctx) + uint (ss_size ctx) < 2 ^ 64"
    and "coctx_make pfn a a1 ctx = ((sp, w), ctx')" "ctx_words (ram c) (gpr c RSI) = regs ctx'"
  shows "\<exists>c1. coctx_swap c = Some c1 \<and> rip c1 = pfn \<and> gpr c1 RDI = a \<and> gpr c1 RSI = a1 \<and>
    uint (gpr c1 RSP) mod 16 = 8 \<and> uint (ss_sp ctx) + 8 \<le> uint (gpr c1 RSP) \<and>
    uint (gpr c1 RSP) \<le> uint (ss_sp ctx) + uint (ss_size ctx) \<and>
    map (gpr c1) [RBX, RBP, R12, R13, R14, R15] = [0, 0, 0, 0, 0, 0] \<and>
    ctx_words (ram c1) (gpr c RDI) = saved_regs c \<and>
    (\<forall>x. x \<notin> ctx_area (gpr c RDI) \<and> x \<noteq> gpr c1 RSP - 8 \<longrightarrow> ram c1 x = ram c x)"
proof -
  note mk = coctx_make_aligned [OF assms(2,3,4)]
  obtain m where m: "coctx_swap c = Some (c\<lparr>gpr := loaded_regs (regs ctx') (gpr c), ram := m, rip := regs ctx' ! 9\<rparr>)"
    "ctx_words m (gpr c RDI) = saved_regs c"
    "\<forall>x. x \<notin> ctx_area (gpr c RDI) \<and> x \<noteq> regs ctx' ! 13 \<longrightarrow> m x = ram c x"
    using swap_effect [OF assms(1)] assms(5) by (auto simp: Let_def)
  have "uint (sp + 8) = uint sp + 8" using mk assms(3) by (subst uint_add_small_u64) auto
  moreover have "(uint sp + 8) mod 16 = 8" by (rule add_8_mod_16 [OF conjunct1 [OF mk]])
  moreover have "regs ctx' = (replicate 14 0)[kRSP := sp, kRETAddr := pfn, kRDI := a, kRSI := a1]"
    using assms(4) by (auto simp: coctx_make_def Let_def)
  then have "\<forall>i \<in> {0, 1, 2, 3, 6, 12}. regs ctx' ! i = 0" by simp
  ultimately show ?thesis using m mk by (auto simp: loaded_regs_def)
qed

section \<open>Concrete runs\<close>

text \<open>Two contexts at 4096 and 8192; the caller's stack ends at 65536 with the return address 555. The
  other context is one that \<open>coctx_make\<close> has made for a stack of 4096 bytes at 131072.\<close>

definition demo_ctx :: coctx where
  "demo_ctx = \<lparr>regs = [], ss_size = 4096, ss_sp = 131072\<rparr>"

definition demo_cpu :: cpu where
  "demo_cpu = \<lparr>gpr = (\<lambda>_. 1)(RDI := 4096, RSI := 8192, RSP := 65536),
     ram = (\<lambda>x. if x = 65536 then 555 else 0)(8192 + 104 := 135152, 8192 + 72 := 777, 8192 + 56 := 10, 8192 + 64 := 20),
     rip = 0\<rparr>"

lemma demo_swap_ok: "swap_ok demo_cpu"
  by (simp add: swap_ok_def demo_cpu_def ctx_words_def ctx_area_def aligned_def)

lemma demo_make:
  "coctx_make 777 10 20 demo_ctx =
     ((135152, 777), demo_ctx\<lparr>regs := ctx_words (ram demo_cpu) (gpr demo_cpu RSI)\<rparr>)"
proof -
  have sp: "(131072 + 4096 - 8 :: u64) AND (- 16) = 135152" by simp
  have l: "(replicate 14 0)[13 := 135152, 9 := 777, 7 := 10, 8 := 20 :: u64] =
      [0, 0, 0, 0, 0, 0, 0, 10, 20, 777, 0, 0, 0, 135152]" by (simp add: numeral_eq_Suc)
  have "ctx_words (ram demo_cpu) (gpr demo_cpu RSI) = [0, 0, 0, 0, 0, 0, 0, 10, 20, 777, 0, 0, 0, 135152]"
    by (simp add: ctx_words_def demo_cpu_def)
  then show ?thesis by (simp only: coctx_make_def demo_ctx_def Let_def sp l coctx.simps coctx.update_convs)
qed

theorem first_switch_witness:
  "\<exists>c1. coctx_swap demo_cpu = Some c1 \<and> rip c1 = 777 \<and> gpr c1 RDI = 10 \<and> gpr c1 RSI = 20 \<and>
     uint (gpr c1 RSP) mod 16 = 8 \<and> gpr c1 R15 = 0 \<and> gpr demo_cpu R15 = 1"
  using first_switch [OF demo_swap_ok _ _ demo_make] by (simp add: demo_ctx_def) (auto simp: demo_cpu_def)

theorem swap_returns_witness:
  "\<exists>c1 d1. coctx_swap demo_cpu = Some c1 \<and>
     coctx_swap (c1\<lparr>gpr := (gpr c1)(RDI := 8192, RSI := 4096)\<rparr>) = Some d1 \<and> rip d1 = 555 \<and> gpr d1 RSP = 65544 \<and>
     gpr d1 RBX = 1"
proof -
  obtain m where m: "coctx_swap demo_cpu = Some (demo_cpu\<lparr>gpr := loaded_regs
      (ctx_words (ram demo_cpu) 8192) (gpr demo_cpu), ram := m, rip := ctx_words (ram demo_cpu) 8192 ! 9\<rparr>)"
    "ctx_words m 4096 = saved_regs demo_cpu"
    using swap_effect [OF demo_swap_ok] by (auto simp: Let_def demo_cpu_def)
  let ?c1 = "demo_cpu\<lparr>gpr := loaded_regs (ctx_words (ram demo_cpu) 8192) (gpr demo_cpu), ram := m,
    rip := ctx_words (ram demo_cpu) 8192 ! 9\<rparr>"
  let ?d = "?c1\<lparr>gpr := (gpr ?c1)(RDI := 8192, RSI := 4096)\<rparr>"
  have "gpr ?c1 RSP = 135160" by (simp add: loaded_regs_def ctx_words_def demo_cpu_def)
  then have "swap_ok ?d"
    using m(2) by (simp add: swap_ok_def saved_top ctx_area_def aligned_def) (simp add: demo_cpu_def)
  moreover have "gpr ?d RSI = gpr demo_cpu RDI" by (simp add: demo_cpu_def)
  ultimately obtain d1 where "coctx_swap ?d = Some d1" "rip d1 = ram demo_cpu (gpr demo_cpu RSP)"
    "gpr d1 RSP = gpr demo_cpu RSP + 8" "\<forall>r. r \<notin> {RAX, RSP, R10, R11} \<longrightarrow> gpr d1 r = gpr demo_cpu r"
    using swap_returns [OF demo_swap_ok m(1), of ?d] by auto
  then show ?thesis using m(1) by (intro exI [of _ ?c1] exI [of _ d1]) (simp add: demo_cpu_def)
qed

end
