(* ===== verification/Timewheel.thy ===== *)
theory Timewheel
  imports Prelude
begin

unbundle bit_operations_syntax

text \<open>
  The hierarchical time wheel of \<open>src/timewheel\<close> (\<open>timewheel.cpp\<close>, \<open>timewheel.h\<close>, \<open>spinlock.h\<close>):
  256 near slots of one tick and four levels of 64 slots. A timer is placed by its distance from
  the current tick; each tick executes the near slot of the tick and moves the slot of a level that
  begins at it one level down. Ticks are 32-bit and wrap. The callbacks of the timers are a
  parameter; the spin lock is kept, so that taking it twice shows as \<open>None\<close>.
\<close>

section \<open>State\<close>

abbreviation "TIME_NEAR \<equiv> (256 :: nat)"
abbreviation "TIME_LEVEL \<equiv> (64 :: nat)"
abbreviation "TIME_NEAR_MASK \<equiv> (255 :: u32)"
abbreviation "TIME_LEVEL_MASK \<equiv> (63 :: u32)"

text \<open>\<open>fired\<close> records each callback that \<open>dispatch_list\<close> runs, with the node's expiry and the tick.\<close>

record 'n timeWheel =
  m_near :: "nat \<Rightarrow> 'n list"
  m_t :: "nat \<Rightarrow> nat \<Rightarrow> 'n list"
  m_lock :: bool
  m_time :: u32
  m_current_point :: u64
  m_expire :: "'n \<Rightarrow> u32"
  m_cancel :: "'n \<Rightarrow> bool"
  fired :: "('n \<times> u32 \<times> u32) list"

type_synonym 'n callback = "'n \<Rightarrow> 'n timeWheel \<Rightarrow> 'n timeWheel option"

text \<open>The spin lock of one thread: a second acquisition spins forever.\<close>

definition spinlock_lock :: "'n timeWheel \<Rightarrow> 'n timeWheel option" where
  "spinlock_lock s = (if m_lock s then None else Some (s\<lparr>m_lock := True\<rparr>))"

definition spinlock_unlock :: "'n timeWheel \<Rightarrow> 'n timeWheel" where
  "spinlock_unlock s = s\<lparr>m_lock := False\<rparr>"

section \<open>Placing a node\<close>

definition link_near :: "nat \<Rightarrow> 'n \<Rightarrow> 'n timeWheel \<Rightarrow> 'n timeWheel" where
  "link_near i node s = s\<lparr>m_near := (m_near s)(i := m_near s i @ [node])\<rparr>"

definition link_level :: "nat \<Rightarrow> nat \<Rightarrow> 'n \<Rightarrow> 'n timeWheel \<Rightarrow> 'n timeWheel" where
  "link_level k j node s = s\<lparr>m_t := (m_t s)(k := (m_t s k)(j := m_t s k j @ [node]))\<rparr>"

definition add_node :: "'n \<Rightarrow> 'n timeWheel \<Rightarrow> 'n timeWheel" where
  "add_node node s =
     (let time = m_expire s node;
          msec = time - m_time s
      in if msec < 256 then link_near (unat (time AND TIME_NEAR_MASK)) node s
         else if msec < 0x4000 then link_level 0 (unat (drop_bit 8 time AND TIME_LEVEL_MASK)) node s
         else if msec < 0x100000 then link_level 1 (unat (drop_bit 14 time AND TIME_LEVEL_MASK)) node s
         else if msec < 0x4000000 then link_level 2 (unat (drop_bit 20 time AND TIME_LEVEL_MASK)) node s
         else link_level 3 (unat (drop_bit 26 time AND TIME_LEVEL_MASK)) node s)"

text \<open>\<open>add_timer\<close> with a processing callback. \<open>node\<close> is the address \<open>malloc\<close> returns; its
  \<open>m_cancel\<close> is whatever the memory holds. The result says whether a node is returned.\<close>

definition add_timer ::
  "'n callback \<Rightarrow> 'n \<Rightarrow> int \<Rightarrow> 'n timeWheel \<Rightarrow> (bool \<times> 'n timeWheel) option" where
  "add_timer pfn node time s =
     Option.bind (spinlock_lock s) (\<lambda>s1.
       (let s2 = s1\<lparr>m_expire := (m_expire s1)(node := of_int time + m_time s1)\<rparr>
        in if time \<le> 0
           then map_option (\<lambda>s3. (False, spinlock_unlock s3)) (pfn node s2)
           else Some (True, spinlock_unlock (add_node node s2))))"

text \<open>The overload with a prepare callback links the node whatever the delay.\<close>

definition add_timer_prepare :: "'n \<Rightarrow> int \<Rightarrow> 'n timeWheel \<Rightarrow> 'n timeWheel option" where
  "add_timer_prepare node time s =
     map_option (\<lambda>s1. spinlock_unlock
         (add_node node (s1\<lparr>m_expire := (m_expire s1)(node := of_int time + m_time s1)\<rparr>)))
       (spinlock_lock s)"

definition del_timer :: "'n \<Rightarrow> 'n timeWheel \<Rightarrow> 'n timeWheel" where
  "del_timer node s = s\<lparr>m_cancel := (m_cancel s)(node := True)\<rparr>"

text \<open>\<open>clear_timer\<close>: the first loop clears \<open>m_near->head\<close>, the list of slot 0, 256 times.\<close>

definition clear_timer :: "'n timeWheel \<Rightarrow> 'n timeWheel" where
  "clear_timer s =
     (let s1 = fold (\<lambda>_ s. s\<lparr>m_near := (m_near s)(0 := [])\<rparr>) [0..<TIME_NEAR] s
      in s1\<lparr>m_t := (\<lambda>i j. if i < 4 \<and> j < TIME_LEVEL then [] else m_t s1 i j)\<rparr>)"

definition timeWheel_ctor :: "u64 \<Rightarrow> 'n timeWheel \<Rightarrow> 'n timeWheel" where
  "timeWheel_ctor now s = (clear_timer s)\<lparr>m_lock := False, m_time := 0, m_current_point := now\<rparr>"

section \<open>A tick\<close>

text \<open>The loop of \<open>move_list\<close> pops every node and places it again; it would not end if a node were
  placed into the same list.\<close>

partial_function (option) move_list :: "nat \<Rightarrow> nat \<Rightarrow> 'n timeWheel \<Rightarrow> 'n timeWheel option" where
  "move_list level idx s =
     (case m_t s level idx of
        [] \<Rightarrow> Some s
      | temp # rest \<Rightarrow>
          move_list level idx
            (add_node temp (s\<lparr>m_t := (m_t s)(level := (m_t s level)(idx := rest))\<rparr>)))"

text \<open>The loop of \<open>timer_shift\<close>, with the number of levels as its bound.\<close>

fun shift_loop :: "nat \<Rightarrow> nat \<Rightarrow> u32 \<Rightarrow> u32 \<Rightarrow> u32 \<Rightarrow> (nat \<times> nat) option" where
  "shift_loop 0 i msk time ct = None"
| "shift_loop (Suc fuel) i msk time ct =
     (if ct AND (msk - 1) = 0 then
        (let idx = unat (time AND TIME_LEVEL_MASK)
         in if idx \<noteq> 0 then Some (i, idx)
            else shift_loop fuel (i + 1) (push_bit 6 msk) (drop_bit 6 time) ct)
      else None)"

definition timer_shift :: "'n timeWheel \<Rightarrow> 'n timeWheel option" where
  "timer_shift s =
     (let ct = m_time s + 1; s1 = s\<lparr>m_time := ct\<rparr>
      in if ct = 0 then move_list 3 0 s1
         else (case shift_loop 4 0 256 (drop_bit 8 ct) ct of
                 None \<Rightarrow> Some s1
               | Some (i, idx) \<Rightarrow> move_list i idx s1))"

partial_function (option) dispatch_list :: "'n callback \<Rightarrow> nat \<Rightarrow> 'n timeWheel \<Rightarrow> 'n timeWheel option" where
  "dispatch_list pfn idx s =
     (case m_near s idx of
        [] \<Rightarrow> Some s
      | temp # rest \<Rightarrow>
          (let s1 = s\<lparr>m_near := (m_near s)(idx := rest)\<rparr>
           in Option.bind
                (if \<not> m_cancel s1 temp
                 then pfn temp (s1\<lparr>fired := fired s1 @ [(temp, m_expire s1 temp, m_time s1)]\<rparr>)
                 else Some s1)
                (dispatch_list pfn idx)))"

partial_function (option) execute_loop :: "'n callback \<Rightarrow> nat \<Rightarrow> 'n timeWheel \<Rightarrow> 'n timeWheel option" where
  "execute_loop pfn idx s =
     (if m_near s idx = [] then Some s
      else Option.bind (dispatch_list pfn idx (spinlock_unlock s)) (\<lambda>s1.
             Option.bind (spinlock_lock (s1\<lparr>m_near := (m_near s1)(idx := [])\<rparr>))
               (execute_loop pfn idx)))"

definition timer_execute :: "'n callback \<Rightarrow> 'n timeWheel \<Rightarrow> 'n timeWheel option" where
  "timer_execute pfn s = execute_loop pfn (unat (m_time s AND TIME_NEAR_MASK)) s"

definition timer_update :: "'n callback \<Rightarrow> 'n timeWheel \<Rightarrow> 'n timeWheel option" where
  "timer_update pfn s =
     Option.bind (spinlock_lock s) (\<lambda>s1.
     Option.bind (timer_execute pfn s1) (\<lambda>s2.
     Option.bind (timer_shift s2) (\<lambda>s3.
     Option.bind (timer_execute pfn s3) (\<lambda>s4. Some (spinlock_unlock s4)))))"

text \<open>\<open>expire_timer\<close>: one update for each hundredth of a second that passed.\<close>

fun timer_updates :: "'n callback \<Rightarrow> nat \<Rightarrow> 'n timeWheel \<Rightarrow> 'n timeWheel option" where
  "timer_updates pfn 0 s = Some s"
| "timer_updates pfn (Suc k) s = Option.bind (timer_update pfn s) (timer_updates pfn k)"

definition gettime :: "int \<Rightarrow> int \<Rightarrow> u64" where
  "gettime tv_sec tv_nsec = of_int tv_sec * 100 + of_int (tv_nsec div 10000000)"

definition expire_timer :: "'n callback \<Rightarrow> u64 \<Rightarrow> 'n timeWheel \<Rightarrow> 'n timeWheel option" where
  "expire_timer pfn cp s =
     (if cp \<noteq> m_current_point s
      then
        (let diff = to_int32 (cp - m_current_point s)
         in timer_updates pfn (nat diff) (s\<lparr>m_current_point := cp\<rparr>))
      else Some s)"

section \<open>Words read as integers\<close>

lemma uint_slot: "uint (drop_bit n w AND TIME_LEVEL_MASK) = (uint w div 2 ^ n) mod 64"
proof -
  have "drop_bit n w AND TIME_LEVEL_MASK = drop_bit n w mod 64"
    using take_bit_eq_mask [of 6 "drop_bit n w"] by (simp add: take_bit_eq_mod mask_eq_exp_minus_1)
  moreover have "uint (drop_bit n w) = uint w div 2 ^ n"
  proof -
    have "unat (drop_bit n w) = unat w div 2 ^ n" by (metis drop_bit_eq_div unat_drop_bit_eq)
    then have "int (unat (drop_bit n w)) = int (unat w) div 2 ^ n" by (simp only: zdiv_int) simp
    then show ?thesis by (simp only: of_nat_unat)
  qed
  ultimately show ?thesis by (simp only: uint_mod_distrib) simp
qed

lemma uint_near: "uint (w AND TIME_NEAR_MASK) = uint w mod 256"
proof -
  have "w AND TIME_NEAR_MASK = w mod 256"
    using take_bit_eq_mask [of 8 w] by (simp add: take_bit_eq_mod mask_eq_exp_minus_1)
  then show ?thesis by (simp add: uint_mod_distrib)
qed

lemma unat_slot: "unat (drop_bit n w AND TIME_LEVEL_MASK) = nat ((uint w div 2 ^ n) mod 64)"
  by (simp only: unat_eq_nat_uint uint_slot)

lemma unat_near: "unat (w AND TIME_NEAR_MASK) = nat (uint w mod 256)"
  by (simp only: unat_eq_nat_uint uint_near)

section \<open>Which list a tick moves\<close>

text \<open>The digits of a tick: the near index and the four level indices.\<close>

definition digit :: "nat \<Rightarrow> int \<Rightarrow> int" where
  "digit k x = (x div 2 ^ (8 + 6 * k)) mod 64"

lemma digit_bounds [simp]: "0 \<le> digit k x" "digit k x < 64"
  by (simp_all add: digit_def)

lemma mod_step: "x mod 2 ^ (8 + 6 * Suc k) = 2 ^ (8 + 6 * k) * digit k x + x mod 2 ^ (8 + 6 * k)"
  for x :: int
proof -
  have "x mod (2 ^ (8 + 6 * k) * 64) = 2 ^ (8 + 6 * k) * (x div 2 ^ (8 + 6 * k) mod 64) + x mod 2 ^ (8 + 6 * k)"
    by (rule zmod_zmult2_eq) simp
  moreover have "2 ^ (8 + 6 * Suc k) = (2 ^ (8 + 6 * k) * 64 :: int)" by (simp add: power_add)
  ultimately show ?thesis by (simp add: digit_def)
qed

lemma mod_step_zero:
  "(x :: int) mod 2 ^ (8 + 6 * Suc k) = 0 \<longleftrightarrow> digit k x = 0 \<and> x mod 2 ^ (8 + 6 * k) = 0"
proof -
  have "0 \<le> 2 ^ (8 + 6 * k) * digit k x" "0 \<le> x mod 2 ^ (8 + 6 * k)" by simp_all
  then show ?thesis unfolding mod_step by (auto simp: add_nonneg_eq_0_iff)
qed

lemma and_mask_zero:
  "ct AND (256 - 1) = 0 \<longleftrightarrow> uint (ct :: u32) mod 2 ^ (8 + 6 * 0) = 0"
  "ct AND (16384 - 1) = 0 \<longleftrightarrow> uint (ct :: u32) mod 2 ^ (8 + 6 * 1) = 0"
  "ct AND (1048576 - 1) = 0 \<longleftrightarrow> uint (ct :: u32) mod 2 ^ (8 + 6 * 2) = 0"
  "ct AND (67108864 - 1) = 0 \<longleftrightarrow> uint (ct :: u32) mod 2 ^ (8 + 6 * 3) = 0"
proof -
  have e: "ct AND mask n = 0 \<longleftrightarrow> uint ct mod 2 ^ n = 0" for n and ct :: u32
  proof -
    have "ct AND mask n = 0 \<longleftrightarrow> uint (take_bit n ct) = 0" by (simp only: take_bit_eq_mask uint_0_iff)
    also have "uint (take_bit n ct) = take_bit n (uint ct)" by (simp add: unsigned_take_bit_eq)
    finally show ?thesis by (simp add: take_bit_eq_mod)
  qed
  show "ct AND (256 - 1) = 0 \<longleftrightarrow> uint (ct :: u32) mod 2 ^ (8 + 6 * 0) = 0"
    "ct AND (16384 - 1) = 0 \<longleftrightarrow> uint (ct :: u32) mod 2 ^ (8 + 6 * 1) = 0"
    "ct AND (1048576 - 1) = 0 \<longleftrightarrow> uint (ct :: u32) mod 2 ^ (8 + 6 * 2) = 0"
    "ct AND (67108864 - 1) = 0 \<longleftrightarrow> uint (ct :: u32) mod 2 ^ (8 + 6 * 3) = 0"
    using e [of ct 8] e [of ct 14] e [of ct 20] e [of ct 26] by (simp_all add: mask_eq_exp_minus_1)
qed

lemma unat_digit:
  "unat (drop_bit 8 w AND TIME_LEVEL_MASK) = nat (digit 0 (uint w))"
  "unat (drop_bit 14 w AND TIME_LEVEL_MASK) = nat (digit 1 (uint w))"
  "unat (drop_bit 20 w AND TIME_LEVEL_MASK) = nat (digit 2 (uint w))"
  "unat (drop_bit 26 w AND TIME_LEVEL_MASK) = nat (digit 3 (uint w))"
  by (simp_all only: unat_slot digit_def) simp_all

definition shift_target :: "u32 \<Rightarrow> (nat \<times> nat) option" where
  "shift_target ct = (if ct = 0 then Some (3, 0) else shift_loop 4 0 256 (drop_bit 8 ct) ct)"

lemma timer_shift_target:
  "timer_shift s = (case shift_target (m_time s + 1) of
     None \<Rightarrow> Some (s\<lparr>m_time := m_time s + 1\<rparr>)
   | Some (k, j) \<Rightarrow> move_list k j (s\<lparr>m_time := m_time s + 1\<rparr>))"
  by (simp add: timer_shift_def shift_target_def Let_def split: option.split)

lemma shift_target_eq:
  "shift_target ct =
     (let t = uint ct in
      if t = 0 then Some (3, 0)
      else if t mod 256 \<noteq> 0 then None
      else if digit 0 t \<noteq> 0 then Some (0, nat (digit 0 t))
      else if digit 1 t \<noteq> 0 then Some (1, nat (digit 1 t))
      else if digit 2 t \<noteq> 0 then Some (2, nat (digit 2 t))
      else Some (3, nat (digit 3 t)))"
proof (cases "ct = 0")
  case False
  let ?t = "uint ct"
  have nz: "?t \<noteq> 0" using False by (simp add: uint_0_iff)
  have nat0: "nat (digit k ?t) = 0 \<longleftrightarrow> digit k ?t = 0" for k
    using digit_bounds(1) [of k ?t] by linarith
  have m1: "?t mod 2 ^ (8 + 6 * 1) = 0 \<longleftrightarrow> digit 0 ?t = 0 \<and> ?t mod 2 ^ (8 + 6 * 0) = 0"
    using mod_step_zero [of ?t 0] by simp
  have m2: "?t mod 2 ^ (8 + 6 * 2) = 0 \<longleftrightarrow> digit 1 ?t = 0 \<and> ?t mod 2 ^ (8 + 6 * 1) = 0"
    using mod_step_zero [of ?t 1] by (simp only: numeral_2_eq_2 One_nat_def)
  have m3: "?t mod 2 ^ (8 + 6 * 3) = 0 \<longleftrightarrow> digit 2 ?t = 0 \<and> ?t mod 2 ^ (8 + 6 * 2) = 0"
    using mod_step_zero [of ?t 2] by (simp only: numeral_3_eq_3 numeral_2_eq_2 One_nat_def)
  have m4: "digit 3 ?t \<noteq> 0" if "?t mod 2 ^ (8 + 6 * 3) = 0"
  proof
    assume z: "digit 3 ?t = 0"
    have "?t < 2 ^ 32" using uint_lt2p [of ct] by simp
    then have "?t mod 2 ^ (8 + 6 * Suc 3) = ?t" by simp
    moreover have "?t mod 2 ^ (8 + 6 * Suc 3) = 0" using z that by (simp only: mod_step_zero simp_thms)
    ultimately show False using nz by simp
  qed
  have p: "push_bit 6 (256 :: u32) = 16384" "push_bit 6 (16384 :: u32) = 1048576"
    "push_bit 6 (1048576 :: u32) = 67108864" by (simp_all add: push_bit_eq_mult)
  have d: "drop_bit 6 (drop_bit 8 ct) = drop_bit 14 ct" "drop_bit 6 (drop_bit 14 ct) = drop_bit 20 ct"
    "drop_bit 6 (drop_bit 20 ct) = drop_bit 26 ct" by (simp_all add: drop_bit_drop_bit)
  have f: "(4 :: nat) = Suc (Suc (Suc (Suc 0)))" by simp
  show ?thesis
    unfolding shift_target_def f shift_loop.simps p d and_mask_zero unat_digit m1 m2 m3 nat0 Let_def
    using False nz m4 m3 m2 m1 by (simp add: nat0)
qed (simp add: shift_target_def)

section \<open>Where a node belongs\<close>

text \<open>The ticks from \<open>T\<close> to the expiry \<open>e\<close>, and the expiry counted from the same origin as \<open>T\<close>, so
  that it does not wrap.\<close>

definition dist :: "u32 \<Rightarrow> u32 \<Rightarrow> int" where
  "dist T e = uint (e - T)"

definition due :: "u32 \<Rightarrow> u32 \<Rightarrow> int" where
  "due T e = uint T + dist T e"

abbreviation "width k \<equiv> (2 ^ (8 + 6 * k) :: int)"

text \<open>A node of a near slot is less than 256 ticks away. A node of a level slot is moved down, at the
  latest tick before its expiry that begins a slot of the level; that tick is ahead. Slot 0 of the
  first three levels is never moved down by \<open>timer_shift\<close>.\<close>

definition near_ok :: "u32 \<Rightarrow> u32 \<Rightarrow> nat \<Rightarrow> bool" where
  "near_ok T e i \<longleftrightarrow> dist T e < 256 \<and> i = nat (uint e mod 256)"

definition cascade :: "u32 \<Rightarrow> u32 \<Rightarrow> nat \<Rightarrow> int" where
  "cascade T e k = due T e div width k * width k"

definition level_ok :: "u32 \<Rightarrow> u32 \<Rightarrow> nat \<Rightarrow> nat \<Rightarrow> bool" where
  "level_ok T e k j \<longleftrightarrow> k < 4 \<and> j = nat (digit k (uint e)) \<and> (k < 3 \<longrightarrow> j \<noteq> 0) \<and>
     dist T e < width (Suc k) \<and> uint T < cascade T e k"

text \<open>A node that was placed into slot 0 of one of these levels stays there.\<close>

definition slot_ok :: "u32 \<Rightarrow> u32 \<Rightarrow> nat \<Rightarrow> nat \<Rightarrow> bool" where
  "slot_ok T e k j \<longleftrightarrow> level_ok T e k j \<or> k < 3 \<and> j = 0"

text \<open>An expiry for which \<open>add_node\<close> picks a slot that will be moved down.\<close>

definition placeable :: "u32 \<Rightarrow> u32 \<Rightarrow> bool" where
  "placeable T e \<longleftrightarrow>
     (\<forall>k < 3. width k \<le> dist T e \<and> dist T e < width (Suc k) \<longrightarrow> digit k (uint e) \<noteq> 0)"

lemma width_pos [simp]: "0 < width k"
  by simp

lemma width_Suc: "width (Suc k) = width k * 64"
  by (simp add: power_add)

lemma width_mono: "k \<le> l \<Longrightarrow> width k \<le> width l"
  by (rule power_increasing) auto

lemma dist_bounds: "0 \<le> dist T e" "dist T e < 2 ^ 32"
  using uint_lt2p [of "e - T"] by (simp_all add: dist_def)

lemma due_mod: "due T e mod 2 ^ 32 = uint e"
proof -
  have "uint (e - T) = (uint e - uint T) mod 2 ^ 32" by (simp add: uint_word_ariths)
  then have "due T e mod 2 ^ 32 = (uint T + (uint e - uint T)) mod 2 ^ 32"
    by (simp only: due_def dist_def mod_add_right_eq)
  then show ?thesis using uint_lt2p [of e] by simp
qed

lemma width_split:
  assumes "k < 4"
  obtains Q :: int where "2 ^ 32 = width k * (64 * Q)" "0 < Q"
proof (rule that [of "2 ^ (18 - 6 * k)"])
  have "(8 + 6 * k) + (6 + (18 - 6 * k)) = 32" using assms by simp
  then have "2 ^ 32 = width k * (2 ^ 6 * 2 ^ (18 - 6 * k))" by (simp only: power_add [symmetric])
  then show "2 ^ 32 = width k * (64 * 2 ^ (18 - 6 * k))" by simp
qed simp

lemma digit_mod:
  assumes "k < 4"
  shows "digit k (x mod 2 ^ 32) = digit k x"
proof -
  obtain Q where Q: "2 ^ 32 = width k * (64 * Q)" "0 < Q" using width_split [OF assms] by blast
  have "x mod (width k * (64 * Q)) = width k * (x div width k mod (64 * Q)) + x mod width k"
    using Q(2) by (intro zmod_zmult2_eq) simp
  then have "x mod (width k * (64 * Q)) div width k = x div width k mod (64 * Q)" by simp
  then have "digit k (x mod (width k * (64 * Q))) = (x div width k mod (64 * Q)) mod 64"
    by (simp only: digit_def)
  also have "\<dots> = digit k x" by (simp add: digit_def mod_mod_cancel)
  finally show ?thesis by (simp only: Q(1))
qed

lemma digit_due: "k < 4 \<Longrightarrow> digit k (due T e) = digit k (uint e)"
  using digit_mod [of k "due T e"] by (simp only: due_mod)

lemma near_due: "due T e mod 256 = uint e mod 256"
proof -
  have "(due T e mod 2 ^ 32) mod 256 = due T e mod 256" by (rule mod_mod_cancel) simp
  then show ?thesis by (simp only: due_mod)
qed

lemma cascade_gap: "due T e - width k < cascade T e k" "cascade T e k \<le> due T e"
proof -
  have "due T e = cascade T e k + due T e mod width k"
    unfolding cascade_def by (simp only: div_mult_mod_eq)
  moreover have "0 \<le> due T e mod width k" "due T e mod width k < width k" by simp_all
  ultimately show "due T e - width k < cascade T e k" "cascade T e k \<le> due T e" by linarith+
qed

lemma level_okI:
  assumes "k < 4" "width k \<le> dist T e" "dist T e < width (Suc k)" "k < 3 \<Longrightarrow> digit k (uint e) \<noteq> 0"
  shows "level_ok T e k (nat (digit k (uint e)))"
proof -
  have "uint T < cascade T e k" using cascade_gap(1) [of T e k] assms(2) by (simp add: due_def)
  moreover have "nat (digit k (uint e)) \<noteq> 0" if "k < 3"
    using assms(4) [OF that] digit_bounds(1) [of k "uint e"] by linarith
  ultimately show ?thesis using assms(1,3) by (simp add: level_ok_def)
qed

text \<open>The placement of \<open>add_node\<close>.\<close>

lemma msec_tests:
  "e - T < 256 \<longleftrightarrow> dist T e < 256" "e - T < 0x4000 \<longleftrightarrow> dist T e < width 1"
  "e - T < 0x100000 \<longleftrightarrow> dist T e < width 2" "e - T < 0x4000000 \<longleftrightarrow> dist T e < width 3"
  by (simp_all add: dist_def word_less_def)

lemma add_node_eq:
  "add_node n s =
     (let e = m_expire s n; d = dist (m_time s) e in
      if d < 256 then link_near (nat (uint e mod 256)) n s
      else if d < width 1 then link_level 0 (nat (digit 0 (uint e))) n s
      else if d < width 2 then link_level 1 (nat (digit 1 (uint e))) n s
      else if d < width 3 then link_level 2 (nat (digit 2 (uint e))) n s
      else link_level 3 (nat (digit 3 (uint e))) n s)"
  unfolding add_node_def Let_def msec_tests unat_digit unat_near ..

lemma add_node_cases:
  assumes "placeable (m_time s) (m_expire s n)"
  obtains (near) i where "near_ok (m_time s) (m_expire s n) i" "add_node n s = link_near i n s"
  | (level) k j where "level_ok (m_time s) (m_expire s n) k j" "add_node n s = link_level k j n s"
      "width k \<le> dist (m_time s) (m_expire s n)"
proof -
  let ?e = "m_expire s n" and ?d = "dist (m_time s) (m_expire s n)"
  have w: "width 0 = 256" "width 4 = 2 ^ 32" by simp_all
  have p: "digit k (uint ?e) \<noteq> 0" if "k < 3" "width k \<le> ?d" "?d < width (Suc k)" for k
    using assms that unfolding placeable_def by blast
  consider "?d < 256" | k where "k < 4" "width k \<le> ?d" "?d < width (Suc k)"
    "add_node n s = link_level k (nat (digit k (uint ?e))) n s"
  proof -
    consider "?d < 256" | "256 \<le> ?d" "?d < width 1" | "width 1 \<le> ?d" "?d < width 2"
      | "width 2 \<le> ?d" "?d < width 3" | "width 3 \<le> ?d" by linarith
    then show ?thesis
    proof cases
      case 2
      then show ?thesis by (intro that(2) [of 0]) (simp_all add: add_node_eq Let_def)
    next
      case 3
      then show ?thesis by (intro that(2) [of 1]) (simp_all add: add_node_eq Let_def)
    next
      case 4
      then show ?thesis by (intro that(2) [of 2]) (simp_all add: add_node_eq Let_def)
    next
      case 5
      then show ?thesis using dist_bounds(2) [of "m_time s" ?e]
        by (intro that(2) [of 3]) (simp_all add: add_node_eq Let_def)
    qed (rule that(1))
  qed
  then show ?thesis
  proof cases
    case 1
    then show ?thesis by (intro near) (simp_all add: near_ok_def add_node_eq Let_def)
  next
    case (2 k)
    then show ?thesis using level_okI [OF 2(1-3)] p by (intro level [OF _ 2(4,2)]) blast
  qed
qed

section \<open>What a tick does to the places\<close>

text \<open>One tick later: the distance shrinks by one and the expiry, counted from the new origin, moves
  by \<open>2 ^ 32\<close> when the tick wraps.\<close>

lemma dist_tick: "0 < dist T e \<Longrightarrow> dist (T + 1) e = dist T e - 1"
proof -
  assume "0 < dist T e"
  then have "1 \<le> e - T" by (simp add: dist_def word_le_def)
  then have "uint (e - T - 1) = uint (e - T) - 1" by (simp add: uint_diff_le)
  moreover have "e - (T + 1) = e - T - 1" by simp
  ultimately show ?thesis by (simp only: dist_def)
qed

lemma uint_tick: "uint (T + 1 :: u32) = (if uint T + 1 = 2 ^ 32 then 0 else uint T + 1)"
  using uint_lt2p [of T] by (simp add: uint_plus_if')

lemma due_tick:
  "0 < dist T e \<Longrightarrow> due (T + 1) e = (if uint T + 1 = 2 ^ 32 then due T e - 2 ^ 32 else due T e)"
  by (simp add: due_def dist_tick uint_tick)

lemma cascade_tick:
  assumes "0 < dist T e" "k < 4"
  shows "cascade (T + 1) e k = (if uint T + 1 = 2 ^ 32 then cascade T e k - 2 ^ 32 else cascade T e k)"
proof -
  obtain Q where Q: "2 ^ 32 = width k * (64 * Q)" using width_split [OF assms(2)] by blast
  have "(x - width k * (64 * Q)) div width k = x div width k - 64 * Q" for x :: int
  proof -
    have "(x - width k * (64 * Q)) div width k = (x + (- (64 * Q)) * width k) div width k"
      by (simp add: algebra_simps)
    also have "\<dots> = - (64 * Q) + x div width k" by (rule div_mult_self1) simp
    finally show ?thesis by simp
  qed
  then have "(x - 2 ^ 32) div width k * width k = x div width k * width k - 2 ^ 32" for x
    by (simp only: Q left_diff_distrib) (simp only: ac_simps)
  then show ?thesis by (simp add: cascade_def due_tick [OF assms(1)])
qed

lemma near_tick: "near_ok T e i \<Longrightarrow> 0 < dist T e \<Longrightarrow> near_ok (T + 1) e i"
  by (simp add: near_ok_def dist_tick)

lemma level_dist: "level_ok T e k j \<Longrightarrow> 0 < dist T e"
  using cascade_gap(2) [of T e k] by (simp add: level_ok_def due_def)

lemma level_tick:
  assumes "level_ok T e k j" "cascade T e k \<noteq> uint T + 1"
  shows "level_ok (T + 1) e k j"
proof -
  have d: "0 < dist T e" by (rule level_dist [OF assms(1)])
  have "uint (T + 1) < cascade (T + 1) e k"
    using assms cascade_tick [OF d, of k] uint_tick [of T] by (auto simp: level_ok_def)
  moreover have "dist (T + 1) e < width (Suc k)"
    using assms(1) dist_tick [OF d] unfolding level_ok_def by linarith
  ultimately show ?thesis using assms(1) unfolding level_ok_def by blast
qed

text \<open>The tick that a node's cascade names is the one that moves its list.\<close>

lemma digit_multiple: "digit k (q * width k) = q mod 64"
  by (simp add: digit_def)

lemma digit_low:
  assumes "l < k"
  shows "digit l (q * width k + r) = digit l r"
proof -
  have "(8 + 6 * k) = (8 + 6 * l) + (6 + 6 * (k - Suc l))" using assms by simp
  then have "width k = width l * (64 * 2 ^ (6 * (k - Suc l)))" by (simp only: power_add) simp
  then have "q * width k + r = r + (q * 64 * 2 ^ (6 * (k - Suc l))) * width l" by (simp only: ac_simps)
  then have "(q * width k + r) div width l = q * 64 * 2 ^ (6 * (k - Suc l)) + r div width l"
    by (simp only: div_mult_self1 [of "width l", OF less_imp_neq [OF width_pos, symmetric]])
  moreover have "(q * 64 * 2 ^ (6 * (k - Suc l)) + r div width l) mod 64 = (r div width l) mod 64"
  proof -
    have "q * 64 * 2 ^ (6 * (k - Suc l)) + r div width l =
        r div width l + (q * 2 ^ (6 * (k - Suc l))) * 64" by (simp only: ac_simps)
    then show ?thesis by (simp only: mod_mult_self1)
  qed
  ultimately show ?thesis by (simp only: digit_def)
qed

lemma shift_target_Some:
  assumes "k < 4" "uint ct mod width k = 0" "digit k (uint ct) \<noteq> 0"
  shows "shift_target ct = Some (k, nat (digit k (uint ct)))"
proof -
  let ?t = "uint ct"
  have nz: "?t \<noteq> 0" using assms(3) by (auto simp: digit_def)
  obtain q where q: "?t = q * width k" using assms(2) by (metis div_mult_mod_eq add_0_right)
  have low: "digit l ?t = 0" if "l < k" for l
    using digit_low [OF that, of q 0] q by (simp add: digit_def)
  have "?t mod 256 = 0"
  proof -
    have "256 dvd width k" using le_imp_power_dvd [of 8 "8 + 6 * k" "2 :: int"] by simp
    then show ?thesis unfolding q by (simp add: mod_eq_0_iff_dvd)
  qed
  then have eq: "shift_target ct =
      (if digit 0 ?t \<noteq> 0 then Some (0, nat (digit 0 ?t))
       else if digit 1 ?t \<noteq> 0 then Some (1, nat (digit 1 ?t))
       else if digit 2 ?t \<noteq> 0 then Some (2, nat (digit 2 ?t)) else Some (3, nat (digit 3 ?t)))"
    using nz by (simp add: shift_target_eq Let_def)
  consider "k = 0" | "k = 1" | "k = 2" | "k = 3" using assms(1) by linarith
  then show ?thesis
    by cases (use assms(3) low [of 0] low [of 1] low [of 2] in \<open>simp_all add: eq\<close>)
qed

lemma cascade_target:
  assumes "level_ok T e k j" "cascade T e k = uint T + 1"
  shows "shift_target (T + 1) = Some (k, j)"
proof -
  have k: "k < 4" and j: "j = nat (digit k (uint e))" "k < 3 \<longrightarrow> j \<noteq> 0"
    using assms(1) by (auto simp: level_ok_def)
  let ?q = "due T e div width k"
  have t: "uint T + 1 = ?q * width k" using assms(2) by (simp add: cascade_def)
  have d: "digit k (uint e) = ?q mod 64" using digit_due [OF k, of T e] by (simp add: digit_def)
  show ?thesis
  proof (cases "uint T + 1 = 2 ^ 32")
    case True
    obtain Q where "2 ^ 32 = width k * (64 * Q)" using width_split [OF k] by blast
    then have "width k * ?q = width k * (64 * Q)" using t True by (metis mult.commute)
    then have "?q = 64 * Q" by simp
    then have "digit k (uint e) = 0" using d by simp
    then have "k = 3" "j = 0" using j k by auto
    moreover have "shift_target (T + 1) = Some (3, 0)"
      using uint_tick [of T] True by (simp add: shift_target_eq Let_def)
    ultimately show ?thesis by simp
  next
    case False
    then have u: "uint (T + 1) = ?q * width k" using uint_tick [of T] t by simp
    have dk: "digit k (uint (T + 1)) = digit k (uint e)" unfolding u d by (rule digit_multiple)
    have "digit k (uint e) \<noteq> 0"
    proof (cases "k < 3")
      case True
      then show ?thesis using j by auto
    next
      case f: False
      then have k3: "k = 3" using k by simp
      have "uint T + 1 \<noteq> 0" using uint_ge_0 [of T] by linarith
      then have "uint (T + 1) \<noteq> 0" using uint_tick [of T] False by simp
      moreover have "uint (T + 1) mod width 3 = 0" using u k3 by simp
      moreover have "uint (T + 1) mod width (Suc 3) = uint (T + 1)"
        using uint_lt2p [of "T + 1"] by simp
      ultimately have "digit 3 (uint (T + 1)) \<noteq> 0" using mod_step_zero [of "uint (T + 1)" 3] by auto
      then show ?thesis using dk k3 by simp
    qed
    moreover have "uint (T + 1) mod width k = 0" unfolding u by simp
    ultimately show ?thesis using shift_target_Some [OF k] dk j by simp
  qed
qed

text \<open>Conversely every node of the list that is moved has its cascade at this tick.\<close>

lemma target_cases:
  fixes a b c d :: int and k j :: nat
  assumes "(if z then Some (3, 0) else if \<not> m then None
    else if a \<noteq> 0 then Some (0, nat a) else if b \<noteq> 0 then Some (1, nat b)
    else if c \<noteq> 0 then Some (2, nat c) else Some (3, nat d)) = Some (k, j)"
  shows "z \<and> k = 3 \<and> j = 0 \<or> m \<and> a \<noteq> 0 \<and> k = 0 \<and> j = nat a \<or>
    m \<and> a = 0 \<and> b \<noteq> 0 \<and> k = 1 \<and> j = nat b \<or>
    m \<and> a = 0 \<and> b = 0 \<and> c \<noteq> 0 \<and> k = 2 \<and> j = nat c \<or>
    m \<and> a = 0 \<and> b = 0 \<and> c = 0 \<and> k = 3 \<and> j = nat d"
  using assms by (auto split: if_splits)

lemma shift_target_digit:
  assumes "shift_target ct = Some (k, j)"
  shows "k < 4 \<and> uint ct mod width k = 0 \<and> j = nat (digit k (uint ct)) \<and> (k < 3 \<longrightarrow> j \<noteq> 0)"
proof -
  let ?t = "uint ct"
  have n: "nat (digit l ?t) = 0 \<longleftrightarrow> digit l ?t = 0" for l
    using digit_bounds(1) [of l ?t] by linarith
  have m: "?t mod width (Suc l) = 0 \<longleftrightarrow> digit l ?t = 0 \<and> ?t mod width l = 0" for l
    by (rule mod_step_zero)
  have m1: "?t mod width 1 = 0 \<longleftrightarrow> digit 0 ?t = 0 \<and> ?t mod 256 = 0" using m [of 0] by simp
  have m2: "?t mod width 2 = 0 \<longleftrightarrow> digit 1 ?t = 0 \<and> ?t mod width 1 = 0" using m [of 1] by (simp add: eval_nat_numeral)
  have m3: "?t mod width 3 = 0 \<longleftrightarrow> digit 2 ?t = 0 \<and> ?t mod width 2 = 0" using m [of 2] by (simp add: eval_nat_numeral)
  consider "?t = 0" "k = 3" "j = 0"
    | "?t mod 256 = 0" "digit 0 ?t \<noteq> 0" "k = 0" "j = nat (digit 0 ?t)"
    | "?t mod 256 = 0" "digit 0 ?t = 0" "digit 1 ?t \<noteq> 0" "k = 1" "j = nat (digit 1 ?t)"
    | "?t mod 256 = 0" "digit 0 ?t = 0" "digit 1 ?t = 0" "digit 2 ?t \<noteq> 0" "k = 2" "j = nat (digit 2 ?t)"
    | "?t mod 256 = 0" "digit 0 ?t = 0" "digit 1 ?t = 0" "digit 2 ?t = 0" "k = 3" "j = nat (digit 3 ?t)"
    using target_cases [OF assms [unfolded shift_target_eq Let_def]] by blast
  then show ?thesis
  proof cases
    case 1
    then show ?thesis by (simp add: digit_def)
  next
    case 2
    then show ?thesis using n [of 0] by simp
  next
    case 3
    then show ?thesis using m1 n [of 1] by simp
  next
    case 4
    then show ?thesis using m1 m2 n [of 2] by simp
  next
    case 5
    then show ?thesis using m1 m2 m3 by simp
  qed
qed

lemma eq_mod_near:
  fixes p q m :: int
  assumes "q mod m = p mod m" "p \<le> q" "q < p + m"
  shows "q = p"
proof -
  have "m dvd q - p" using assms(1) by (simp only: mod_eq_dvd_iff)
  then show ?thesis using zdvd_not_zless [of "q - p" m] assms(2,3) by linarith
qed

lemma target_cascade:
  assumes "level_ok T e k j" "shift_target (T + 1) = Some (k, j)"
  shows "cascade T e k = uint T + 1"
proof -
  have k: "k < 4" using assms(1) by (simp add: level_ok_def)
  note st = shift_target_digit [OF assms(2)]
  let ?q = "due T e div width k" and ?t = "uint T + 1"
  have tm: "?t mod width k = 0 \<and> digit k ?t = digit k (uint (T + 1))"
  proof (cases "?t = 2 ^ 32")
    case True
    obtain Q where Q: "2 ^ 32 = width k * (64 * Q)" using width_split [OF k] by blast
    have "uint (T + 1) = 0" using uint_tick [of T] True by simp
    then show ?thesis unfolding True Q by (simp add: digit_def)
  next
    case False
    then show ?thesis using uint_tick [of T] st by simp
  qed
  define p where "p = ?t div width k"
  have tp: "?t = p * width k" using tm unfolding p_def by (metis div_mult_mod_eq add_0_right)
  have "nat (digit k (uint e)) = nat (digit k (uint (T + 1)))"
    using assms(1) st by (simp add: level_ok_def)
  then have "digit k (uint e) = digit k ?t" using tm digit_bounds(1) by (metis nat_eq_iff2)
  then have "?q mod 64 = p mod 64"
    using digit_due [OF k, of T e] unfolding p_def digit_def by simp
  moreover have "uint T < ?q * width k" using assms(1) unfolding level_ok_def cascade_def by blast
  then have "p * width k \<le> ?q * width k" using tp by linarith
  then have "p \<le> ?q" by (simp only: mult_le_cancel_right_pos width_pos)
  moreover have "?q * width k < (p + 64) * width k"
  proof -
    have "?q * width k \<le> due T e" using cascade_gap(2) by (simp add: cascade_def)
    also have "\<dots> < uint T + width k * 64" using assms(1) width_Suc by (simp add: level_ok_def due_def)
    also have "\<dots> < ?t + 64 * width k" by simp
    finally show ?thesis unfolding tp by (simp only: distrib_right)
  qed
  then have "?q < p + 64" by simp
  ultimately have "?q = p" by (rule eq_mod_near)
  then show ?thesis using tp by (simp add: cascade_def)
qed

lemma int_div_less:
  fixes a b c :: int
  assumes "a < c * b" "0 < b"
  shows "a div b < c"
proof (rule ccontr)
  assume "\<not> a div b < c"
  then have "c * b \<le> (a div b) * b" using assms(2) by (intro mult_right_mono) auto
  also have "\<dots> = a - a mod b" by (simp only: minus_mod_eq_div_mult)
  also have "\<dots> \<le> a" using assms(2) by simp
  finally show False using assms(1) by simp
qed

text \<open>A node whose list is moved is close enough to be placed at a lower level.\<close>

lemma moved_close:
  assumes "level_ok T e k j" "cascade T e k = uint T + 1"
  shows "dist (T + 1) e < width k" "placeable (T + 1) e"
proof -
  have k: "k < 4" using assms(1) by (simp add: level_ok_def)
  have d: "0 < dist T e" by (rule level_dist [OF assms(1)])
  have dd: "dist (T + 1) e = due T e - cascade T e k"
    using dist_tick [OF d] assms(2) by (simp add: due_def)
  then show lt: "dist (T + 1) e < width k" using cascade_gap(1) [of T e k] by linarith
  show "placeable (T + 1) e"
    unfolding placeable_def
  proof (intro allI impI)
    fix l assume l: "l < 3" "width l \<le> dist (T + 1) e \<and> dist (T + 1) e < width (Suc l)"
    have "l < k"
    proof (rule ccontr)
      assume "\<not> l < k"
      then have "width k \<le> width l" by (intro width_mono) simp
      with l lt show False by linarith
    qed
    have "due T e = (due T e div width k) * width k + dist (T + 1) e"
      using dd by (simp add: cascade_def)
    then have "digit l (due T e) = digit l (dist (T + 1) e)"
      using digit_low [OF \<open>l < k\<close>] by metis
    moreover have "digit l (due T e) = digit l (uint e)" using l(1) by (intro digit_due) simp
    moreover have "digit l (dist (T + 1) e) \<noteq> 0"
    proof -
      have "1 \<le> dist (T + 1) e div width l" using l(2) by (simp add: pos_imp_zdiv_pos_iff int_one_le_iff_zero_less)
      moreover have "dist (T + 1) e < 64 * width l" using l(2) width_Suc by simp
      then have "dist (T + 1) e div width l < 64" by (intro int_div_less) simp_all
      ultimately show ?thesis by (simp add: digit_def)
    qed
    ultimately show "digit l (uint e) \<noteq> 0" by simp
  qed
qed

section \<open>The invariant of the wheel\<close>

definition wheel_ok :: "'n timeWheel \<Rightarrow> bool" where
  "wheel_ok s \<longleftrightarrow>
     (\<forall>i n. n \<in> set (m_near s i) \<longrightarrow> near_ok (m_time s) (m_expire s n) i) \<and>
     (\<forall>k j n. n \<in> set (m_t s k j) \<longrightarrow> slot_ok (m_time s) (m_expire s n) k j)"

definition pending :: "'n timeWheel \<Rightarrow> 'n \<Rightarrow> bool" where
  "pending s n \<longleftrightarrow> (\<exists>i. n \<in> set (m_near s i)) \<or>
     (\<exists>k j. \<not> (k < 3 \<and> j = 0) \<and> n \<in> set (m_t s k j))"

abbreviation ticks_left :: "'n timeWheel \<Rightarrow> 'n \<Rightarrow> int" where
  "ticks_left s n \<equiv> dist (m_time s) (m_expire s n)"

lemma link_sel [simp]:
  "m_time (link_near i n s) = m_time s" "m_expire (link_near i n s) = m_expire s"
  "m_cancel (link_near i n s) = m_cancel s" "m_lock (link_near i n s) = m_lock s"
  "fired (link_near i n s) = fired s" "m_t (link_near i n s) = m_t s"
  "m_near (link_near i n s) = (m_near s)(i := m_near s i @ [n])"
  "m_time (link_level k j n s) = m_time s" "m_expire (link_level k j n s) = m_expire s"
  "m_cancel (link_level k j n s) = m_cancel s" "m_lock (link_level k j n s) = m_lock s"
  "fired (link_level k j n s) = fired s" "m_near (link_level k j n s) = m_near s"
  "m_t (link_level k j n s) = (m_t s)(k := (m_t s k)(j := m_t s k j @ [n]))"
  by (simp_all add: link_near_def link_level_def)

lemma add_node_sel [simp]:
  "m_time (add_node n s) = m_time s" "m_expire (add_node n s) = m_expire s"
  "m_cancel (add_node n s) = m_cancel s" "m_lock (add_node n s) = m_lock s"
  "fired (add_node n s) = fired s"
  by (simp_all add: add_node_def Let_def)

text \<open>Every list is kept and at most one gets the node appended.\<close>

lemma add_node_mem:
  "x \<in> set (m_near s i) \<Longrightarrow> x \<in> set (m_near (add_node n s) i)"
  "x \<in> set (m_t s k j) \<Longrightarrow> x \<in> set (m_t (add_node n s) k j)"
  by (auto simp: add_node_def Let_def link_near_def link_level_def)

lemma level_ok_slot: "level_ok T e k j \<Longrightarrow> \<not> (k < 3 \<and> j = 0)"
  by (auto simp: level_ok_def)

lemma add_node_placed:
  assumes "placeable (m_time s) (m_expire s n)"
  shows "pending (add_node n s) n"
  using assms
proof (cases rule: add_node_cases)
  case (near i)
  then show ?thesis by (auto simp: pending_def)
next
  case (level k j)
  then have "n \<in> set (m_t (add_node n s) k j)" by simp
  with level_ok_slot [OF level(1)] show ?thesis unfolding pending_def by blast
qed

text \<open>Any other expiry puts the node into a slot that is never moved.\<close>

lemma add_node_lost:
  assumes "\<not> placeable (m_time s) (m_expire s n)"
  shows "\<exists>k < 3. add_node n s = link_level k 0 n s"
proof -
  let ?e = "m_expire s n" and ?d = "dist (m_time s) (m_expire s n)"
  obtain k where k: "k < 3" "width k \<le> ?d" "?d < width (Suc k)" "digit k (uint ?e) = 0"
    using assms by (auto simp: placeable_def)
  have w: "width 0 = 256" "width 1 = 16384" "width 2 = 1048576" "width 3 = 67108864" by simp_all
  have eq: "add_node n s = (if ?d < 256 then link_near (nat (uint ?e mod 256)) n s
      else if ?d < 16384 then link_level 0 (nat (digit 0 (uint ?e))) n s
      else if ?d < 1048576 then link_level 1 (nat (digit 1 (uint ?e))) n s
      else if ?d < 67108864 then link_level 2 (nat (digit 2 (uint ?e))) n s
      else link_level 3 (nat (digit 3 (uint ?e))) n s)"
    unfolding add_node_eq Let_def w ..
  from k(1) consider "k = 0" | "k = 1" | "k = 2" by linarith
  then have "add_node n s = link_level k 0 n s"
  proof cases
    case 1
    then have "256 \<le> ?d" "?d < 16384" using k(2,3) by simp_all
    then show ?thesis using k(4) 1 unfolding eq by simp
  next
    case 2
    then have "16384 \<le> ?d" "?d < 1048576" using k(2,3) by simp_all
    then show ?thesis using k(4) 2 unfolding eq by simp
  next
    case 3
    then have "1048576 \<le> ?d" "?d < 67108864" using k(2,3) by simp_all
    then show ?thesis using k(4) 3 unfolding eq by simp
  qed
  with k(1) show ?thesis by blast
qed

lemma link_level_ok:
  assumes "wheel_ok s" "slot_ok (m_time s) (m_expire s n) k j"
  shows "wheel_ok (link_level k j n s)"
  using assms unfolding wheel_ok_def by (auto split: if_splits)

lemma add_node_ok:
  assumes "wheel_ok s"
  shows "wheel_ok (add_node n s)"
proof (cases "placeable (m_time s) (m_expire s n)")
  case True
  then show ?thesis
  proof (cases rule: add_node_cases)
    case (near i)
    then show ?thesis using assms by (auto simp: wheel_ok_def)
  next
    case (level k j)
    then show ?thesis unfolding level(2) by (intro link_level_ok assms) (simp add: slot_ok_def)
  qed
next
  case False
  obtain k where k: "k < 3" "add_node n s = link_level k 0 n s" using add_node_lost [OF False] by auto
  then show ?thesis unfolding k(2) by (intro link_level_ok assms) (simp add: slot_ok_def)
qed

section \<open>What the wheel relies on from the callbacks\<close>

text \<open>A callback may add timers with any positive delay; it returns, and does nothing else to the wheel
  or to the timers that are pending.\<close>

definition grown :: "'n timeWheel \<Rightarrow> 'n timeWheel \<Rightarrow> bool" where
  "grown s t \<longleftrightarrow> m_time t = m_time s \<and> m_lock t = m_lock s \<and> fired t = fired s \<and>
     (\<forall>x. pending s x \<longrightarrow> m_expire t x = m_expire s x \<and> m_cancel t x = m_cancel s x) \<and>
     (\<forall>i. \<exists>xs. m_near t i = m_near s i @ xs \<and>
        (\<forall>x \<in> set xs. near_ok (m_time s) (m_expire t x) i \<and> 0 < dist (m_time s) (m_expire t x))) \<and>
     (\<forall>k j. \<exists>xs. m_t t k j = m_t s k j @ xs \<and>
        (\<forall>x \<in> set xs. slot_ok (m_time s) (m_expire t x) k j))"

definition adds_only :: "'n callback \<Rightarrow> bool" where
  "adds_only pfn \<longleftrightarrow> (\<forall>n s. \<exists>t. pfn n s = Some t \<and> grown s t)"

lemma grownD:
  assumes "grown s t"
  shows "m_time t = m_time s" "m_lock t = m_lock s" "fired t = fired s"
    "\<And>x. pending s x \<Longrightarrow> m_expire t x = m_expire s x \<and> m_cancel t x = m_cancel s x"
    "\<And>i. \<exists>xs. m_near t i = m_near s i @ xs \<and>
       (\<forall>x \<in> set xs. near_ok (m_time s) (m_expire t x) i \<and> 0 < dist (m_time s) (m_expire t x))"
    "\<And>k j. \<exists>xs. m_t t k j = m_t s k j @ xs \<and>
       (\<forall>x \<in> set xs. slot_ok (m_time s) (m_expire t x) k j)"
  using assms unfolding grown_def by simp_all

section \<open>Executing a near slot\<close>

lemma due_eq: "dist T e = 0 \<longleftrightarrow> e = T"
  by (simp add: dist_def uint_0_iff)

definition now_slot :: "u32 \<Rightarrow> nat" where
  "now_slot T = nat (uint T mod 256)"

lemma near_slot:
  assumes "near_ok T e i"
  shows "i = now_slot T \<longleftrightarrow> e = T"
proof -
  have d: "0 \<le> dist T e" "dist T e < 256" using assms dist_bounds(1) by (auto simp: near_ok_def)
  have i: "i = nat ((uint T + dist T e) mod 256)"
    using assms near_due [of T e] by (simp add: near_ok_def due_def)
  have "(uint T + dist T e) mod 256 = uint T mod 256 \<longleftrightarrow> dist T e = 0"
    using eq_mod_near [of "uint T + dist T e" 256 "uint T"] d by auto
  moreover have "i = now_slot T \<longleftrightarrow> (uint T + dist T e) mod 256 = uint T mod 256"
    unfolding i now_slot_def by (simp add: eq_nat_nat_iff)
  ultimately show ?thesis using due_eq by simp
qed

text \<open>What is outside the slot that is executed.\<close>

definition elsewhere :: "nat \<Rightarrow> 'n timeWheel \<Rightarrow> 'n \<Rightarrow> bool" where
  "elsewhere idx s x \<longleftrightarrow> (\<exists>i. i \<noteq> idx \<and> x \<in> set (m_near s i)) \<or>
     (\<exists>k j. \<not> (k < 3 \<and> j = 0) \<and> x \<in> set (m_t s k j))"

definition stays :: "nat \<Rightarrow> 'n timeWheel \<Rightarrow> 'n timeWheel \<Rightarrow> bool" where
  "stays idx s t \<longleftrightarrow> m_time t = m_time s \<and>
     (\<forall>x i. i \<noteq> idx \<longrightarrow> x \<in> set (m_near s i) \<longrightarrow> x \<in> set (m_near t i)) \<and>
     (\<forall>x k j. x \<in> set (m_t s k j) \<longrightarrow> x \<in> set (m_t t k j)) \<and>
     (\<forall>x. elsewhere idx s x \<longrightarrow> m_expire t x = m_expire s x \<and> m_cancel t x = m_cancel s x)"

lemma stays_refl: "m_near t = m_near s \<Longrightarrow> m_t t = m_t s \<Longrightarrow> m_time t = m_time s \<Longrightarrow>
    m_expire t = m_expire s \<Longrightarrow> m_cancel t = m_cancel s \<Longrightarrow> stays idx s t"
  by (simp add: stays_def)

lemma stays_elsewhere: "stays idx s t \<Longrightarrow> elsewhere idx s x \<Longrightarrow> elsewhere idx t x"
  unfolding stays_def elsewhere_def by blast

lemma stays_trans: "stays idx s t \<Longrightarrow> stays idx t u \<Longrightarrow> stays idx s u"
  using stays_elsewhere [of idx s t] unfolding stays_def by simp

text \<open>One node of the current slot: it is popped, and run unless it is cancelled.\<close>

lemma dispatch_step:
  assumes A: "adds_only pfn" and ok: "wheel_ok s" and idx: "idx = now_slot (m_time s)"
    and near: "m_near s idx = n # ns"
  defines "s1 \<equiv> s\<lparr>m_near := (m_near s)(idx := ns)\<rparr>"
  shows "\<exists>t. (if \<not> m_cancel s1 n
      then pfn n (s1\<lparr>fired := fired s1 @ [(n, m_expire s1 n, m_time s1)]\<rparr>) else Some s1) = Some t \<and>
    m_near t idx = ns \<and> wheel_ok t \<and> stays idx s t \<and> m_lock t = m_lock s \<and>
    (\<forall>x \<in> set ns. m_cancel t x = m_cancel s x) \<and>
    fired t = fired s @ (if m_cancel s n then [] else [(n, m_time s, m_time s)])"
proof -
  have "n \<in> set (m_near s idx)" using near by simp
  then have "near_ok (m_time s) (m_expire s n) idx" using ok unfolding wheel_ok_def by blast
  then have e: "m_expire s n = m_time s" using near_slot idx by blast
  have ok1: "wheel_ok s1" using ok near by (auto simp: wheel_ok_def s1_def split: if_splits)
  show ?thesis
  proof (cases "m_cancel s n")
    case True
    then show ?thesis using ok1 near by (auto simp: s1_def stays_def elsewhere_def)
  next
    case False
    let ?s2 = "s1\<lparr>fired := fired s1 @ [(n, m_expire s1 n, m_time s1)]\<rparr>"
    obtain t where t: "pfn n ?s2 = Some t" and g: "grown ?s2 t"
      using A unfolding adds_only_def by blast
    note g = grownD [OF g]
    have p: "pending ?s2 x \<longleftrightarrow> x \<in> set ns \<or> elsewhere idx s x" for x
      by (auto simp: pending_def elsewhere_def s1_def)
    have fields: "m_expire t x = m_expire s x \<and> m_cancel t x = m_cancel s x"
      if "x \<in> set ns \<or> elsewhere idx s x" for x
      using g(4) [of x] that p by (simp add: s1_def)
    obtain xs where xs: "m_near t idx = ns @ xs"
      "\<forall>x \<in> set xs. near_ok (m_time s) (m_expire t x) idx \<and> 0 < dist (m_time s) (m_expire t x)"
      using g(5) [of idx] by (auto simp: s1_def)
    have "xs = []"
    proof (rule ccontr)
      assume "xs \<noteq> []"
      then obtain x where "x \<in> set xs" by (cases xs) auto
      then have "near_ok (m_time s) (m_expire t x) idx" "0 < dist (m_time s) (m_expire t x)" using xs(2) by auto
      then have "m_expire t x = m_time s" using near_slot idx by blast
      then show False using \<open>0 < dist (m_time s) (m_expire t x)\<close> by (simp add: dist_def)
    qed
    with xs have nt: "m_near t idx = ns" by simp
    have mem: "x \<in> set (m_near s i) \<Longrightarrow> i \<noteq> idx \<Longrightarrow> x \<in> set (m_near t i)" for x i
      using g(5) [of i] by (auto simp: s1_def)
    have memt: "x \<in> set (m_t s k j) \<Longrightarrow> x \<in> set (m_t t k j)" for x k j
      using g(6) [of k j] by (auto simp: s1_def)
    have tm: "m_time t = m_time s" using g(1) by (simp add: s1_def)
    have "wheel_ok t"
      unfolding wheel_ok_def tm
    proof (intro conjI allI impI)
      fix i x assume x: "x \<in> set (m_near t i)"
      obtain ys where ys: "m_near t i = m_near s1 i @ ys" "\<forall>y \<in> set ys. near_ok (m_time s) (m_expire t y) i"
        using g(5) [of i] by (auto simp: s1_def)
      show "near_ok (m_time s) (m_expire t x) i"
      proof (cases "x \<in> set ys")
        case False
        then have m: "x \<in> set (m_near s1 i)" using x ys(1) by simp
        then have "x \<in> set ns \<or> elsewhere idx s x" by (auto simp: s1_def elsewhere_def split: if_splits)
        moreover have "near_ok (m_time s) (m_expire s x) i"
          using ok1 m unfolding wheel_ok_def by (simp add: s1_def)
        ultimately show ?thesis using fields by simp
      qed (use ys(2) in blast)
    next
      fix k j x assume x: "x \<in> set (m_t t k j)"
      obtain ys where ys: "m_t t k j = m_t s k j @ ys" "\<forall>y \<in> set ys. slot_ok (m_time s) (m_expire t y) k j"
        using g(6) [of k j] by (auto simp: s1_def)
      show "slot_ok (m_time s) (m_expire t x) k j"
      proof (cases "x \<in> set ys \<or> k < 3 \<and> j = 0")
        case False
        then have m: "x \<in> set (m_t s k j)" "\<not> (k < 3 \<and> j = 0)" using x ys(1) by auto
        then have "elsewhere idx s x" unfolding elsewhere_def by blast
        moreover have "slot_ok (m_time s) (m_expire s x) k j" using ok m(1) unfolding wheel_ok_def by blast
        ultimately show ?thesis using fields by simp
      qed (use ys(2) in \<open>auto simp: slot_ok_def\<close>)
    qed
    moreover have "stays idx s t" using mem memt fields tm unfolding stays_def by blast
    ultimately show ?thesis
      using t g(2,3) nt fields False e by (simp add: s1_def)
  qed
qed

lemma dispatch_spec:
  assumes A: "adds_only pfn" and ok: "wheel_ok s" and idx: "idx = now_slot (m_time s)"
  shows "\<exists>t. dispatch_list pfn idx s = Some t \<and> m_near t idx = [] \<and> wheel_ok t \<and> stays idx s t \<and>
    m_lock t = m_lock s \<and>
    fired t = fired s @ map (\<lambda>n. (n, m_time s, m_time s)) (filter (\<lambda>n. \<not> m_cancel s n) (m_near s idx))"
  using ok idx
proof (induction "m_near s idx" arbitrary: s)
  case Nil
  then show ?case
    by (intro exI [of _ s]) (simp add: dispatch_list.simps stays_refl)
next
  case (Cons n ns)
  note near = Cons.hyps(2) [symmetric]
  let ?s1 = "s\<lparr>m_near := (m_near s)(idx := ns)\<rparr>"
  let ?r = "if \<not> m_cancel ?s1 n
      then pfn n (?s1\<lparr>fired := fired ?s1 @ [(n, m_expire ?s1 n, m_time ?s1)]\<rparr>) else Some ?s1"
  obtain t where t: "?r = Some t" "m_near t idx = ns" "wheel_ok t" "stays idx s t" "m_lock t = m_lock s"
    "\<forall>x \<in> set ns. m_cancel t x = m_cancel s x"
    "fired t = fired s @ (if m_cancel s n then [] else [(n, m_time s, m_time s)])"
    using dispatch_step [OF A Cons.prems near] by blast
  have tm: "m_time t = m_time s" using t(4) by (simp add: stays_def)
  have "idx = now_slot (m_time t)" using Cons.prems(2) tm by simp
  from Cons.hyps(1) [OF t(2) [symmetric] t(3) this] obtain u where
    u: "dispatch_list pfn idx t = Some u" "m_near u idx = []" "wheel_ok u" "stays idx t u"
      "m_lock u = m_lock t"
      "fired u = fired t @ map (\<lambda>n. (n, m_time t, m_time t)) (filter (\<lambda>n. \<not> m_cancel t n) (m_near t idx))"
    by blast
  have "dispatch_list pfn idx s = Option.bind ?r (dispatch_list pfn idx)"
    by (subst dispatch_list.simps) (simp add: near Let_def)
  then have "dispatch_list pfn idx s = Some u" using t(1) u(1) by simp
  moreover have "filter (\<lambda>n. \<not> m_cancel t n) ns = filter (\<lambda>n. \<not> m_cancel s n) ns"
    using t(6) by (intro filter_cong) auto
  then have "fired u = fired s @ map (\<lambda>n. (n, m_time s, m_time s)) (filter (\<lambda>n. \<not> m_cancel s n) (m_near s idx))"
    unfolding u(6) t(7) t(2) tm near by simp
  ultimately show ?case using u t(5) stays_trans [OF t(4) u(4)] by metis
qed

lemma now_slot_eq: "unat (T AND TIME_NEAR_MASK) = now_slot T"
  by (simp only: unat_near now_slot_def)

lemma execute_spec:
  assumes A: "adds_only pfn" and ok: "wheel_ok s" and lock: "m_lock s"
  shows "\<exists>t. timer_execute pfn s = Some t \<and> m_near t (now_slot (m_time s)) = [] \<and> wheel_ok t \<and>
    stays (now_slot (m_time s)) s t \<and> m_lock t \<and>
    fired t = fired s @ map (\<lambda>n. (n, m_time s, m_time s))
      (filter (\<lambda>n. \<not> m_cancel s n) (m_near s (now_slot (m_time s))))"
proof (cases "m_near s (now_slot (m_time s)) = []")
  case True
  then show ?thesis using ok lock
    by (intro exI [of _ s]) (simp add: timer_execute_def now_slot_eq execute_loop.simps stays_refl)
next
  case False
  let ?i = "now_slot (m_time s)" and ?s = "spinlock_unlock s"
  have "wheel_ok ?s" using ok by (simp add: wheel_ok_def spinlock_unlock_def)
  then obtain t where t: "dispatch_list pfn ?i ?s = Some t" "m_near t ?i = []" "wheel_ok t"
    "stays ?i ?s t" "m_lock t = m_lock ?s"
    "fired t = fired ?s @ map (\<lambda>n. (n, m_time ?s, m_time ?s)) (filter (\<lambda>n. \<not> m_cancel ?s n) (m_near ?s ?i))"
    using dispatch_spec [OF A, of ?s ?i] by (auto simp: spinlock_unlock_def)
  let ?t = "t\<lparr>m_near := (m_near t)(?i := []), m_lock := True\<rparr>"
  have same: "m_near ?t = m_near t" using t(2) by (simp add: fun_upd_idem)
  have "execute_loop pfn ?i ?t = Some ?t" by (simp add: execute_loop.simps)
  then have "execute_loop pfn ?i s = Some ?t"
    using False t(1,5) by (subst execute_loop.simps) (simp add: spinlock_lock_def spinlock_unlock_def)
  moreover have "wheel_ok ?t" using t(3) same by (simp add: wheel_ok_def)
  moreover have "stays ?i s t" using t(4) by (simp add: stays_def elsewhere_def spinlock_unlock_def)
  then have "stays ?i s ?t" using same by (simp add: stays_def)
  ultimately show ?thesis using t(6)
    by (intro exI [of _ ?t]) (simp add: timer_execute_def now_slot_eq spinlock_unlock_def)
qed

section \<open>Moving a list down\<close>

text \<open>While the list \<open>(k, j)\<close> is moved, its nodes are the only ones that need not be in place.\<close>

definition moving_ok :: "nat \<Rightarrow> nat \<Rightarrow> 'n timeWheel \<Rightarrow> bool" where
  "moving_ok k j s \<longleftrightarrow>
     (\<forall>i n. n \<in> set (m_near s i) \<longrightarrow> near_ok (m_time s) (m_expire s n) i) \<and>
     (\<forall>l i n. n \<in> set (m_t s l i) \<longrightarrow> (l, i) \<noteq> (k, j) \<longrightarrow> slot_ok (m_time s) (m_expire s n) l i) \<and>
     (\<forall>n \<in> set (m_t s k j). dist (m_time s) (m_expire s n) < width k \<and>
        placeable (m_time s) (m_expire s n))"

definition moved :: "nat \<Rightarrow> nat \<Rightarrow> 'n timeWheel \<Rightarrow> 'n timeWheel \<Rightarrow> bool" where
  "moved k j s t \<longleftrightarrow> wheel_ok t \<and> m_time t = m_time s \<and> m_lock t = m_lock s \<and>
    m_expire t = m_expire s \<and> m_cancel t = m_cancel s \<and> fired t = fired s \<and>
    (\<forall>n. pending s n \<longrightarrow> pending t n) \<and>
    (\<forall>l i n. n \<in> set (m_t s l i) \<longrightarrow> (l, i) \<noteq> (k, j) \<longrightarrow> n \<in> set (m_t t l i))"

lemma movedD:
  assumes "moved k j s t"
  shows "wheel_ok t" "m_time t = m_time s" "m_lock t = m_lock s" "m_expire t = m_expire s"
    "m_cancel t = m_cancel s" "fired t = fired s" "\<And>n. pending s n \<Longrightarrow> pending t n"
    "\<And>l i n. n \<in> set (m_t s l i) \<Longrightarrow> (l, i) \<noteq> (k, j) \<Longrightarrow> n \<in> set (m_t t l i)"
  using assms unfolding moved_def by simp_all

lemma add_node_pending: "pending s x \<Longrightarrow> pending (add_node n s) x"
  unfolding pending_def using add_node_mem by metis

lemma move_list_spec:
  assumes "moving_ok k j s"
  shows "\<exists>t. move_list k j s = Some t \<and> moved k j s t"
  using assms
proof (induction "m_t s k j" arbitrary: s)
  case Nil
  then have e: "m_t s k j = []" by simp
  have "slot_ok (m_time s) (m_expire s n) l i" if "n \<in> set (m_t s l i)" for n l i
  proof -
    have "(l, i) \<noteq> (k, j)" using that e by auto
    then show ?thesis using Nil.prems that unfolding moving_ok_def by blast
  qed
  then have "wheel_ok s" using Nil.prems unfolding wheel_ok_def moving_ok_def by blast
  then show ?case using e by (intro exI [of _ s]) (simp add: move_list.simps moved_def)
next
  case (Cons n ns)
  note list = Cons.hyps(2) [symmetric]
  let ?s = "s\<lparr>m_t := (m_t s)(k := (m_t s k)(j := ns))\<rparr>"
  have n: "dist (m_time s) (m_expire s n) < width k" "placeable (m_time s) (m_expire s n)"
    using Cons.prems list unfolding moving_ok_def by simp_all
  have okp: "moving_ok k j ?s" using Cons.prems list unfolding moving_ok_def by auto
  have place: "placeable (m_time ?s) (m_expire ?s n)" using n(2) by simp
  have step: "move_list k j s = move_list k j (add_node n ?s)"
    by (subst move_list.simps) (simp add: list)
  have res: "moving_ok k j (add_node n ?s) \<and> m_t (add_node n ?s) k j = ns"
    using place
  proof (cases rule: add_node_cases)
    case (near i)
    then show ?thesis using okp by (auto simp: moving_ok_def)
  next
    case (level l i)
    have "l < k"
    proof (rule ccontr)
      assume "\<not> l < k"
      then have "width k \<le> width l" by (intro width_mono) simp
      with level(3) n(1) show False by simp
    qed
    then show ?thesis using okp level(1,2) by (auto simp: moving_ok_def slot_ok_def split: if_splits)
  qed
  then have "ns = m_t (add_node n ?s) k j" by simp
  from Cons.hyps(1) [OF this conjunct1 [OF res]] obtain t where
    t: "move_list k j (add_node n ?s) = Some t" and m: "moved k j (add_node n ?s) t" by blast
  note m = movedD [OF m]
  have pend: "pending t x" if px: "pending s x" for x
  proof (cases "x = n")
    case True
    show ?thesis unfolding True by (rule m(7) [OF add_node_placed [OF place]])
  next
    case False
    have mem: "x \<in> set (m_t ?s l i)" if "x \<in> set (m_t s l i)" for l i
      using that list False by (cases "l = k"; cases "i = j") simp_all
    have "pending ?s x"
    proof (cases "\<exists>i. x \<in> set (m_near s i)")
      case False
      then obtain l i where "x \<in> set (m_t s l i)" "\<not> (l < 3 \<and> i = 0)" using px by (auto simp: pending_def)
      with mem [OF this(1)] show ?thesis unfolding pending_def by blast
    qed (simp add: pending_def)
    then show ?thesis by (intro m(7) add_node_pending)
  qed
  have "x \<in> set (m_t t l i)" if "x \<in> set (m_t s l i)" "(l, i) \<noteq> (k, j)" for l i x
  proof -
    have "x \<in> set (m_t ?s l i)" using that by auto
    then have "x \<in> set (m_t (add_node n ?s) l i)" by (rule add_node_mem(2))
    then show ?thesis using that(2) by (rule m(8))
  qed
  then have "moved k j s t" using m(1-6) pend by (simp add: moved_def)
  then show ?case using step t by simp
qed

text \<open>A tick: every node of the wheel is one tick closer and in place.\<close>

lemma shift_spec:
  assumes ok: "wheel_ok s" and empty: "m_near s (now_slot (m_time s)) = []"
  shows "\<exists>t. timer_shift s = Some t \<and> wheel_ok t \<and> m_time t = m_time s + 1 \<and> m_lock t = m_lock s \<and>
    m_expire t = m_expire s \<and> m_cancel t = m_cancel s \<and> fired t = fired s \<and>
    (\<forall>n. pending s n \<longrightarrow> pending t n) \<and>
    (\<forall>k < 3. \<forall>n. n \<in> set (m_t s k 0) \<longrightarrow> n \<in> set (m_t t k 0))"
proof -
  let ?T = "m_time s" and ?s = "s\<lparr>m_time := m_time s + 1\<rparr>"
  have near: "near_ok (?T + 1) (m_expire s n) i" if "n \<in> set (m_near s i)" for n i
  proof -
    have o1: "near_ok ?T (m_expire s n) i" using ok that unfolding wheel_ok_def by blast
    have "i \<noteq> now_slot ?T" using that empty by auto
    then have "m_expire s n \<noteq> ?T" using near_slot [OF o1] by blast
    then have "0 < dist ?T (m_expire s n)"
      using dist_bounds(1) [of ?T "m_expire s n"] due_eq [of ?T "m_expire s n"] by linarith
    with o1 show ?thesis by (rule near_tick)
  qed
  have slot: "slot_ok ?T (m_expire s n) k j" if "n \<in> set (m_t s k j)" for n k j
    using ok that unfolding wheel_ok_def by blast
  have stay: "slot_ok (?T + 1) (m_expire s n) k j"
    if "n \<in> set (m_t s k j)" "shift_target (?T + 1) \<noteq> Some (k, j)" for n k j
  proof (cases "k < 3 \<and> j = 0")
    case False
    then have l: "level_ok ?T (m_expire s n) k j" using slot [OF that(1)] unfolding slot_ok_def by blast
    have "cascade ?T (m_expire s n) k \<noteq> uint ?T + 1" using cascade_target [OF l] that(2) by auto
    with l show ?thesis by (simp add: slot_ok_def level_tick)
  qed (simp add: slot_ok_def)
  show ?thesis
  proof (cases "shift_target (?T + 1)")
    case None
    have "slot_ok (?T + 1) (m_expire s n) k j" if "n \<in> set (m_t s k j)" for n k j
      using stay [OF that] None by simp
    then have "wheel_ok ?s" using near by (simp add: wheel_ok_def)
    then show ?thesis using None
      by (intro exI [of _ ?s]) (simp add: timer_shift_target pending_def)
  next
    case (Some kj)
    obtain k j where kj: "kj = (k, j)" by force
    have "moving_ok k j ?s"
      unfolding moving_ok_def
    proof (intro conjI allI impI ballI)
      show "near_ok (m_time ?s) (m_expire ?s n) i" if "n \<in> set (m_near ?s i)" for n i
        using near that by simp
      fix l i n assume n: "n \<in> set (m_t ?s l i)" "(l, i) \<noteq> (k, j)"
      show "slot_ok (m_time ?s) (m_expire ?s n) l i" using stay [of n l i] n Some kj by auto
    next
      fix n assume "n \<in> set (m_t ?s k j)"
      moreover have st: "shift_target (?T + 1) = Some (k, j)" using Some kj by simp
      have "\<not> (k < 3 \<and> j = 0)" using shift_target_digit [OF st] by blast
      ultimately have o1: "level_ok ?T (m_expire s n) k j" using slot [of n k j] unfolding slot_ok_def by auto
      have "cascade ?T (m_expire s n) k = uint ?T + 1" using target_cascade [OF o1] Some kj by simp
      from moved_close [OF o1 this]
      show "dist (m_time ?s) (m_expire ?s n) < width k" "placeable (m_time ?s) (m_expire ?s n)" by simp_all
    qed
    from move_list_spec [OF this] obtain t where
      t: "move_list k j ?s = Some t" and m: "moved k j ?s t" by blast
    note m = movedD [OF m]
    have "timer_shift s = Some t" using Some kj t by (simp add: timer_shift_target)
    moreover have "n \<in> set (m_t t l 0)" if "l < 3" "n \<in> set (m_t s l 0)" for l n
    proof -
      have "(l, 0) \<noteq> (k, j)" using shift_target_digit [of "?T + 1" k j] Some kj that(1) by auto
      then show ?thesis using m(8) [of n l 0] that(2) by simp
    qed
    moreover have "pending t n" if "pending s n" for n using m(7) [of n] that by (simp add: pending_def)
    ultimately show ?thesis using m(1-6) by (intro exI [of _ t]) simp
  qed
qed

section \<open>A whole update\<close>

text \<open>The entries an update adds to the record of the callbacks.\<close>

definition on_time :: "('n \<times> u32 \<times> u32) list \<Rightarrow> bool" where
  "on_time log \<longleftrightarrow> (\<forall>(n, e, now) \<in> set log. e = now)"

lemma on_time_append [simp]: "on_time (xs @ ys) \<longleftrightarrow> on_time xs \<and> on_time ys"
  by (simp add: on_time_def ball_Un)

lemma on_time_now [simp]: "on_time (map (\<lambda>n. (n, T, T)) ns)"
  by (auto simp: on_time_def)

lemma pending_elsewhere:
  assumes ok: "wheel_ok s" and n: "pending s n" and d: "0 < ticks_left s n"
  shows "elsewhere (now_slot (m_time s)) s n"
proof (cases "\<exists>i. n \<in> set (m_near s i)")
  case True
  then obtain i where i: "n \<in> set (m_near s i)" by blast
  have "near_ok (m_time s) (m_expire s n) i" using ok i unfolding wheel_ok_def by blast
  moreover have "m_expire s n \<noteq> m_time s" using d by (auto simp: dist_def)
  ultimately have "i \<noteq> now_slot (m_time s)" using near_slot by blast
  with i show ?thesis unfolding elsewhere_def by blast
qed (use n in \<open>auto simp: pending_def elsewhere_def\<close>)

lemma stays_pending:
  assumes "stays idx s t" "elsewhere idx s n"
  shows "pending t n" "m_expire t n = m_expire s n" "m_cancel t n = m_cancel s n"
proof -
  have "elsewhere idx t n" by (rule stays_elsewhere [OF assms])
  then show "pending t n" unfolding elsewhere_def pending_def by blast
  show "m_expire t n = m_expire s n" "m_cancel t n = m_cancel s n"
    using assms unfolding stays_def by blast+
qed

lemma due_now:
  assumes ok: "wheel_ok s" and n: "pending s n" and d: "ticks_left s n = 0"
  shows "n \<in> set (m_near s (now_slot (m_time s)))"
proof (cases "\<exists>i. n \<in> set (m_near s i)")
  case True
  then obtain i where i: "n \<in> set (m_near s i)" by blast
  have "near_ok (m_time s) (m_expire s n) i" using ok i unfolding wheel_ok_def by blast
  then have "i = now_slot (m_time s)" using near_slot d due_eq by blast
  with i show ?thesis by simp
next
  case False
  then obtain k j where kj: "\<not> (k < 3 \<and> j = 0)" "n \<in> set (m_t s k j)" using n by (auto simp: pending_def)
  then have "level_ok (m_time s) (m_expire s n) k j"
    using ok unfolding wheel_ok_def slot_ok_def by blast
  from level_dist [OF this] d show ?thesis by simp
qed

text \<open>What an update does, with \<open>lost\<close> the nodes of the slots that are never moved.\<close>

definition lost :: "'n timeWheel \<Rightarrow> nat \<Rightarrow> 'n \<Rightarrow> bool" where
  "lost s k n \<longleftrightarrow> k < 3 \<and> n \<in> set (m_t s k 0)"

definition updated :: "'n timeWheel \<Rightarrow> 'n timeWheel \<Rightarrow> bool" where
  "updated s t \<longleftrightarrow> wheel_ok t \<and> \<not> m_lock t \<and> m_time t = m_time s + 1 \<and>
     (\<exists>new. fired t = fired s @ new \<and> on_time new \<and>
        (\<forall>n. pending s n \<and> ticks_left s n = 1 \<and> \<not> m_cancel s n \<longrightarrow>
           (n, m_expire s n, m_expire s n) \<in> set new)) \<and>
     (\<forall>n. pending s n \<and> 1 < ticks_left s n \<longrightarrow>
        pending t n \<and> m_expire t n = m_expire s n \<and> m_cancel t n = m_cancel s n) \<and>
     (\<forall>k n. lost s k n \<longrightarrow> lost t k n)"

lemma updatedD:
  assumes "updated s t"
  shows "wheel_ok t" "\<not> m_lock t" "m_time t = m_time s + 1"
    "\<exists>new. fired t = fired s @ new \<and> on_time new \<and>
        (\<forall>n. pending s n \<and> ticks_left s n = 1 \<and> \<not> m_cancel s n \<longrightarrow>
           (n, m_expire s n, m_expire s n) \<in> set new)"
    "\<And>n. pending s n \<Longrightarrow> 1 < ticks_left s n \<Longrightarrow>
        pending t n \<and> m_expire t n = m_expire s n \<and> m_cancel t n = m_cancel s n"
    "\<And>k n. lost s k n \<Longrightarrow> lost t k n"
  using assms unfolding updated_def by simp_all

lemma update_spec:
  assumes A: "adds_only pfn" and ok: "wheel_ok s" and lock: "\<not> m_lock s"
  shows "\<exists>t. timer_update pfn s = Some t \<and> updated s t"
proof -
  let ?s1 = "s\<lparr>m_lock := True\<rparr>" and ?T = "m_time s"
  have ok1: "wheel_ok ?s1" using ok by (simp add: wheel_ok_def)
  obtain s2 where s2: "timer_execute pfn ?s1 = Some s2" "m_near s2 (now_slot ?T) = []" "wheel_ok s2"
    "stays (now_slot ?T) ?s1 s2" "m_lock s2"
    "fired s2 = fired s @ map (\<lambda>n. (n, ?T, ?T)) (filter (\<lambda>n. \<not> m_cancel s n) (m_near s (now_slot ?T)))"
    using execute_spec [OF A ok1] by auto
  have T2: "m_time s2 = ?T" using s2(4) by (simp add: stays_def)
  obtain s3 where s3: "timer_shift s2 = Some s3" "wheel_ok s3" "m_time s3 = ?T + 1" "m_lock s3"
    "m_expire s3 = m_expire s2" "m_cancel s3 = m_cancel s2" "fired s3 = fired s2"
    "\<forall>n. pending s2 n \<longrightarrow> pending s3 n"
    "\<forall>k < 3. \<forall>n. n \<in> set (m_t s2 k 0) \<longrightarrow> n \<in> set (m_t s3 k 0)"
    using shift_spec [OF s2(3)] s2(2,5) T2 by auto
  obtain s4 where s4: "timer_execute pfn s3 = Some s4" "m_near s4 (now_slot (?T + 1)) = []" "wheel_ok s4"
    "stays (now_slot (?T + 1)) s3 s4" "m_lock s4"
    "fired s4 = fired s3 @ map (\<lambda>n. (n, ?T + 1, ?T + 1))
       (filter (\<lambda>n. \<not> m_cancel s3 n) (m_near s3 (now_slot (?T + 1))))"
    using execute_spec [OF A s3(2,4)] s3(3) by auto
  let ?t = "spinlock_unlock s4"
  have carry: "pending s3 n \<and> m_expire s3 n = m_expire s n \<and> m_cancel s3 n = m_cancel s n"
    if n: "pending s n" "0 < ticks_left s n" for n
  proof -
    have "elsewhere (now_slot ?T) s n" by (rule pending_elsewhere [OF ok n])
    then have "elsewhere (now_slot ?T) ?s1 n" by (simp add: elsewhere_def)
    from stays_pending [OF s2(4) this] show ?thesis using s3(5,6,8) by simp
  qed
  have left: "ticks_left s3 n = ticks_left s n - 1" if n: "pending s n" "0 < ticks_left s n" for n
    using carry [OF n] dist_tick [OF n(2)] s3(3) by simp
  have run: "timer_update pfn s = Some ?t"
    using lock s2(1) s3(1) s4(1) by (simp add: timer_update_def spinlock_lock_def)
  have "wheel_ok ?t" using s4(3) by (simp add: wheel_ok_def spinlock_unlock_def)
  moreover have "m_time ?t = ?T + 1" using s4(4) s3(3) by (simp add: stays_def spinlock_unlock_def)
  moreover have "\<exists>new. fired ?t = fired s @ new \<and> on_time new \<and>
        (\<forall>n. pending s n \<and> ticks_left s n = 1 \<and> \<not> m_cancel s n \<longrightarrow>
           (n, m_expire s n, m_expire s n) \<in> set new)"
  proof (intro exI conjI allI impI)
    let ?a = "map (\<lambda>n. (n, ?T, ?T)) (filter (\<lambda>n. \<not> m_cancel s n) (m_near s (now_slot ?T)))"
      and ?b = "map (\<lambda>n. (n, ?T + 1, ?T + 1)) (filter (\<lambda>n. \<not> m_cancel s3 n) (m_near s3 (now_slot (?T + 1))))"
    show "fired ?t = fired s @ (?a @ ?b)" using s2(6) s3(7) s4(6) by (simp add: spinlock_unlock_def)
    show "on_time (?a @ ?b)" by simp
    fix n assume n: "pending s n \<and> ticks_left s n = 1 \<and> \<not> m_cancel s n"
    then have p: "pending s n" "0 < ticks_left s n" by simp_all
    have z: "ticks_left s3 n = 0" using left [OF p] n by simp
    have "n \<in> set (m_near s3 (now_slot (?T + 1)))"
      using due_now [OF s3(2) _ z] carry [OF p] s3(3) by simp
    moreover have "m_expire s n = ?T + 1" using z due_eq carry [OF p] s3(3) by metis
    ultimately show "(n, m_expire s n, m_expire s n) \<in> set (?a @ ?b)"
      using carry [OF p] n by simp
  qed
  moreover have "pending ?t n \<and> m_expire ?t n = m_expire s n \<and> m_cancel ?t n = m_cancel s n"
    if n: "pending s n" "1 < ticks_left s n" for n
  proof -
    have p: "0 < ticks_left s n" using n(2) by simp
    have "elsewhere (now_slot (?T + 1)) s3 n"
      using pending_elsewhere [OF s3(2)] carry [OF n(1) p] left [OF n(1) p] n(2) s3(3) by simp
    from stays_pending [OF s4(4) this] carry [OF n(1) p]
    show ?thesis by (simp add: spinlock_unlock_def pending_def)
  qed
  moreover have "lost ?t k n" if l: "lost s k n" for k n
  proof -
    have k: "k < 3" "n \<in> set (m_t s k 0)" using l by (auto simp: lost_def)
    then have "n \<in> set (m_t s2 k 0)" using s2(4) by (simp add: stays_def)
    then have "n \<in> set (m_t s3 k 0)" using s3(9) k(1) by blast
    then have "n \<in> set (m_t s4 k 0)" using s4(4) by (simp add: stays_def)
    then show ?thesis using k(1) by (simp add: lost_def spinlock_unlock_def)
  qed
  ultimately have "updated s ?t" unfolding updated_def by (simp add: spinlock_unlock_def)
  with run show ?thesis by blast
qed

lemma timer_updates_inv:
  assumes A: "adds_only pfn" and ok: "wheel_ok s" "\<not> m_lock s"
  shows "\<exists>t new. timer_updates pfn k s = Some t \<and> wheel_ok t \<and> \<not> m_lock t \<and>
    m_time t = m_time s + of_nat k \<and> fired t = fired s @ new \<and> on_time new \<and>
    (\<forall>l n. lost s l n \<longrightarrow> lost t l n)"
  using ok
proof (induction k arbitrary: s)
  case 0
  then show ?case by (intro exI [of _ s] exI [of _ "[]"]) (simp add: on_time_def)
next
  case (Suc k)
  obtain u where u: "timer_update pfn s = Some u" "updated s u" using update_spec [OF A Suc.prems] by blast
  note U = updatedD [OF u(2)]
  obtain new1 where n1: "fired u = fired s @ new1" "on_time new1" using U(4) by blast
  obtain t new2 where t: "timer_updates pfn k u = Some t" "wheel_ok t" "\<not> m_lock t"
    "m_time t = m_time u + of_nat k" "fired t = fired u @ new2" "on_time new2"
    "\<forall>l n. lost u l n \<longrightarrow> lost t l n" using Suc.IH [OF U(1,2)] by blast
  show ?case
    by (intro exI [of _ t] exI [of _ "new1 @ new2"]) (use u(1) t n1 U(3,6) in \<open>simp add: algebra_simps\<close>)
qed

lemma pending_until_due:
  assumes A: "adds_only pfn" and ok: "wheel_ok s" "\<not> m_lock s"
    and n: "pending s n" "int k < ticks_left s n"
  shows "\<exists>t. timer_updates pfn k s = Some t \<and> wheel_ok t \<and> \<not> m_lock t \<and> pending t n \<and>
    m_expire t n = m_expire s n \<and> m_cancel t n = m_cancel s n \<and>
    ticks_left t n = ticks_left s n - int k \<and> (\<exists>new. fired t = fired s @ new)"
  using ok n
proof (induction k arbitrary: s)
  case 0
  then show ?case by simp
next
  case (Suc k)
  obtain u where u: "timer_update pfn s = Some u" "updated s u"
    using update_spec [OF A Suc.prems(1,2)] by blast
  note U = updatedD [OF u(2)]
  have d: "1 < ticks_left s n" using Suc.prems(4) by simp
  note p = U(5) [OF Suc.prems(3) d]
  have left: "ticks_left u n = ticks_left s n - 1" using p d dist_tick [of "m_time s"] U(3) by simp
  have "int k < ticks_left u n" using left Suc.prems(4) by simp
  from Suc.IH [OF U(1,2) _ this] p obtain t where
    t: "timer_updates pfn k u = Some t" "wheel_ok t" "\<not> m_lock t" "pending t n"
    "m_expire t n = m_expire u n" "m_cancel t n = m_cancel u n" "ticks_left t n = ticks_left u n - int k"
    "\<exists>new. fired t = fired u @ new" by auto
  show ?case by (intro exI [of _ t]) (use u(1) t p left U(4) in auto)
qed

lemma timer_updates_snoc:
  "timer_updates pfn (Suc k) s = Option.bind (timer_updates pfn k s) (timer_update pfn)"
proof (induction k arbitrary: s)
  case 0
  then show ?case by (simp split: Option.bind_split)
next
  case (Suc k)
  have "timer_updates pfn (Suc (Suc k)) s = Option.bind (timer_update pfn s) (timer_updates pfn (Suc k))"
    by simp
  also have "timer_updates pfn (Suc k) = (\<lambda>u. Option.bind (timer_updates pfn k u) (timer_update pfn))"
    by (rule ext) (rule Suc.IH)
  finally show ?case by simp
qed

lemma fires_when_due:
  assumes A: "adds_only pfn" and ok: "wheel_ok s" "\<not> m_lock s"
    and n: "pending s n" "ticks_left s n = int (Suc k)" "\<not> m_cancel s n"
  shows "\<exists>t new. timer_updates pfn (Suc k) s = Some t \<and> fired t = fired s @ new \<and>
    (n, m_expire s n, m_expire s n) \<in> set new"
proof -
  have "int k < ticks_left s n" using n(2) by simp
  from pending_until_due [OF A ok n(1) this] obtain t where
    t: "timer_updates pfn k s = Some t" "wheel_ok t" "\<not> m_lock t" "pending t n"
    "m_expire t n = m_expire s n" "m_cancel t n = m_cancel s n"
    "ticks_left t n = ticks_left s n - int k" "\<exists>new. fired t = fired s @ new" by blast
  obtain u where u: "timer_update pfn t = Some u" "updated t u" using update_spec [OF A t(2,3)] by blast
  have "ticks_left t n = 1" using t(7) n(2) by simp
  then obtain new where "fired u = fired t @ new" "(n, m_expire s n, m_expire s n) \<in> set new"
    using updatedD(4) [OF u(2)] t(4-6) n(3) by auto
  moreover have "timer_updates pfn (Suc k) s = Some u" by (simp only: timer_updates_snoc t(1) u(1) Option.bind.simps)
  ultimately show ?thesis using t(8) by auto
qed

lemma add_timer_eq:
  assumes "\<not> m_lock s" "0 < time"
  shows "add_timer pfn n time s =
    Some (True, spinlock_unlock (add_node n (s\<lparr>m_lock := True, m_expire := (m_expire s)(n := of_int time + m_time s)\<rparr>)))"
  using assms by (simp add: add_timer_def spinlock_lock_def Let_def)

definition fresh_node :: "'n timeWheel \<Rightarrow> 'n \<Rightarrow> bool" where
  "fresh_node s n \<longleftrightarrow> (\<forall>i. n \<notin> set (m_near s i)) \<and> (\<forall>k j. n \<notin> set (m_t s k j))"

lemma set_expire_ok:
  assumes "wheel_ok s" "fresh_node s n"
  shows "wheel_ok (s\<lparr>m_lock := b, m_expire := (m_expire s)(n := e)\<rparr>)"
  using assms by (auto simp: wheel_ok_def fresh_node_def)

lemma dist_added: "0 < time \<Longrightarrow> time < 2 ^ 31 \<Longrightarrow> dist T (of_int time + T) = time"
  by (simp add: dist_def uint_word_of_int)

section \<open>Properties\<close>

text \<open>C12
  A timer fires exactly when it is due. For a delay of \<open>time\<close> ticks, positive and below \<open>2 ^ 31\<close>, for which
  \<open>add_node\<close> picks a slot that is moved down (\<open>timer_lost\<close> is about the others), and as long as nobody cancels the
  timer, \<open>add_timer\<close> links the node; it stays pending for every smaller number of
  updates, and the update number \<open>time\<close> runs its callback at the tick of its expiry, whatever further
  timers the callbacks add in between, also when the 32-bit tick wraps.\<close>

theorem timer_fires_on_time:
  assumes "adds_only pfn" "wheel_ok s" "\<not> m_lock s" "fresh_node s n" "\<not> m_cancel s n"
    and "0 < time" "time < 2 ^ 31" "placeable (m_time s) (of_int time + m_time s)"
  shows "\<exists>t. add_timer pfn n time s = Some (True, t) \<and> wheel_ok t \<and>
    (\<forall>k < nat time. \<exists>u. timer_updates pfn k t = Some u \<and> pending u n) \<and>
    (\<exists>u. timer_updates pfn (nat time) t = Some u \<and> m_time u = m_time s + of_int time \<and>
       (n, of_int time + m_time s, of_int time + m_time s) \<in> set (drop (length (fired s)) (fired u)))"
proof -
  let ?e = "of_int time + m_time s"
  let ?s = "s\<lparr>m_lock := True, m_expire := (m_expire s)(n := ?e)\<rparr>"
  let ?t = "spinlock_unlock (add_node n ?s)"
  have "wheel_ok (add_node n ?s)" by (rule add_node_ok [OF set_expire_ok [OF assms(2,4)]])
  then have ok: "wheel_ok ?t" "\<not> m_lock ?t" by (simp_all add: wheel_ok_def spinlock_unlock_def)
  have "pending (add_node n ?s) n" by (rule add_node_placed) (simp add: assms(8))
  then have p: "pending ?t n" by (simp add: pending_def spinlock_unlock_def)
  have f: "m_expire ?t n = ?e" "\<not> m_cancel ?t n" "m_time ?t = m_time s" "fired ?t = fired s"
    using assms(5) by (simp_all add: spinlock_unlock_def)
  have left: "ticks_left ?t n = time" using f dist_added [OF assms(6,7)] by simp
  have "\<exists>u. timer_updates pfn k ?t = Some u \<and> pending u n" if k: "k < nat time" for k
  proof -
    have "int k < ticks_left ?t n" using k unfolding left by linarith
    from pending_until_due [OF assms(1) ok p this] show ?thesis by blast
  qed
  moreover obtain k where k: "nat time = Suc k" using assms(6) by (cases "nat time") auto
  then have "ticks_left ?t n = int (Suc k)" using left by simp
  from fires_when_due [OF assms(1) ok p this f(2)] obtain u new where
    "timer_updates pfn (nat time) ?t = Some u" "fired u = fired ?t @ new" "(n, ?e, ?e) \<in> set new"
    using f(1) k by auto
  moreover have "m_time u = m_time s + of_int time"
    using timer_updates_inv [OF assms(1) ok, of "nat time"] calculation(2) f(3) assms(6) by auto
  ultimately show ?thesis using add_timer_eq [OF assms(3,6)] ok(1) f(4) by auto
qed

text \<open>C22
  No timer fires early or late: over any number of updates of a well-formed wheel, which always
  return, every callback runs at the tick of its node's expiry.\<close>

theorem timers_never_early:
  assumes "adds_only pfn" "wheel_ok s" "\<not> m_lock s"
  shows "\<exists>t. timer_updates pfn k s = Some t \<and> wheel_ok t \<and> m_time t = m_time s + of_nat k \<and>
    (\<forall>(n, e, now) \<in> set (drop (length (fired s)) (fired t)). e = now)"
proof -
  obtain t new where "timer_updates pfn k s = Some t" "wheel_ok t" "m_time t = m_time s + of_nat k"
    "fired t = fired s @ new" "on_time new" using timer_updates_inv [OF assms] by blast
  then show ?thesis by (auto simp: on_time_def)
qed

text \<open>C39
  A timer can be lost: when the distance of a new timer selects one of the first three levels and its
  expiry has the index 0 in that level, \<open>add_node\<close> links it into a slot that no tick ever moves
  down, and after any number of updates it is still there.\<close>

theorem timer_lost:
  assumes "adds_only pfn" "wheel_ok s" "\<not> m_lock s" "fresh_node s n" "0 < time"
    and "\<not> placeable (m_time s) (of_int time + m_time s)"
  shows "\<exists>t k. add_timer pfn n time s = Some (True, t) \<and> k < 3 \<and>
    (\<forall>ticks. \<exists>u. timer_updates pfn ticks t = Some u \<and> n \<in> set (m_t u k 0))"
proof -
  let ?e = "of_int time + m_time s"
  let ?s = "s\<lparr>m_lock := True, m_expire := (m_expire s)(n := ?e)\<rparr>"
  let ?t = "spinlock_unlock (add_node n ?s)"
  have "\<not> placeable (m_time ?s) (m_expire ?s n)" using assms(6) by simp
  then obtain k where k: "k < 3" "add_node n ?s = link_level k 0 n ?s" using add_node_lost [of ?s n] by auto
  have "wheel_ok (add_node n ?s)" by (rule add_node_ok [OF set_expire_ok [OF assms(2,4)]])
  then have ok: "wheel_ok ?t" "\<not> m_lock ?t" by (simp_all add: wheel_ok_def spinlock_unlock_def)
  have "lost ?t k n" using k by (simp add: lost_def spinlock_unlock_def)
  then have "\<exists>u. timer_updates pfn ticks ?t = Some u \<and> n \<in> set (m_t u k 0)" for ticks
    using timer_updates_inv [OF assms(1) ok, of ticks] by (auto simp: lost_def)
  then show ?thesis using add_timer_eq [OF assms(3,5)] k(1) by blast
qed

text \<open>\<open>clear_timer\<close> empties the four levels and the near slot 0 only: the timers of the other 255 near
  slots survive it, because its first loop clears the same list 256 times.\<close>

theorem clear_timer_keeps_near:
  "m_near (clear_timer s) i = (if i = 0 then [] else m_near s i) \<and>
   m_t (clear_timer s) k j = (if k < 4 \<and> j < TIME_LEVEL then [] else m_t s k j)"
proof -
  have "fold (\<lambda>_ s. s\<lparr>m_near := (m_near s)(0 := [])\<rparr>) xs s =
      (if xs = [] then s else s\<lparr>m_near := (m_near s)(0 := [])\<rparr>)" for xs :: "nat list" and s :: "'a timeWheel"
    by (induction xs arbitrary: s) auto
  then show ?thesis by (simp add: clear_timer_def Let_def)
qed

text \<open>\<open>add_timer\<close> with a delay that is not positive runs the callback while it holds the spin lock: a
  callback that takes the lock, as \<open>add_timer\<close> itself does, never returns.\<close>

theorem add_timer_deadlock:
  assumes "time \<le> 0" "\<And>s. m_lock s \<Longrightarrow> pfn n s = None"
  shows "add_timer pfn n time s = None"
  using assms by (simp add: add_timer_def spinlock_lock_def Let_def)

section \<open>Concrete runs\<close>

definition demo_wheel :: "u32 \<Rightarrow> nat timeWheel" where
  "demo_wheel T = \<lparr>m_near = (\<lambda>_. []), m_t = (\<lambda>_ _. []), m_lock = False, m_time = T,
     m_current_point = 0, m_expire = (\<lambda>_. 0), m_cancel = (\<lambda>_. False), fired = []\<rparr>"

lemma demo_wheel_ok: "wheel_ok (demo_wheel T)" "\<not> m_lock (demo_wheel T)" "fresh_node (demo_wheel T) n"
  by (simp_all add: wheel_ok_def demo_wheel_def fresh_node_def)

lemma inert_adds_only: "adds_only (\<lambda>n. Some)"
  by (simp add: adds_only_def grown_def)

text \<open>A delay of 300 ticks from the tick \<open>2 ^ 32 - 100\<close>: the expiry wraps to 200, and the node goes to
  level 0 or is near, according to the distance.\<close>

theorem timer_fires_on_time_witness:
  "\<exists>t u. add_timer (\<lambda>n. Some) 7 200 (demo_wheel 4294967196) = Some (True, t) \<and>
     timer_updates (\<lambda>n. Some) 200 t = Some u \<and> (7, 100, 100) \<in> set (drop 0 (fired u))"
proof -
  have d: "dist 4294967196 (of_int 200 + 4294967196) = 200" by (rule dist_added) simp_all
  have "\<not> width k \<le> 200" for k using width_mono [of 0 k] by simp
  then have "placeable (m_time (demo_wheel 4294967196)) (of_int 200 + m_time (demo_wheel 4294967196))"
    using d unfolding placeable_def by (simp add: demo_wheel_def)
  from timer_fires_on_time [OF inert_adds_only demo_wheel_ok _ _ _ this, of 7] obtain t u where
    tu: "add_timer (\<lambda>n. Some) 7 200 (demo_wheel 4294967196) = Some (True, t)"
    "timer_updates (\<lambda>n. Some) 200 t = Some u"
    "(7, 4294967396, 4294967396) \<in> set (drop 0 (fired u))" by (auto simp: demo_wheel_def)
  have "(4294967396 :: u32) = 100" by simp
  with tu show ?thesis by metis
qed

theorem timers_never_early_witness:
  "\<exists>t. timer_updates (\<lambda>n. Some) 3 (demo_wheel 255) = Some t \<and> m_time t = 258"
  using timers_never_early [OF inert_adds_only demo_wheel_ok(1,2), of 3 255] by (auto simp: demo_wheel_def)

text \<open>A delay of \<open>0x3ff5\<close> ticks from the tick \<open>0x10\<close> expires at \<open>0x4005\<close>, which has the index 0 in
  level 0.\<close>

theorem timer_lost_witness:
  "\<exists>t k. add_timer (\<lambda>n. Some) 7 16373 (demo_wheel 16) = Some (True, t) \<and>
     (\<exists>u. timer_updates (\<lambda>n. Some) 1000000 t = Some u \<and> 7 \<in> set (m_t u k 0))"
proof -
  have d: "dist 16 (of_int 16373 + 16) = 16373" by (rule dist_added) simp_all
  have "digit 0 (uint (of_int 16373 + 16 :: u32)) = 0" by (simp add: digit_def)
  then have "\<not> placeable (m_time (demo_wheel 16)) (of_int 16373 + m_time (demo_wheel 16))"
    using d unfolding placeable_def by (auto simp: demo_wheel_def intro!: exI [of _ 0])
  from timer_lost [OF inert_adds_only demo_wheel_ok _ this, of 7] obtain t k where
    t: "add_timer (\<lambda>n. Some) 7 16373 (demo_wheel 16) = Some (True, t)"
    "\<forall>ticks. \<exists>u. timer_updates (\<lambda>n. Some) ticks t = Some u \<and> 7 \<in> set (m_t u k 0)" by auto
  from spec [OF t(2), of 1000000] t(1) show ?thesis by blast
qed

theorem add_timer_deadlock_witness:
  "add_timer (\<lambda>n s. map_option snd (add_timer (\<lambda>n. Some) 8 5 s)) 7 0 (demo_wheel 0) = None"
  by (rule add_timer_deadlock) (simp_all add: add_timer_def spinlock_lock_def)

end
