(* ===== verification/Hook_Fd.thy ===== *)
theory Hook_Fd
  imports Co_Poll Wire
begin

text \<open>
  The hooked socket calls of \<open>src/coroutine/co_hook_sys_call.cpp\<close>: the table of hooked descriptors, and
  \<open>socket\<close>, \<open>connect\<close>, \<open>close\<close>, \<open>read\<close>, \<open>write\<close>, \<open>sendto\<close>, \<open>recvfrom\<close>, \<open>send\<close>, \<open>recv\<close>, \<open>poll\<close>,
  \<open>setsockopt\<close> and \<open>fcntl\<close>, which replace the calls of the C library. The calls of the kernel are
  parameters. The lemmas show that a hooked \<open>write\<close> sends a prefix of its buffer and says how long it
  is, that the flags a program sets are the flags it reads back while the kernel's descriptor is
  non-blocking, and how \<open>poll\<close> merges the entries of one descriptor.
\<close>

section \<open>Data\<close>

abbreviation (input) "O_NONBLOCK \<equiv> (0x800 :: int)"
abbreviation (input) "EAGAIN \<equiv> (11 :: int)"
abbreviation (input) "ETIMEDOUT \<equiv> (110 :: int)"
abbreviation (input) "EINPROGRESS \<equiv> (115 :: int)"
abbreviation (input) "SOL_SOCKET \<equiv> (1 :: int)"
abbreviation (input) "SO_RCVTIMEO \<equiv> (20 :: int)"
abbreviation (input) "SO_SNDTIMEO \<equiv> (21 :: int)"

record timeval =
  tv_sec :: int
  tv_usec :: int

record rpchook_t =
  user_flag :: int
  dest :: "byte list"
  domain :: int
  read_timeout :: timeval
  write_timeout :: timeval

datatype fcntl_cmd =
    F_DUPFD int | F_GETFD | F_SETFD int | F_GETFL | F_SETFL int | F_GETOWN | F_SETOWN int
  | F_GETLK u64 | F_SETLK u64 | F_SETLKW u64 | F_OTHER int

text \<open>
  What the thread of the running coroutine sees: \<open>errno\<close>, the kernel, the table of hooked descriptors
  and the hook flag of the coroutine. A call of the kernel gets \<open>errno\<close> and the kernel and returns
  its result with both.
\<close>

record 'k proc =
  errno :: int
  kern :: 'k
  g_rpchook_socket_fd :: "int \<Rightarrow> rpchook_t option"
  cEnableSysHook :: bool

type_synonym ('r, 'k) call = "int \<Rightarrow> 'k \<Rightarrow> 'r \<times> int \<times> 'k"

text \<open>The functions behind \<open>dlsym (RTLD_NEXT, ...)\<close>, and \<open>getsockopt\<close> with \<open>SO_ERROR\<close>. A read returns
  its result and the bytes it stored.\<close>

record 'k sys =
  sys_socket :: "int \<Rightarrow> int \<Rightarrow> int \<Rightarrow> (int, 'k) call"
  sys_accept :: "int \<Rightarrow> (int, 'k) call"
  sys_connect :: "int \<Rightarrow> byte list \<Rightarrow> (int, 'k) call"
  sys_so_error :: "int \<Rightarrow> (int \<times> int, 'k) call"
  sys_close :: "int \<Rightarrow> (int, 'k) call"
  sys_read :: "int \<Rightarrow> nat \<Rightarrow> (int \<times> byte list, 'k) call"
  sys_write :: "int \<Rightarrow> byte list \<Rightarrow> (int, 'k) call"
  sys_sendto :: "int \<Rightarrow> byte list \<Rightarrow> int \<Rightarrow> byte list \<Rightarrow> (int, 'k) call"
  sys_recvfrom :: "int \<Rightarrow> nat \<Rightarrow> int \<Rightarrow> (int \<times> byte list \<times> byte list, 'k) call"
  sys_send :: "int \<Rightarrow> byte list \<Rightarrow> int \<Rightarrow> (int, 'k) call"
  sys_recv :: "int \<Rightarrow> nat \<Rightarrow> int \<Rightarrow> (int \<times> byte list, 'k) call"
  sys_poll :: "pollfd list \<Rightarrow> int \<Rightarrow> (int \<times> pollfd list, 'k) call"
  sys_setsockopt :: "int \<Rightarrow> int \<Rightarrow> int \<Rightarrow> byte list \<Rightarrow> int \<Rightarrow> (int, 'k) call"
  sys_fcntl :: "int \<Rightarrow> fcntl_cmd \<Rightarrow> (int, 'k) call"

definition kcall :: "('r, 'k) call \<Rightarrow> 'k proc \<Rightarrow> 'r \<times> 'k proc" where
  "kcall f s = (case f (errno s) (kern s) of (r, e, k) \<Rightarrow> (r, s\<lparr>errno := e, kern := k\<rparr>))"

text \<open>\<open>co_poll_inner\<close> on the epoll object of the thread: other coroutines run until it returns.\<close>

type_synonym 'k poll_inner = "pollfd list \<Rightarrow> int \<Rightarrow> 'k proc \<Rightarrow> (int \<times> pollfd list \<times> 'k proc) option"

section \<open>The table of hooked descriptors\<close>

abbreviation (input) "fd_table_size \<equiv> (102400 :: int)"

definition in_table :: "int \<Rightarrow> bool" where
  "in_table fildes \<longleftrightarrow> - 1 < fildes \<and> fildes < fd_table_size"

definition get_by_fd :: "int \<Rightarrow> 'k proc \<Rightarrow> rpchook_t option" where
  "get_by_fd fildes s = (if in_table fildes then g_rpchook_socket_fd s fildes else None)"

definition new_rpchook :: rpchook_t where
  "new_rpchook =
     \<lparr>user_flag = 0, dest = replicate 16 0, domain = 0,
      read_timeout = \<lparr>tv_sec = 1, tv_usec = 0\<rparr>, write_timeout = \<lparr>tv_sec = 1, tv_usec = 0\<rparr>\<rparr>"

definition set_by_fd :: "int \<Rightarrow> rpchook_t option \<Rightarrow> 'k proc \<Rightarrow> 'k proc" where
  "set_by_fd fildes lp s = s\<lparr>g_rpchook_socket_fd := (g_rpchook_socket_fd s)(fildes := lp)\<rparr>"

definition alloc_by_fd :: "int \<Rightarrow> 'k proc \<Rightarrow> rpchook_t option \<times> 'k proc" where
  "alloc_by_fd fildes s =
     (if in_table fildes then (Some new_rpchook, set_by_fd fildes (Some new_rpchook) s) else (None, s))"

definition free_by_fd :: "int \<Rightarrow> 'k proc \<Rightarrow> 'k proc" where
  "free_by_fd fildes s =
     (if in_table fildes \<and> g_rpchook_socket_fd s fildes \<noteq> None then set_by_fd fildes None s else s)"

text \<open>The entry of a descriptor whose calls wait: the hooks are on, the descriptor has an entry, and
  the program has not made it non-blocking itself.\<close>

definition blocking_lp :: "int \<Rightarrow> 'k proc \<Rightarrow> rpchook_t option" where
  "blocking_lp fildes s =
     (if \<not> cEnableSysHook s then None
      else case get_by_fd fildes s of
        None \<Rightarrow> None
      | Some lp \<Rightarrow> if O_NONBLOCK AND user_flag lp \<noteq> 0 then None else Some lp)"

text \<open>A timeout in milliseconds, narrowed to an \<open>int\<close>.\<close>

definition timeout_ms :: "timeval \<Rightarrow> int" where
  "timeout_ms tv = to_int32 (of_int (tv_sec tv * 1000 + sgn (tv_usec tv) * (\<bar>tv_usec tv\<bar> div 1000)))"

section \<open>\<open>poll\<close>\<close>

text \<open>One step of the merging loop: the entries kept so far and the index of each descriptor.\<close>

definition merge_step :: "pollfd \<Rightarrow> pollfd list \<times> (int \<Rightarrow> nat option) \<Rightarrow> pollfd list \<times> (int \<Rightarrow> nat option)" where
  "merge_step f mm =
     (case mm of (fds_merge, m) \<Rightarrow>
        (case m (fd f) of
           None \<Rightarrow> (fds_merge @ [f], m(fd f \<mapsto> length fds_merge))
         | Some j \<Rightarrow> (fds_merge[j := (fds_merge ! j)\<lparr>events := events (fds_merge ! j) OR events f\<rparr>], m)))"

definition merge_fds :: "pollfd list \<Rightarrow> pollfd list \<times> (int \<Rightarrow> nat option)" where
  "merge_fds fds = (if 1 < length fds then fold merge_step fds ([], \<lambda>_. None) else ([], \<lambda>_. None))"

definition unmerge :: "pollfd list \<Rightarrow> (int \<Rightarrow> nat option) \<Rightarrow> pollfd \<Rightarrow> pollfd" where
  "unmerge fds_merge m f =
     (case m (fd f) of
        None \<Rightarrow> f
      | Some j \<Rightarrow> f\<lparr>fd_revents := fd_revents (fds_merge ! j) AND events f\<rparr>)"

definition poll ::
  "'k sys \<Rightarrow> 'k poll_inner \<Rightarrow> pollfd list \<Rightarrow> int \<Rightarrow> 'k proc \<Rightarrow> (int \<times> pollfd list \<times> 'k proc) option" where
  "poll api inner fds timeout s =
     (if \<not> cEnableSysHook s \<or> timeout = 0
      then (case kcall (sys_poll api fds timeout) s of ((ret, fds'), s') \<Rightarrow> Some (ret, fds', s'))
      else
        (let (fds_merge, m) = merge_fds fds
         in if length fds_merge = length fds \<or> length fds = 1 then inner fds timeout s
            else Option.bind (inner fds_merge timeout s) (\<lambda>(ret, fds_merge', s').
              Some (ret, if 0 < ret then map (unmerge fds_merge' m) fds else fds, s'))))"

text \<open>A \<open>poll\<close> on one descriptor whose results the caller drops.\<close>

definition wait_fd :: "'k sys \<Rightarrow> 'k poll_inner \<Rightarrow> int \<Rightarrow> short \<Rightarrow> int \<Rightarrow> 'k proc \<Rightarrow> 'k proc option" where
  "wait_fd api inner fildes evs timeout s =
     map_option (\<lambda>(ret, fds, s'). s')
       (poll api inner [\<lparr>fd = fildes, events = evs, fd_revents = 0\<rparr>] timeout s)"

section \<open>Descriptors: \<open>fcntl\<close>, \<open>socket\<close>, \<open>connect\<close>, \<open>close\<close>, \<open>setsockopt\<close>\<close>

text \<open>A command outside the \<open>switch\<close> does not reach the kernel.\<close>

definition fcntl :: "'k sys \<Rightarrow> int \<Rightarrow> fcntl_cmd \<Rightarrow> 'k proc \<Rightarrow> int \<times> 'k proc" where
  "fcntl api fildes cmd s =
     (if fildes < 0 then (660, s)
      else case cmd of
        F_GETFL \<Rightarrow>
          (case kcall (sys_fcntl api fildes cmd) s of (ret, s1) \<Rightarrow>
             (case get_by_fd fildes s of
                None \<Rightarrow> (ret, s1)
              | Some lp \<Rightarrow> (if user_flag lp AND O_NONBLOCK = 0 then ret AND NOT O_NONBLOCK else ret, s1)))
      | F_SETFL param \<Rightarrow>
          (case get_by_fd fildes s of
             None \<Rightarrow> kcall (sys_fcntl api fildes (F_SETFL param)) s
           | Some lp \<Rightarrow>
               (let flag = (if cEnableSysHook s then param OR O_NONBLOCK else param);
                    (ret, s1) = kcall (sys_fcntl api fildes (F_SETFL flag)) s
                in (ret, if ret = 0 then set_by_fd fildes (Some (lp\<lparr>user_flag := param\<rparr>)) s1 else s1)))
      | F_OTHER c \<Rightarrow> (- 1, s)
      | _ \<Rightarrow> kcall (sys_fcntl api fildes cmd) s)"

text \<open>A descriptor beyond the table has no entry, and \<open>socket\<close> writes to the null pointer.\<close>

definition socket :: "'k sys \<Rightarrow> int \<Rightarrow> int \<Rightarrow> int \<Rightarrow> 'k proc \<Rightarrow> (int \<times> 'k proc) option" where
  "socket api family typ protocol s =
     (case kcall (sys_socket api family typ protocol) s of (fildes, s1) \<Rightarrow>
        if \<not> cEnableSysHook s \<or> fildes < 0 then Some (fildes, s1)
        else
          (case alloc_by_fd fildes s1 of
             (None, _) \<Rightarrow> None
           | (Some lp, s2) \<Rightarrow>
               (let s3 = set_by_fd fildes (Some (lp\<lparr>domain := family\<rparr>)) s2;
                    (flags, s4) = kcall (sys_fcntl api fildes F_GETFL) s3
                in Some (fildes, snd (fcntl api fildes (F_SETFL flags) s4)))))"

definition co_accept :: "'k sys \<Rightarrow> int \<Rightarrow> 'k proc \<Rightarrow> int \<times> 'k proc" where
  "co_accept api fildes s =
     (case kcall (sys_accept api fildes) s of (cli, s1) \<Rightarrow>
        if cli < 0 then (cli, s1) else (cli, snd (alloc_by_fd cli s1)))"

text \<open>The loop of \<open>connect\<close>: at most three polls of 25 seconds. It returns the last \<open>revents\<close>.\<close>

fun connect_wait ::
  "'k sys \<Rightarrow> 'k poll_inner \<Rightarrow> int \<Rightarrow> nat \<Rightarrow> short \<Rightarrow> 'k proc \<Rightarrow> (short \<times> 'k proc) option" where
  "connect_wait api inner fildes 0 rv s = Some (rv, s)"
| "connect_wait api inner fildes (Suc n) rv s =
     (let pf = \<lparr>fd = fildes, events = POLLOUT OR POLLERR OR POLLHUP, fd_revents = 0\<rparr>
      in Option.bind (poll api inner [pf] 25000 s) (\<lambda>(pollret, fds, s1).
           let rv1 = fd_revents (hd (fds @ [pf]))
           in if pollret = 1 then Some (rv1, s1) else connect_wait api inner fildes n rv1 s1))"

definition set_dest :: "byte list \<Rightarrow> rpchook_t \<Rightarrow> rpchook_t" where
  "set_dest address lp = (if length address \<le> 16 then lp\<lparr>dest := poke 0 address (dest lp)\<rparr> else lp)"

definition connect ::
  "'k sys \<Rightarrow> 'k poll_inner \<Rightarrow> int \<Rightarrow> byte list \<Rightarrow> 'k proc \<Rightarrow> (int \<times> 'k proc) option" where
  "connect api inner fildes address s =
     (case kcall (sys_connect api fildes address) s of (ret, s1) \<Rightarrow>
        if \<not> cEnableSysHook s then Some (ret, s1)
        else (case get_by_fd fildes s1 of
          None \<Rightarrow> Some (ret, s1)
        | Some lp \<Rightarrow>
            (let s2 = set_by_fd fildes (Some (set_dest address lp)) s1
             in if O_NONBLOCK AND user_flag lp \<noteq> 0 \<or> \<not> (ret < 0 \<and> errno s2 = EINPROGRESS)
                then Some (ret, s2)
                else Option.bind (connect_wait api inner fildes 3 0 s2) (\<lambda>(rv, s3).
                  if rv AND POLLOUT \<noteq> 0
                  then (case kcall (sys_so_error api fildes) s3 of ((ret', err), s4) \<Rightarrow>
                          if ret' < 0 then Some (ret', s4)
                          else if err \<noteq> 0 then Some (- 1, s4\<lparr>errno := err\<rparr>)
                          else Some (0, s4\<lparr>errno := 0\<rparr>))
                  else Some (ret, s3\<lparr>errno := ETIMEDOUT\<rparr>)))))"

definition close :: "'k sys \<Rightarrow> int \<Rightarrow> 'k proc \<Rightarrow> int \<times> 'k proc" where
  "close api fildes s =
     (if \<not> cEnableSysHook s then kcall (sys_close api fildes) s
      else kcall (sys_close api fildes) (free_by_fd fildes s))"

text \<open>A \<open>struct timeval\<close> in memory: two 64-bit integers, the least significant byte first. Reading one
  from a shorter option value has no result.\<close>

definition get_i64 :: "byte list \<Rightarrow> int" where
  "get_i64 bs =
     (let v = foldr (\<lambda>b n. uint b + 256 * n) bs 0 in if v < 2 ^ 63 then v else v - 2 ^ 64)"

definition timeval_of :: "byte list \<Rightarrow> timeval option" where
  "timeval_of bs =
     (if length bs < 16 then None
      else Some \<lparr>tv_sec = get_i64 (take 8 bs), tv_usec = get_i64 (take 8 (drop 8 bs))\<rparr>)"

definition setsockopt ::
  "'k sys \<Rightarrow> int \<Rightarrow> int \<Rightarrow> int \<Rightarrow> byte list \<Rightarrow> int \<Rightarrow> 'k proc \<Rightarrow> (int \<times> 'k proc) option" where
  "setsockopt api fildes lev option_name option_value option_len s =
     (let call = kcall (sys_setsockopt api fildes lev option_name option_value option_len)
      in if \<not> cEnableSysHook s then Some (call s)
         else case get_by_fd fildes s of
           None \<Rightarrow> Some (call s)
         | Some lp \<Rightarrow>
             if lev = SOL_SOCKET \<and> option_name = SO_RCVTIMEO
             then map_option (\<lambda>tv. call (set_by_fd fildes (Some (lp\<lparr>read_timeout := tv\<rparr>)) s))
                    (timeval_of option_value)
             else if lev = SOL_SOCKET \<and> option_name = SO_SNDTIMEO
             then map_option (\<lambda>tv. call (set_by_fd fildes (Some (lp\<lparr>write_timeout := tv\<rparr>)) s))
                    (timeval_of option_value)
             else Some (call s))"

section \<open>Reading\<close>

abbreviation "POLL_READ \<equiv> POLLIN OR POLLERR OR POLLHUP"
abbreviation "POLL_WRITE \<equiv> POLLOUT OR POLLERR OR POLLHUP"

definition read ::
  "'k sys \<Rightarrow> 'k poll_inner \<Rightarrow> int \<Rightarrow> nat \<Rightarrow> 'k proc \<Rightarrow> ((int \<times> byte list) \<times> 'k proc) option" where
  "read api inner fildes nbyte s =
     (case blocking_lp fildes s of
        None \<Rightarrow> Some (kcall (sys_read api fildes nbyte) s)
      | Some lp \<Rightarrow>
          map_option (kcall (sys_read api fildes nbyte))
            (wait_fd api inner fildes POLL_READ (timeout_ms (read_timeout lp)) s))"

definition recvfrom ::
  "'k sys \<Rightarrow> 'k poll_inner \<Rightarrow> int \<Rightarrow> nat \<Rightarrow> int \<Rightarrow> 'k proc \<Rightarrow>
   ((int \<times> byte list \<times> byte list) \<times> 'k proc) option" where
  "recvfrom api inner fildes len flags s =
     (case blocking_lp fildes s of
        None \<Rightarrow> Some (kcall (sys_recvfrom api fildes len flags) s)
      | Some lp \<Rightarrow>
          map_option (kcall (sys_recvfrom api fildes len flags))
            (wait_fd api inner fildes POLL_READ (timeout_ms (read_timeout lp)) s))"

definition recv ::
  "'k sys \<Rightarrow> 'k poll_inner \<Rightarrow> int \<Rightarrow> nat \<Rightarrow> int \<Rightarrow> 'k proc \<Rightarrow> ((int \<times> byte list) \<times> 'k proc) option" where
  "recv api inner fildes len flags s =
     (case blocking_lp fildes s of
        None \<Rightarrow> Some (kcall (sys_recv api fildes len flags) s)
      | Some lp \<Rightarrow>
          map_option (kcall (sys_recv api fildes len flags))
            (wait_fd api inner fildes POLL_READ (timeout_ms (read_timeout lp)) s))"

section \<open>Writing\<close>

text \<open>The loop of \<open>write\<close> and of \<open>send\<close>: \<open>put\<close> is the system call on the rest of the buffer and \<open>wait\<close>
  the poll. It returns \<open>wrotelen\<close> and the last result of the call.\<close>

function write_loop ::
  "(byte list \<Rightarrow> 'k proc \<Rightarrow> int \<times> 'k proc) \<Rightarrow> ('k proc \<Rightarrow> 'k proc option) \<Rightarrow> byte list \<Rightarrow> nat \<Rightarrow> int \<Rightarrow>
   'k proc \<Rightarrow> (nat \<times> int \<times> 'k proc) option" where
  "write_loop put wait buf wrotelen writeret s =
     (if wrotelen < length buf
      then (case wait s of
              None \<Rightarrow> None
            | Some s1 \<Rightarrow>
                (case put (drop wrotelen buf) s1 of
                   (w, s2) \<Rightarrow>
                     if w \<le> 0 then Some (wrotelen, w, s2)
                     else write_loop put wait buf (wrotelen + nat w) w s2))
      else Some (wrotelen, writeret, s))"
  by pat_completeness auto
termination
  by (relation "measure (\<lambda>(put, wait, buf, wrotelen, writeret, s). length buf - wrotelen)") auto

declare write_loop.simps [simp del]

definition write_all ::
  "(byte list \<Rightarrow> 'k proc \<Rightarrow> int \<times> 'k proc) \<Rightarrow> ('k proc \<Rightarrow> 'k proc option) \<Rightarrow> byte list \<Rightarrow> 'k proc \<Rightarrow>
   (int \<times> 'k proc) option" where
  "write_all put wait buf s =
     (case put buf s of
        (writeret, s1) \<Rightarrow>
          if writeret = 0 then Some (writeret, s1)
          else map_option
                 (\<lambda>(wrotelen, w, s2). (if w \<le> 0 \<and> wrotelen = 0 then w else int wrotelen, s2))
                 (write_loop put wait buf (nat writeret) writeret s1))"

definition hook_write ::
  "'k sys \<Rightarrow> 'k poll_inner \<Rightarrow> int \<Rightarrow> byte list \<Rightarrow> 'k proc \<Rightarrow> (int \<times> 'k proc) option" where
  "hook_write api inner fildes buf s =
     (case blocking_lp fildes s of
        None \<Rightarrow> Some (kcall (sys_write api fildes buf) s)
      | Some lp \<Rightarrow>
          write_all (\<lambda>bs. kcall (sys_write api fildes bs))
            (wait_fd api inner fildes POLL_WRITE (timeout_ms (write_timeout lp))) buf s)"

definition send ::
  "'k sys \<Rightarrow> 'k poll_inner \<Rightarrow> int \<Rightarrow> byte list \<Rightarrow> int \<Rightarrow> 'k proc \<Rightarrow> (int \<times> 'k proc) option" where
  "send api inner fildes buf flags s =
     (case blocking_lp fildes s of
        None \<Rightarrow> Some (kcall (sys_send api fildes buf flags) s)
      | Some lp \<Rightarrow>
          write_all (\<lambda>bs. kcall (sys_send api fildes bs flags))
            (wait_fd api inner fildes POLL_WRITE (timeout_ms (write_timeout lp))) buf s)"

definition sendto ::
  "'k sys \<Rightarrow> 'k poll_inner \<Rightarrow> int \<Rightarrow> byte list \<Rightarrow> int \<Rightarrow> byte list \<Rightarrow> 'k proc \<Rightarrow> (int \<times> 'k proc) option" where
  "sendto api inner fildes msg flags dest_addr s =
     (case blocking_lp fildes s of
        None \<Rightarrow> Some (kcall (sys_sendto api fildes msg flags dest_addr) s)
      | Some lp \<Rightarrow>
          (case kcall (sys_sendto api fildes msg flags dest_addr) s of (ret, s1) \<Rightarrow>
             if ret < 0 \<and> errno s1 = EAGAIN
             then map_option (kcall (sys_sendto api fildes msg flags dest_addr))
                    (wait_fd api inner fildes POLL_WRITE (timeout_ms (write_timeout lp)) s1)
             else Some (ret, s1)))"

section \<open>What a write sends\<close>

lemma kcall_parts:
  "fst (kcall f s) = fst (f (errno s) (kern s))"
  "kern (snd (kcall f s)) = snd (snd (f (errno s) (kern s)))"
  "errno (snd (kcall f s)) = fst (snd (f (errno s) (kern s)))"
  "g_rpchook_socket_fd (snd (kcall f s)) = g_rpchook_socket_fd s"
  "cEnableSysHook (snd (kcall f s)) = cEnableSysHook s"
  by (simp_all add: kcall_def split: prod.split)

text \<open>
  The interface of the loop that \<open>write\<close> and \<open>send\<close> share. \<open>sent\<close> is the stream of bytes the kernel has
  accepted on the descriptor: the system call appends as many bytes as it reports and never reports
  more than it got, and the poll in between sends nothing and returns.
\<close>

locale piecewise_put =
  fixes put :: "byte list \<Rightarrow> 'k proc \<Rightarrow> int \<times> 'k proc" and wait :: "'k proc \<Rightarrow> 'k proc option"
    and sent :: "'k \<Rightarrow> byte list" and ok :: "'k proc \<Rightarrow> bool"
  assumes put_sent: "ok s \<Longrightarrow> put d s = (w, s') \<Longrightarrow>
      ok s' \<and> w \<le> int (length d) \<and> sent (kern s') = sent (kern s) @ take (nat w) d"
    and wait_sent: "ok s \<Longrightarrow> \<exists>s'. wait s = Some s' \<and> ok s' \<and> sent (kern s') = sent (kern s)"
begin

lemma write_loop_exact:
  "ok s \<Longrightarrow> wrotelen \<le> length buf \<Longrightarrow> sent (kern s) = base @ take wrotelen buf \<Longrightarrow>
    \<exists>n w s'. write_loop put wait buf wrotelen writeret s = Some (n, w, s') \<and> n \<le> length buf \<and>
      sent (kern s') = base @ take n buf"
proof (induction "length buf - wrotelen" arbitrary: wrotelen writeret s rule: less_induct)
  case less
  note unfold = write_loop.simps [of put wait buf wrotelen]
  show ?case
  proof (cases "wrotelen < length buf")
    case False
    then have "write_loop put wait buf wrotelen writeret s = Some (wrotelen, writeret, s)" by (simp add: unfold)
    then show ?thesis using less.prems by simp
  next
    case True
    obtain s1 where s1: "wait s = Some s1" "ok s1" "sent (kern s1) = sent (kern s)"
      using wait_sent [OF less.prems(1)] by blast
    obtain w s2 where p: "put (drop wrotelen buf) s1 = (w, s2)" by fastforce
    have w: "ok s2" "w \<le> int (length buf - wrotelen)"
      "sent (kern s2) = base @ take wrotelen buf @ take (nat w) (drop wrotelen buf)"
      using put_sent [OF s1(2) p] s1(3) less.prems(3) by auto
    show ?thesis
    proof (cases "w \<le> 0")
      case True
      then show ?thesis using \<open>wrotelen < length buf\<close> s1 p less.prems w(3) by (simp add: unfold)
    next
      case False
      then have "\<exists>n w' s'. write_loop put wait buf (wrotelen + nat w) w s2 = Some (n, w', s') \<and>
          n \<le> length buf \<and> sent (kern s') = base @ take n buf"
        using True w by (intro less.hyps) (auto simp: take_add)
      then show ?thesis using False True s1 p by (simp add: unfold)
    qed
  qed
qed

lemma write_all_exact:
  assumes "ok s"
  shows "\<exists>r s'. write_all put wait buf s = Some (r, s') \<and> r \<le> int (length buf) \<and>
    sent (kern s') = sent (kern s) @ take (nat r) buf"
proof -
  obtain w s1 where p: "put buf s = (w, s1)" by fastforce
  have w: "ok s1" "w \<le> int (length buf)" "sent (kern s1) = sent (kern s) @ take (nat w) buf"
    using put_sent [OF assms p] by auto
  then obtain n w' s' where "write_loop put wait buf (nat w) w s1 = Some (n, w', s')" "n \<le> length buf"
    "sent (kern s') = sent (kern s) @ take n buf"
    using write_loop_exact [of s1 "nat w" buf] by (metis nat_le_iff)
  then show ?thesis using p w by (auto simp: write_all_def)
qed

end

text \<open>The promises of the kernel behind it: of \<open>write\<close>, of \<open>send\<close>, and of the two kinds of poll.\<close>

definition kernel_appends :: "('k \<Rightarrow> byte list) \<Rightarrow> 'k sys \<Rightarrow> int \<Rightarrow> bool" where
  "kernel_appends sent api fildes \<longleftrightarrow>
     (\<forall>d e k. fst (sys_write api fildes d e k) \<le> int (length d) \<and>
        sent (snd (snd (sys_write api fildes d e k))) = sent k @ take (nat (fst (sys_write api fildes d e k))) d)"

definition kernel_sends :: "('k \<Rightarrow> byte list) \<Rightarrow> 'k sys \<Rightarrow> int \<Rightarrow> int \<Rightarrow> bool" where
  "kernel_sends sent api fildes flags \<longleftrightarrow>
     (\<forall>d e k. fst (sys_send api fildes d flags e k) \<le> int (length d) \<and>
        sent (snd (snd (sys_send api fildes d flags e k))) = sent k @ take (nat (fst (sys_send api fildes d flags e k))) d)"

definition quiet_poll :: "('k \<Rightarrow> byte list) \<Rightarrow> 'k sys \<Rightarrow> 'k poll_inner \<Rightarrow> bool" where
  "quiet_poll sent api inner \<longleftrightarrow>
     (\<forall>fds t s. \<exists>r fds' s'. inner fds t s = Some (r, fds', s') \<and> sent (kern s') = sent (kern s)) \<and>
     (\<forall>fds t e k. sent (snd (snd (sys_poll api fds t e k))) = sent k)"

lemma kcall_appends:
  assumes "kernel_appends sent api fildes" "kcall (sys_write api fildes d) s = (w, s')"
  shows "w \<le> int (length d) \<and> sent (kern s') = sent (kern s) @ take (nat w) d"
  using assms kcall_parts(1,2) [of "sys_write api fildes d" s] by (simp add: kernel_appends_def)

lemma kcall_sends:
  assumes "kernel_sends sent api fildes flags" "kcall (sys_send api fildes d flags) s = (w, s')"
  shows "w \<le> int (length d) \<and> sent (kern s') = sent (kern s) @ take (nat w) d"
  using assms kcall_parts(1,2) [of "sys_send api fildes d flags" s] by (simp add: kernel_sends_def)

lemma wait_fd_quiet:
  assumes "quiet_poll sent api inner"
  shows "\<exists>s'. wait_fd api inner fildes evs timeout s = Some s' \<and> sent (kern s') = sent (kern s)"
proof -
  let ?pf = "[\<lparr>fd = fildes, events = evs, fd_revents = 0\<rparr>]"
  obtain r fds' s' where i: "inner ?pf timeout s = Some (r, fds', s')" "sent (kern s') = sent (kern s)"
    using assms unfolding quiet_poll_def by blast
  obtain r2 s2 where k: "kcall (sys_poll api ?pf timeout) s = (r2, s2)" by fastforce
  then have "sent (kern s2) = sent (kern s)"
    using assms kcall_parts(2) [of "sys_poll api ?pf timeout" s] by (simp add: quiet_poll_def)
  then show ?thesis using i k by (cases r2) (simp add: wait_fd_def poll_def merge_fds_def)
qed

text \<open>Both calls keep the contract when the kernel keeps its promises.\<close>

interpretation writes: piecewise_put "\<lambda>bs. kcall (sys_write api fildes bs)" "wait_fd api inner fildes evs timeout" sent
  "\<lambda>s. kernel_appends sent api fildes \<and> quiet_poll sent api inner"
  by unfold_locales (auto dest: kcall_appends intro: wait_fd_quiet)

interpretation sends: piecewise_put "\<lambda>bs. kcall (sys_send api fildes bs flags)" "wait_fd api inner fildes evs timeout" sent
  "\<lambda>s. kernel_sends sent api fildes flags \<and> quiet_poll sent api inner"
  by unfold_locales (auto dest: kcall_sends intro: wait_fd_quiet)

lemma hook_write_prefix:
  assumes "kernel_appends sent api fildes" "quiet_poll sent api inner"
  shows "\<exists>r s'. hook_write api inner fildes buf s = Some (r, s') \<and> r \<le> int (length buf) \<and>
    sent (kern s') = sent (kern s) @ take (nat r) buf"
proof (cases "blocking_lp fildes s")
  case None
  then show ?thesis using kcall_appends [OF assms(1), of buf s] by (cases "kcall (sys_write api fildes buf) s")
      (simp add: hook_write_def)
next
  case (Some lp)
  then show ?thesis using writes.write_all_exact [OF conjI [OF assms]] by (simp add: hook_write_def)
qed

lemma send_prefix:
  assumes "kernel_sends sent api fildes flags" "quiet_poll sent api inner"
  shows "\<exists>r s'. send api inner fildes buf flags s = Some (r, s') \<and> r \<le> int (length buf) \<and>
    sent (kern s') = sent (kern s) @ take (nat r) buf"
proof (cases "blocking_lp fildes s")
  case None
  then show ?thesis using kcall_sends [OF assms(1), of buf s] by (cases "kcall (sys_send api fildes buf flags) s")
      (simp add: send_def)
next
  case (Some lp)
  then show ?thesis using sends.write_all_exact [OF conjI [OF assms]] by (simp add: send_def)
qed

text \<open>C11: a \<open>write\<close> returns, whatever the kernel accepts at each attempt, and its result says exactly
  how much it has sent: the kernel has received that many bytes of the front of the buffer, in order,
  without a gap or a repetition, and nothing when the result is negative. This holds on a hooked
  descriptor, where the call loops over partial writes, and on one it passes to the kernel.\<close>

theorem hook_write_exact:
  assumes "kernel_appends sent api fildes" "quiet_poll sent api inner"
  shows "\<exists>r s'. hook_write api inner fildes buf s = Some (r, s') \<and> r \<le> int (length buf) \<and>
    sent (kern s') = sent (kern s) @ take (nat r) buf"
  using assms by (rule hook_write_prefix)

text \<open>After every poll the descriptor is writable, a writable descriptor takes at least one byte, and a
  write of at least one byte never reports 0.\<close>

definition writable_after_poll :: "('k \<Rightarrow> bool) \<Rightarrow> 'k sys \<Rightarrow> 'k poll_inner \<Rightarrow> bool" where
  "writable_after_poll writable api inner \<longleftrightarrow>
     (\<forall>fds t s r fds' s'. inner fds t s = Some (r, fds', s') \<longrightarrow> writable (kern s')) \<and>
     (\<forall>fds t e k. writable (snd (snd (sys_poll api fds t e k))))"

definition kernel_progress :: "('k \<Rightarrow> bool) \<Rightarrow> 'k sys \<Rightarrow> int \<Rightarrow> bool" where
  "kernel_progress writable api fildes \<longleftrightarrow>
     (\<forall>d e k. d \<noteq> [] \<longrightarrow> fst (sys_write api fildes d e k) \<noteq> 0 \<and>
        (writable k \<longrightarrow> 0 < fst (sys_write api fildes d e k)))"

lemma wait_fd_writable:
  assumes "writable_after_poll writable api inner" "wait_fd api inner fildes evs timeout s = Some s'"
  shows "writable (kern s')"
proof (cases "\<not> cEnableSysHook s \<or> timeout = 0")
  case True
  then have "s' = snd (kcall (sys_poll api [\<lparr>fd = fildes, events = evs, fd_revents = 0\<rparr>] timeout) s)"
    using assms(2) by (auto simp: wait_fd_def poll_def split: prod.splits)
  then show ?thesis using assms(1) by (simp add: writable_after_poll_def kcall_parts)
next
  case False
  then obtain r fds' where "inner [\<lparr>fd = fildes, events = evs, fd_revents = 0\<rparr>] timeout s = Some (r, fds', s')"
    using assms(2) by (auto simp: wait_fd_def poll_def merge_fds_def)
  then show ?thesis using assms(1) unfolding writable_after_poll_def by blast
qed

lemma write_loop_complete:
  shows "(\<And>s s' d. wait s = Some s' \<Longrightarrow> d \<noteq> [] \<Longrightarrow> 0 < fst (put d s')) \<Longrightarrow>
    write_loop put wait buf wrotelen writeret s = Some (n, w, s') \<Longrightarrow> length buf \<le> n"
proof (induction put wait buf wrotelen writeret s rule: write_loop.induct)
  case (1 put wait buf wrotelen writeret s)
  show ?case
  proof (cases "wrotelen < length buf")
    case False
    then show ?thesis using "1.prems"(2) by (simp add: write_loop.simps [of put])
  next
    case True
    then obtain s1 where s1: "wait s = Some s1"
      using "1.prems"(2) by (auto simp: write_loop.simps [of put _ _ wrotelen] split: option.splits)
    obtain w1 s2 where p: "put (drop wrotelen buf) s1 = (w1, s2)" by fastforce
    have "0 < w1" using "1.prems"(1) [OF s1, of "drop wrotelen buf"] True p by simp
    then have "write_loop put wait buf (wrotelen + nat w1) w1 s2 = Some (n, w, s')"
      using "1.prems"(2) True s1 p by (simp add: write_loop.simps [of put _ _ wrotelen])
    then show ?thesis using "1.IH" [of s1 w1 s2] True s1 p \<open>0 < w1\<close> "1.prems"(1) by simp
  qed
qed

lemma hook_write_all:
  assumes "kernel_appends sent api fildes" "quiet_poll sent api inner"
    and "writable_after_poll writable api inner" "kernel_progress writable api fildes"
    and "blocking_lp fildes s = Some lp" "buf \<noteq> []"
  shows "\<exists>s'. hook_write api inner fildes buf s = Some (int (length buf), s') \<and>
    sent (kern s') = sent (kern s) @ buf"
proof -
  let ?put = "\<lambda>bs. kcall (sys_write api fildes bs)"
  let ?wait = "wait_fd api inner fildes POLL_WRITE (timeout_ms (write_timeout lp))"
  obtain r s' where w: "hook_write api inner fildes buf s = Some (r, s')" "r \<le> int (length buf)"
    "sent (kern s') = sent (kern s) @ take (nat r) buf"
    using hook_write_prefix [OF assms(1,2)] by blast
  obtain w0 s0 where p: "?put buf s = (w0, s0)" by fastforce
  have p0: "0 < fst (?put d t)" if "?wait t' = Some t" "d \<noteq> []" for t t' d
    using wait_fd_writable [OF assms(3) that(1)] assms(4) that(2) by (simp add: kernel_progress_def kcall_parts)
  have "w0 \<noteq> 0" using assms(4,6) p kcall_parts(1) [of "sys_write api fildes buf" s]
    by (simp add: kernel_progress_def)
  then obtain n w1 where l: "write_loop ?put ?wait buf (nat w0) w0 s0 = Some (n, w1, s')"
    "r = (if w1 \<le> 0 \<and> n = 0 then w1 else int n)"
    using w(1) p assms(5) by (auto simp: hook_write_def write_all_def)
  then have "length buf \<le> n" by (intro write_loop_complete [OF p0]) auto
  then have "r = int (length buf)" using l(2) w(2) assms(6) by auto
  then show ?thesis using w by simp
qed

text \<open>A hooked \<open>write\<close> is a blocking write over a non-blocking descriptor: when every poll of the
  call ends because the descriptor is writable, all of the buffer is sent before the call returns,
  even if the kernel takes one byte at a time or refuses the first attempt.\<close>

theorem hook_write_complete:
  assumes "kernel_appends sent api fildes" "quiet_poll sent api inner"
    and "writable_after_poll writable api inner" "kernel_progress writable api fildes"
    and "blocking_lp fildes s = Some lp" "buf \<noteq> []"
  shows "\<exists>s'. hook_write api inner fildes buf s = Some (int (length buf), s') \<and>
    sent (kern s') = sent (kern s) @ buf"
  using assms by (rule hook_write_all)

text \<open>A kernel for the examples: it keeps the bytes sent and the flags of one descriptor, and takes at
  most two bytes from a write.\<close>

definition demo_sys :: "(byte list \<times> int) sys" where
  "demo_sys =
     \<lparr>sys_socket = \<lambda>_ _ _ e k. (3, e, k), sys_accept = \<lambda>_ e k. (5, e, k),
      sys_connect = \<lambda>_ _ e k. (0, e, k), sys_so_error = \<lambda>_ e k. ((0, 0), e, k),
      sys_close = \<lambda>_ e k. (0, e, k), sys_read = \<lambda>_ _ e k. ((0, []), e, k),
      sys_write = \<lambda>_ d e k. (int (min 2 (length d)), e, fst k @ take 2 d, snd k),
      sys_sendto = \<lambda>_ _ _ _ e k. (0, e, k), sys_recvfrom = \<lambda>_ _ _ e k. ((0, [], []), e, k),
      sys_send = \<lambda>_ _ _ e k. (0, e, k), sys_recv = \<lambda>_ _ _ e k. ((0, []), e, k),
      sys_poll = \<lambda>fds _ e k. ((1, fds), e, k), sys_setsockopt = \<lambda>_ _ _ _ _ e k. (0, e, k),
      sys_fcntl = \<lambda>_ cmd e k.
        (case cmd of F_GETFL \<Rightarrow> (snd k, e, k) | F_SETFL p \<Rightarrow> (0, e, fst k, p) | _ \<Rightarrow> (0, e, k))\<rparr>"

definition demo_proc :: "(byte list \<times> int) proc" where
  "demo_proc =
     \<lparr>errno = 0, kern = ([], 0), g_rpchook_socket_fd = [5 \<mapsto> new_rpchook], cEnableSysHook = True\<rparr>"

abbreviation demo_inner :: "(byte list \<times> int) poll_inner" where
  "demo_inner \<equiv> \<lambda>fds t s. Some (1, fds, s)"

lemma take_2_min: "take (min 2 (length d)) d = take 2 d"
  by (simp add: min_def)

lemma demo_laws:
  "kernel_appends fst demo_sys fildes" "quiet_poll fst demo_sys demo_inner"
  "writable_after_poll (\<lambda>_. True) demo_sys demo_inner" "kernel_progress (\<lambda>_. True) demo_sys fildes"
  "blocking_lp 5 demo_proc = Some new_rpchook"
  by (auto simp: kernel_appends_def quiet_poll_def writable_after_poll_def kernel_progress_def demo_sys_def
      blocking_lp_def get_by_fd_def in_table_def demo_proc_def new_rpchook_def take_2_min)

lemma hook_write_exact_witness:
  "\<exists>r s'. hook_write demo_sys demo_inner 5 [1, 2, 3] demo_proc = Some (r, s') \<and> r \<le> int (length [1, 2, 3 :: byte]) \<and>
     fst (kern s') = fst (kern demo_proc) @ take (nat r) [1, 2, 3]"
  by (rule hook_write_exact [OF demo_laws(1,2)])

lemma hook_write_complete_witness:
  "\<exists>s'. hook_write demo_sys demo_inner 5 [1, 2, 3, 4, 5] demo_proc = Some (5, s') \<and>
     fst (kern s') = [1, 2, 3, 4, 5]"
  using hook_write_complete [OF demo_laws, of "[1, 2, 3, 4, 5]"] by (simp add: demo_proc_def)

section \<open>The flags of a descriptor\<close>

text \<open>\<open>fl\<close> are the flags the kernel keeps of the descriptor. \<open>F_SETFL\<close> sets the non-blocking bit as asked
  (it may ignore others), and \<open>F_GETFL\<close> returns the flags.\<close>

definition kernel_flags :: "('k \<Rightarrow> int) \<Rightarrow> 'k sys \<Rightarrow> int \<Rightarrow> bool" where
  "kernel_flags fl api fildes \<longleftrightarrow>
     (\<forall>e k. sys_fcntl api fildes F_GETFL e k = (fl k, e, k) \<and>
        (\<forall>p. fst (sys_fcntl api fildes (F_SETFL p) e k) = 0 \<and>
           fl (snd (snd (sys_fcntl api fildes (F_SETFL p) e k))) AND O_NONBLOCK = p AND O_NONBLOCK))"

lemma kernel_flagsD:
  assumes "kernel_flags fl api fildes"
  shows "sys_fcntl api fildes F_GETFL e k = (fl k, e, k)"
    and "fst (sys_fcntl api fildes (F_SETFL p) e k) = 0"
    and "fl (snd (snd (sys_fcntl api fildes (F_SETFL p) e k))) AND O_NONBLOCK = p AND O_NONBLOCK"
  using assms by (simp_all add: kernel_flags_def)

lemma and_exp_cases: "(a :: int) AND 2 ^ n = 0 \<or> a AND 2 ^ n = 2 ^ n"
proof -
  have "a AND 2 ^ n = (if bit a n then 2 ^ n else 0)"
    by (rule bit_eqI) (auto simp: bit_and_iff bit_exp_iff)
  then show ?thesis by simp
qed

lemma nonblock_cases: "p AND O_NONBLOCK = 0 \<or> p AND O_NONBLOCK = O_NONBLOCK"
  using and_exp_cases [of p 11] by simp

lemma clear_nonblock:
  "(a AND NOT O_NONBLOCK) AND O_NONBLOCK = 0" "(a AND NOT O_NONBLOCK) AND NOT O_NONBLOCK = a AND NOT O_NONBLOCK"
  by (simp_all add: and.assoc)

lemma or_and_absorb: "(a OR m) AND m = (m :: int)"
  by (auto simp: bit_eq_iff bit_and_iff bit_or_iff)

lemma fcntl_setfl_view:
  assumes "kernel_flags fl api fildes" "cEnableSysHook s" "0 \<le> fildes" "get_by_fd fildes s = Some lp"
  shows "\<exists>s' r. fcntl api fildes (F_SETFL p) s = (0, s') \<and> fl (kern s') AND O_NONBLOCK = O_NONBLOCK \<and>
    get_by_fd fildes s' = Some (lp\<lparr>user_flag := p\<rparr>) \<and> fcntl api fildes F_GETFL s' = (r, s') \<and>
    r AND O_NONBLOCK = p AND O_NONBLOCK \<and> r AND NOT O_NONBLOCK = fl (kern s') AND NOT O_NONBLOCK"
proof -
  obtain e k where c: "sys_fcntl api fildes (F_SETFL (p OR O_NONBLOCK)) (errno s) (kern s) = (0, e, k)"
    and k: "fl k AND O_NONBLOCK = O_NONBLOCK"
    using kernel_flagsD(2,3) [OF assms(1), of "p OR O_NONBLOCK" "errno s" "kern s"]
    by (metis or_and_absorb prod.collapse snd_conv)
  have g: "sys_fcntl api fildes F_GETFL e' k' = (fl k', e', k')" for e' k'
    by (rule kernel_flagsD(1) [OF assms(1)])
  define s' where "s' = set_by_fd fildes (Some (lp\<lparr>user_flag := p\<rparr>)) (s\<lparr>errno := e, kern := k\<rparr>)"
  have t: "in_table fildes" using assms(4) by (simp add: get_by_fd_def split: if_splits)
  have 1: "fcntl api fildes (F_SETFL p) s = (0, s')"
    using assms c by (simp add: fcntl_def kcall_def s'_def)
  have 2: "get_by_fd fildes s' = Some (lp\<lparr>user_flag := p\<rparr>)" "kern s' = k"
    using t by (simp_all add: get_by_fd_def s'_def set_by_fd_def)
  have 3: "fcntl api fildes F_GETFL s' = (if p AND O_NONBLOCK = 0 then fl k AND NOT O_NONBLOCK else fl k, s')"
    using assms(3) 2 g by (simp add: fcntl_def kcall_def)
  show ?thesis using 1 2 3 k nonblock_cases [of p] clear_nonblock [of "fl k"]
    by (intro exI [of _ s'] exI [of _ "if p AND O_NONBLOCK = 0 then fl k AND NOT O_NONBLOCK else fl k"]) auto
qed

text \<open>What \<open>F_SETFL\<close> changes: the flags in the mask \<open>m\<close>, and no others.\<close>

definition kernel_setfl :: "int \<Rightarrow> ('k \<Rightarrow> int) \<Rightarrow> 'k sys \<Rightarrow> int \<Rightarrow> bool" where
  "kernel_setfl m fl api fildes \<longleftrightarrow> m AND O_NONBLOCK = O_NONBLOCK \<and>
     (\<forall>e k. sys_fcntl api fildes F_GETFL e k = (fl k, e, k) \<and>
        (\<forall>p. fst (sys_fcntl api fildes (F_SETFL p) e k) = 0 \<and>
           fl (snd (snd (sys_fcntl api fildes (F_SETFL p) e k))) = fl k AND NOT m OR p AND m))"

lemma masked_bits:
  fixes r p f g m n :: int
  assumes "r AND n = p AND n" "r AND NOT n = f AND NOT n" "f = g AND NOT m OR (p OR n) AND m" "m AND n = n"
  shows "r = g AND NOT m OR p AND m"
proof (rule bit_eqI)
  fix i
  have "bit (r AND n) i = bit (p AND n) i" "bit (r AND NOT n) i = bit (f AND NOT n) i"
    "bit f i = bit (g AND NOT m OR (p OR n) AND m) i" "bit (m AND n) i = bit n i"
    by (simp_all only: assms)
  then show "bit r i = bit (g AND NOT m OR p AND m) i" by (auto simp: bit_simps)
qed

lemma kernel_setfl_flags: "kernel_setfl m fl api fildes \<Longrightarrow> kernel_flags fl api fildes"
proof -
  have "(g AND NOT m OR p AND m) AND O_NONBLOCK = p AND O_NONBLOCK" if "m AND O_NONBLOCK = O_NONBLOCK" for g p m :: int
  proof (rule bit_eqI)
    fix i
    have "bit (m AND O_NONBLOCK) i = bit O_NONBLOCK i" by (simp only: that)
    then show "bit ((g AND NOT m OR p AND m) AND O_NONBLOCK) i = bit (p AND O_NONBLOCK) i"
      by (auto simp: bit_and_iff bit_or_iff bit_not_iff)
  qed
  then show "kernel_setfl m fl api fildes \<Longrightarrow> kernel_flags fl api fildes"
    by (simp add: kernel_setfl_def kernel_flags_def)
qed

text \<open>C18: a program under the hooks does not notice that its descriptor is non-blocking in the kernel: the
  flags it reads back after \<open>F_SETFL\<close> are exactly those the kernel would have without the hooks, the ones it
  has set where the kernel lets them be set (among them \<open>O_NONBLOCK\<close>), and the old ones elsewhere.\<close>

theorem fcntl_user_view:
  assumes "kernel_setfl m fl api fildes" "cEnableSysHook s" "0 \<le> fildes" "get_by_fd fildes s = Some lp"
  shows "\<exists>s'. fcntl api fildes (F_SETFL p) s = (0, s') \<and> fl (kern s') AND O_NONBLOCK = O_NONBLOCK \<and>
    get_by_fd fildes s' = Some (lp\<lparr>user_flag := p\<rparr>) \<and>
    fcntl api fildes F_GETFL s' = (fl (kern s) AND NOT m OR p AND m, s') \<and>
    fl (kern s) AND NOT m OR p AND m =
      fl (snd (snd (sys_fcntl api fildes (F_SETFL p) (errno s) (kern s))))"
proof -
  obtain s' r where s': "fcntl api fildes (F_SETFL p) s = (0, s')" "fl (kern s') AND O_NONBLOCK = O_NONBLOCK"
    "get_by_fd fildes s' = Some (lp\<lparr>user_flag := p\<rparr>)" "fcntl api fildes F_GETFL s' = (r, s')"
    "r AND O_NONBLOCK = p AND O_NONBLOCK" "r AND NOT O_NONBLOCK = fl (kern s') AND NOT O_NONBLOCK"
    using fcntl_setfl_view [OF kernel_setfl_flags [OF assms(1)] assms(2-4), of p] by (elim exE conjE)
  have "kern s' = snd (snd (sys_fcntl api fildes (F_SETFL (p OR O_NONBLOCK)) (errno s) (kern s)))"
    using s'(1) assms(2-4)
    by (auto simp: fcntl_def kcall_def set_by_fd_def Let_def split: prod.splits if_splits)
  then have "fl (kern s') = fl (kern s) AND NOT m OR (p OR O_NONBLOCK) AND m"
    using assms(1) by (simp add: kernel_setfl_def)
  then have "r = fl (kern s) AND NOT m OR p AND m"
    using masked_bits [OF s'(5,6)] assms(1) by (simp add: kernel_setfl_def)
  then show ?thesis using s'(1-4) assms(1) by (auto simp: kernel_setfl_def)
qed

lemma fcntl_user_view_witness:
  "\<exists>s'. fcntl demo_sys 5 (F_SETFL 1026) demo_proc = (0, s') \<and> snd (kern s') AND O_NONBLOCK = O_NONBLOCK \<and>
    fcntl demo_sys 5 F_GETFL s' = (1026, s')"
proof -
  have "kernel_setfl (- 1) snd demo_sys 5" by (simp add: kernel_setfl_def demo_sys_def)
  moreover have "cEnableSysHook demo_proc" by (simp add: demo_proc_def)
  moreover have "get_by_fd 5 demo_proc = Some new_rpchook"
    by (simp add: get_by_fd_def in_table_def demo_proc_def)
  ultimately show ?thesis using fcntl_user_view [of "- 1" snd demo_sys 5 demo_proc new_rpchook 1026] by auto
qed

text \<open>A failing \<open>F_GETFL\<close> on a hooked descriptor does not return -1: the bit is cleared from the error.\<close>

lemma fcntl_getfl_error:
  assumes "sys_fcntl api fildes F_GETFL (errno s) (kern s) = (- 1, e, k)" "0 \<le> fildes"
    and "get_by_fd fildes s = Some lp" "user_flag lp AND O_NONBLOCK = 0"
  shows "fst (fcntl api fildes F_GETFL s) = - 2049"
  using assms by (simp add: fcntl_def kcall_def)

text \<open>A socket created under the hooks blocks for the program and not for the kernel.\<close>

lemma socket_nonblocking:
  assumes "kernel_flags fl api fildes" "cEnableSysHook s" "in_table fildes"
    and "sys_socket api family typ protocol (errno s) (kern s) = (fildes, e, k)" "fl k AND O_NONBLOCK = 0"
  shows "\<exists>s' lp. socket api family typ protocol s = Some (fildes, s') \<and> get_by_fd fildes s' = Some lp \<and>
    domain lp = family \<and> blocking_lp fildes s' = Some lp \<and> fl (kern s') AND O_NONBLOCK = O_NONBLOCK"
proof -
  let ?lp = "new_rpchook\<lparr>domain := family\<rparr>"
  let ?s1 = "set_by_fd fildes (Some ?lp) (s\<lparr>errno := e, kern := k\<rparr>)"
  have f: "0 \<le> fildes" using assms(3) by (simp add: in_table_def)
  have g: "cEnableSysHook ?s1" "get_by_fd fildes ?s1 = Some ?lp" "kern ?s1 = k" "errno ?s1 = e"
    using assms(2,3) by (simp_all add: set_by_fd_def get_by_fd_def)
  obtain s' where s': "fcntl api fildes (F_SETFL (fl k)) ?s1 = (0, s')" "fl (kern s') AND O_NONBLOCK = O_NONBLOCK"
    "get_by_fd fildes s' = Some (?lp\<lparr>user_flag := fl k\<rparr>)"
    using fcntl_setfl_view [OF assms(1) g(1) f g(2), of "fl k"] by blast
  have "set_by_fd fildes (Some ?lp) (set_by_fd fildes (Some new_rpchook) (s\<lparr>errno := e, kern := k\<rparr>)) = ?s1"
    by (simp add: set_by_fd_def)
  moreover have "kcall (sys_fcntl api fildes F_GETFL) ?s1 = (fl k, ?s1)"
    using kernel_flagsD(1) [OF assms(1)] g by (simp add: kcall_def set_by_fd_def)
  ultimately have "socket api family typ protocol s = Some (fildes, s')"
    using assms(2,3,4) f s'(1) by (simp add: socket_def kcall_def [of "sys_socket api family typ protocol"] alloc_by_fd_def)
  moreover have "cEnableSysHook s'"
    using s'(1) f g by (auto simp: fcntl_def kcall_def set_by_fd_def split: prod.splits if_splits)
  ultimately show ?thesis using s' assms(5) by (auto simp: blocking_lp_def and.commute)
qed

section \<open>Merging the entries of a poll\<close>

text \<open>The events requested on a descriptor by all entries of a poll.\<close>

fun wanted :: "pollfd list \<Rightarrow> int \<Rightarrow> short" where
  "wanted [] x = 0"
| "wanted (f # fds) x = (if fd f = x then events f OR wanted fds x else wanted fds x)"

definition merged :: "pollfd list \<Rightarrow> pollfd list \<times> (int \<Rightarrow> nat option) \<Rightarrow> bool" where
  "merged fds mm \<longleftrightarrow>
     (case mm of (mg, m) \<Rightarrow>
        distinct (map fd mg) \<and> set (map fd mg) = set (map fd fds) \<and> dom m = set (map fd fds) \<and>
        (\<forall>x j. m x = Some j \<longrightarrow> j < length mg \<and> fd (mg ! j) = x \<and> events (mg ! j) = wanted fds x))"

lemma mergedD:
  assumes "merged fds (mg, m)"
  shows "distinct (map fd mg)" "set (map fd mg) = set (map fd fds)" "dom m = set (map fd fds)"
    "m x = Some j \<Longrightarrow> j < length mg \<and> fd (mg ! j) = x \<and> events (mg ! j) = wanted fds x"
  using assms by (simp_all add: merged_def)

lemma wanted_snoc: "wanted (fds @ [f]) x = (if fd f = x then wanted fds x OR events f else wanted fds x)"
  by (induction fds) (auto simp: or.assoc)

lemma wanted_unused: "x \<notin> set (map fd fds) \<Longrightarrow> wanted fds x = 0"
  by (induction fds) auto

lemma merge_step_merged:
  assumes "merged fds (mg, m)"
  shows "merged (fds @ [f]) (merge_step f (mg, m))"
proof (cases "m (fd f)")
  case None
  then have n: "fd f \<notin> set (map fd fds)" using mergedD(3) [OF assms] by (metis domIff)
  have "events f = wanted (fds @ [f]) (fd f)" using wanted_unused [OF n] by (simp add: wanted_snoc)
  then show ?thesis using assms None n
    by (auto simp: merged_def merge_step_def wanted_snoc nth_append less_Suc_eq)
next
  case (Some j)
  let ?g = "(mg ! j)\<lparr>events := events (mg ! j) OR events f\<rparr>"
  let ?mg = "mg[j := ?g]"
  have j: "j < length mg" "fd (mg ! j) = fd f" "events (mg ! j) = wanted fds (fd f)"
    using mergedD(4) [OF assms Some] by simp_all
  have fds: "map fd ?mg = map fd mg"
    using j by (simp add: map_update list_update_same_conv)
  have "fd f \<in> dom m" using Some by auto
  then have f: "fd f \<in> set (map fd fds)" by (simp only: mergedD(3) [OF assms])
  then have sets: "set (map fd (fds @ [f])) = set (map fd fds)" by auto
  have "i < length ?mg \<and> fd (?mg ! i) = x \<and> events (?mg ! i) = wanted (fds @ [f]) x" if "m x = Some i" for x i
  proof (cases "x = fd f")
    case True
    then have "i = j" using that Some by simp
    then show ?thesis using True j by (simp add: wanted_snoc)
  next
    case False
    then have "i \<noteq> j" using mergedD(4) [OF assms that] j(2) by auto
    then show ?thesis using False mergedD(4) [OF assms that] by (simp add: wanted_snoc)
  qed
  then have "merged (fds @ [f]) (?mg, m)"
    using mergedD(1-3) [OF assms] unfolding merged_def prod.case fds sets by blast
  then show ?thesis using Some by (simp add: merge_step_def)
qed

lemma merge_fold: "merged fds mm \<Longrightarrow> merged (fds @ gs) (fold merge_step gs mm)"
proof (induction gs arbitrary: fds mm)
  case (Cons g gs)
  have "merged (fds @ [g]) (merge_step g mm)" using Cons.prems by (cases mm) (simp add: merge_step_merged)
  then show ?case using Cons.IH [of "fds @ [g]"] by simp
qed simp

lemma merge_fds_merged: "1 < length fds \<Longrightarrow> merged fds (merge_fds fds)"
  using merge_fold [of "[]" "([], \<lambda>_. None)" fds] by (simp add: merge_fds_def merged_def)

lemma merged_length: "merged fds (mg, m) \<Longrightarrow> length mg = length fds \<longleftrightarrow> distinct (map fd fds)"
proof -
  assume m: "merged fds (mg, m)"
  have "length mg = card (set (map fd mg))"
    using distinct_card [OF mergedD(1) [OF m]] by simp
  then have c: "length mg = card (set (map fd fds))" by (simp only: mergedD(2) [OF m])
  show ?thesis
    using c card_distinct [of "map fd fds"] distinct_card [of "map fd fds"] unfolding length_map by argo
qed

text \<open>C19: a \<open>poll\<close> under the hooks registers each descriptor once. When several entries name one
  descriptor, \<open>co_poll_inner\<close> gets one entry for each distinct descriptor, with the union of the
  events its entries ask for; and when it raises something, every entry of the caller gets the
  events raised on its own descriptor, cut down to those it asked for itself.\<close>

theorem poll_merges:
  assumes "cEnableSysHook s" "timeout \<noteq> 0" "\<not> distinct (map fd fds)"
    and "merge_fds fds = (mg, m)" "inner mg timeout s = Some (ret, mg', s')" "map fd mg' = map fd mg" "0 < ret"
  shows "distinct (map fd mg) \<and> set (map fd mg) = set (map fd fds) \<and>
    (\<forall>g \<in> set mg. events g = wanted fds (fd g)) \<and>
    (\<exists>fds'. poll api inner fds timeout s = Some (ret, fds', s') \<and> length fds' = length fds \<and>
      (\<forall>i < length fds. \<exists>g \<in> set mg'. fd g = fd (fds ! i) \<and>
         fds' ! i = (fds ! i)\<lparr>fd_revents := fd_revents g AND events (fds ! i)\<rparr>))"
proof -
  have l: "1 < length fds"
  proof (rule ccontr)
    assume "\<not> 1 < length fds"
    then have "length fds \<le> 1" by simp
    then show False using assms(3) by (cases fds) (simp_all del: One_nat_def)
  qed
  have m: "merged fds (mg, m)" using merge_fds_merged [OF l] assms(4) by simp
  note p = mergedD(1-3) [OF m] mergedD(4) [OF m]
  have e: "events g = wanted fds (fd g)" if "g \<in> set mg" for g
  proof -
    have "fd g \<in> dom m" using that p(2,3) by auto
    then obtain j where j: "m (fd g) = Some j" by auto
    obtain i where i: "i < length mg" "g = mg ! i" using \<open>g \<in> set mg\<close> by (metis in_set_conv_nth)
    have "map fd mg ! i = map fd mg ! j" using p(4) [OF j] i by simp
    then have "i = j" using nth_eq_iff_index_eq [OF p(1), of i j] p(4) [OF j] i(1) by simp
    then show ?thesis using p(4) [OF j] i by simp
  qed
  have u: "\<exists>g \<in> set mg'. fd g = fd f \<and> unmerge mg' m f = f\<lparr>fd_revents := fd_revents g AND events f\<rparr>"
    if "f \<in> set fds" for f
  proof -
    have "fd f \<in> dom m" using that p(3) by auto
    then obtain j where j: "m (fd f) = Some j" by auto
    have len: "length mg' = length mg" using assms(6) map_eq_imp_length_eq by blast
    then have "fd (mg' ! j) = fd (mg ! j)" using assms(6) p(4) [OF j] by (metis nth_map)
    then show ?thesis using p(4) [OF j] j len by (intro bexI [of _ "mg' ! j"]) (auto simp: unmerge_def)
  qed
  have "poll api inner fds timeout s = Some (ret, map (unmerge mg' m) fds, s')"
    using assms l merged_length [OF m] by (simp add: poll_def)
  then have "\<exists>fds'. poll api inner fds timeout s = Some (ret, fds', s') \<and> length fds' = length fds \<and>
      (\<forall>i < length fds. \<exists>g \<in> set mg'. fd g = fd (fds ! i) \<and>
         fds' ! i = (fds ! i)\<lparr>fd_revents := fd_revents g AND events (fds ! i)\<rparr>)"
    using u by (intro exI [of _ "map (unmerge mg' m) fds"]) auto
  then show ?thesis using p(1,2) e by blast
qed

text \<open>Without a repeated descriptor a poll under the hooks is \<open>co_poll_inner\<close> itself.\<close>

lemma poll_distinct:
  assumes "cEnableSysHook s" "timeout \<noteq> 0" "distinct (map fd fds)"
  shows "poll api inner fds timeout s = inner fds timeout s"
proof (cases "1 < length fds")
  case True
  then show ?thesis using assms merge_fds_merged [OF True] merged_length [of fds]
    by (cases "merge_fds fds") (simp add: poll_def)
next
  case False
  then show ?thesis using assms by (cases fds) (auto simp: poll_def merge_fds_def)
qed

lemma poll_merges_witness:
  "\<exists>fds'. poll demo_sys demo_inner
      [\<lparr>fd = 4, events = POLLIN, fd_revents = 0\<rparr>, \<lparr>fd = 4, events = POLLOUT, fd_revents = POLLIN\<rparr>] 10 demo_proc =
      Some (1, fds', demo_proc)"
proof -
  let ?fds = "[\<lparr>fd = 4, events = POLLIN, fd_revents = 0\<rparr>, \<lparr>fd = 4, events = POLLOUT, fd_revents = POLLIN\<rparr>]"
  obtain mg m where mm: "merge_fds ?fds = (mg, m)" by fastforce
  have h: "cEnableSysHook demo_proc" "(10 :: int) \<noteq> 0" "\<not> distinct (map fd ?fds)" "(0 :: int) < 1"
    by (simp_all add: demo_proc_def)
  show ?thesis
    using poll_merges [where inner = demo_inner and api = demo_sys, OF h(1-3) mm refl refl h(4)] by blast
qed

end
