(* ===== verification/Db_Conn.thy ===== *)
theory Db_Conn
  imports Db_Pool "HOL-Library.Monad_Syntax"
begin

text \<open>
  The wrappers of \<open>src/dbpool/DBPool.cpp\<close> around the MySQL client library: \<open>CResultSet\<close>,
  \<open>CPrepareStatement\<close> and \<open>CDBConn\<close>. The client library is a parameter: a record of functions on
  the state \<open>'d\<close> of the connections and the server behind them. A null pointer that the code
  dereferences has no result (\<open>None\<close>).
\<close>

section \<open>Decimal numbers\<close>

text \<open>\<open>std::to_string\<close> (and \<open>%d\<close>) and \<open>atoi\<close>.\<close>

definition digit_char :: "nat \<Rightarrow> char" where
  "digit_char d = char_of (48 + d)"

fun digits :: "nat \<Rightarrow> string" where
  "digits n = (if n < 10 then [digit_char n] else digits (n div 10) @ [digit_char (n mod 10)])"

declare digits.simps [simp del]

definition to_string :: "int \<Rightarrow> string" where
  "to_string i = (if i < 0 then ''-'' @ digits (nat (- i)) else digits (nat i))"

definition is_digit :: "char \<Rightarrow> bool" where
  "is_digit c \<longleftrightarrow> 48 \<le> (of_char c :: nat) \<and> of_char c \<le> (57 :: nat)"

definition is_space :: "char \<Rightarrow> bool" where
  "is_space c \<longleftrightarrow> of_char c = (32 :: nat) \<or> (9 \<le> (of_char c :: nat) \<and> of_char c \<le> (13 :: nat))"

fun atoi_digits :: "nat \<Rightarrow> string \<Rightarrow> nat" where
  "atoi_digits acc [] = acc"
| "atoi_digits acc (c # cs) = (if is_digit c then atoi_digits (10 * acc + (of_char c - 48)) cs else acc)"

definition atoi :: "string \<Rightarrow> int" where
  "atoi s =
     (case dropWhile is_space s of
        [] \<Rightarrow> 0
      | c # cs \<Rightarrow> if c = CHR ''-'' then - int (atoi_digits 0 cs)
                  else if c = CHR ''+'' then int (atoi_digits 0 cs)
                  else int (atoi_digits 0 (c # cs)))"

section \<open>The client library\<close>

text \<open>A result of a query: its columns and rows, a cell being null or a string. A bound parameter of a
  prepared statement: not set, an integer, a string, or a buffer (or a null pointer) sent separately.\<close>

record result =
  res_fields :: "string list"
  res_rows :: "string option list list"

datatype bind = Unset | Long int | Str string | Blob "string option"

text \<open>
  Per connection: \<open>mysql_real_query\<close> (true when it fails), \<open>mysql_store_result\<close>,
  \<open>mysql_affected_rows\<close> (an unsigned number), \<open>mysql_insert_id\<close>, \<open>mysql_ping\<close>; \<open>mysql_stmt_prepare\<close> (the number of
  parameters, or failure), \<open>mysql_stmt_bind_param\<close> and \<open>mysql_stmt_execute\<close> as one call that may
  fail. \<open>api_connect\<close> is the \<open>Init\<close> of a new connection; \<open>api_time\<close> is \<open>time(NULL)\<close> as an \<open>int\<close>.
\<close>

record 'd mysql =
  api_connect :: "nat \<Rightarrow> 'd \<Rightarrow> int \<times> 'd"
  api_ping :: "nat \<Rightarrow> 'd \<Rightarrow> 'd"
  api_query :: "nat \<Rightarrow> string \<Rightarrow> 'd \<Rightarrow> bool \<times> 'd"
  api_store :: "nat \<Rightarrow> 'd \<Rightarrow> result option \<times> 'd"
  api_affected :: "nat \<Rightarrow> 'd \<Rightarrow> nat"
  api_insert_id :: "nat \<Rightarrow> 'd \<Rightarrow> int"
  api_prepare :: "nat \<Rightarrow> string \<Rightarrow> 'd \<Rightarrow> nat option \<times> 'd"
  api_bind :: "nat \<Rightarrow> string \<Rightarrow> bind list \<Rightarrow> 'd \<Rightarrow> bool \<times> 'd"
  api_long_data :: "nat \<Rightarrow> int \<Rightarrow> string \<Rightarrow> 'd \<Rightarrow> bool \<times> 'd"
  api_execute :: "nat \<Rightarrow> string \<Rightarrow> bind list \<Rightarrow> 'd \<Rightarrow> bool \<times> 'd"
  api_time :: "'d \<Rightarrow> int"

section \<open>CResultSet\<close>

record CResultSet =
  m_key_map :: "(string \<times> nat) list"
  m_rows :: "string option list list"
  m_row :: "string option list option"

text \<open>\<open>map::insert\<close> keeps the first of several columns with the same name, as \<open>map_of\<close> does.\<close>

definition CResultSet_ctor :: "result \<Rightarrow> CResultSet" where
  "CResultSet_ctor res =
     \<lparr>m_key_map = zip (res_fields res) [0..<length (res_fields res)], m_rows = res_rows res, m_row = None\<rparr>"

definition Next :: "CResultSet \<Rightarrow> bool \<times> CResultSet" where
  "Next r =
     (case m_rows r of
        [] \<Rightarrow> (False, r\<lparr>m_row := None\<rparr>)
      | row # rows \<Rightarrow> (True, r\<lparr>m_row := Some row, m_rows := rows\<rparr>))"

definition GetIndex :: "string \<Rightarrow> CResultSet \<Rightarrow> int" where
  "GetIndex key r = (case map_of (m_key_map r) key of None \<Rightarrow> - 1 | Some i \<Rightarrow> int i)"

text \<open>\<open>m_row[idx]\<close>: there has to be a current row.\<close>

definition cell :: "int \<Rightarrow> CResultSet \<Rightarrow> string option option" where
  "cell idx r =
     (case m_row r of
        None \<Rightarrow> None
      | Some row \<Rightarrow> if 0 \<le> idx \<and> nat idx < length row then Some (row ! nat idx) else None)"

definition GetInt :: "string \<Rightarrow> CResultSet \<Rightarrow> int option" where
  "GetInt key r =
     (let idx = GetIndex key r in
      if idx = - 1 then Some 0
      else do { v \<leftarrow> cell idx r; s \<leftarrow> v; Some (atoi s) })"

text \<open>The result is a \<open>char *\<close>, possibly null.\<close>

definition GetString :: "string \<Rightarrow> CResultSet \<Rightarrow> string option option" where
  "GetString key r =
     (let idx = GetIndex key r in if idx = - 1 then Some None else cell idx r)"

section \<open>CDBConn\<close>

definition ExecuteQuery :: "'d mysql \<Rightarrow> nat \<Rightarrow> string \<Rightarrow> 'd \<Rightarrow> CResultSet option \<times> 'd" where
  "ExecuteQuery api c sql_query d =
     (case api_query api c sql_query (api_ping api c d) of
        (True, d1) \<Rightarrow> (None, d1)
      | (False, d1) \<Rightarrow>
          (case api_store api c d1 of
             (None, d2) \<Rightarrow> (None, d2)
           | (Some res, d2) \<Rightarrow> (Some (CResultSet_ctor res), d2)))"

definition ExecuteUpdate :: "'d mysql \<Rightarrow> nat \<Rightarrow> string \<Rightarrow> bool \<Rightarrow> 'd \<Rightarrow> bool \<times> 'd" where
  "ExecuteUpdate api c sql_query care_affected_rows d =
     (case api_query api c sql_query (api_ping api c d) of
        (True, d1) \<Rightarrow> (False, d1)
      | (False, d1) \<Rightarrow> if 0 < api_affected api c d1 then (True, d1) else (\<not> care_affected_rows, d1))"

text \<open>\<open>ExecuteCreate\<close>, \<open>ExecuteDrop\<close> and the three transaction calls only report whether the query failed.\<close>

definition plain_query :: "'d mysql \<Rightarrow> nat \<Rightarrow> string \<Rightarrow> 'd \<Rightarrow> bool \<times> 'd" where
  "plain_query api c sql d =
     (case api_query api c sql (api_ping api c d) of (failed, d1) \<Rightarrow> (\<not> failed, d1))"

definition ExecuteCreate :: "'d mysql \<Rightarrow> nat \<Rightarrow> string \<Rightarrow> 'd \<Rightarrow> bool \<times> 'd" where
  "ExecuteCreate api c sql_query = plain_query api c sql_query"

definition ExecuteDrop :: "'d mysql \<Rightarrow> nat \<Rightarrow> string \<Rightarrow> 'd \<Rightarrow> bool \<times> 'd" where
  "ExecuteDrop api c sql_query = plain_query api c sql_query"

definition StartTransaction :: "'d mysql \<Rightarrow> nat \<Rightarrow> 'd \<Rightarrow> bool \<times> 'd" where
  "StartTransaction api c = plain_query api c ''start transaction''"

definition Rollback :: "'d mysql \<Rightarrow> nat \<Rightarrow> 'd \<Rightarrow> bool \<times> 'd" where
  "Rollback api c = plain_query api c ''rollback''"

definition Commit :: "'d mysql \<Rightarrow> nat \<Rightarrow> 'd \<Rightarrow> bool \<times> 'd" where
  "Commit api c = plain_query api c ''commit''"

section \<open>CPrepareStatement\<close>

text \<open>\<open>m_stmt\<close> is the text of the prepared statement. After a failed preparation the handle is set, and
  there are no parameters.\<close>

record CPrepareStatement =
  m_stmt :: "string option"
  m_param_bind :: "bind list"

definition CPrepareStatement_ctor :: CPrepareStatement where
  "CPrepareStatement_ctor = \<lparr>m_stmt = None, m_param_bind = []\<rparr>"

definition stmt_Init ::
  "'d mysql \<Rightarrow> nat \<Rightarrow> string \<Rightarrow> CPrepareStatement \<Rightarrow> 'd \<Rightarrow> bool \<times> CPrepareStatement \<times> 'd" where
  "stmt_Init api c sql st d =
     (case api_prepare api c sql (api_ping api c d) of
        (None, d1) \<Rightarrow> (False, st\<lparr>m_stmt := Some sql\<rparr>, d1)
      | (Some n, d1) \<Rightarrow> (True, \<lparr>m_stmt = Some sql, m_param_bind = replicate n Unset\<rparr>, d1))"

text \<open>The overloads of \<open>SetParam\<close> differ in the binding they store.\<close>

definition SetParam :: "nat \<Rightarrow> bind \<Rightarrow> CPrepareStatement \<Rightarrow> CPrepareStatement" where
  "SetParam index b st =
     (if length (m_param_bind st) \<le> index then st
      else st\<lparr>m_param_bind := (m_param_bind st)[index := b]\<rparr>)"

definition stmt_ExecuteUpdate :: "'d mysql \<Rightarrow> nat \<Rightarrow> CPrepareStatement \<Rightarrow> 'd \<Rightarrow> bool \<times> 'd" where
  "stmt_ExecuteUpdate api c st d =
     (case m_stmt st of
        None \<Rightarrow> (False, d)
      | Some sql \<Rightarrow>
          (case api_bind api c sql (m_param_bind st) d of
             (True, d1) \<Rightarrow> (False, d1)
           | (False, d1) \<Rightarrow>
               (case api_execute api c sql (m_param_bind st) d1 of (failed, d2) \<Rightarrow> (\<not> failed, d2))))"

text \<open>The overload that sends a buffer as the parameter \<open>index\<close>. It sends one byte more than the length
  it is given; \<open>buff\<close> stands for these bytes.\<close>

definition stmt_ExecuteUpdate_long ::
  "'d mysql \<Rightarrow> nat \<Rightarrow> string \<Rightarrow> int \<Rightarrow> CPrepareStatement \<Rightarrow> 'd \<Rightarrow> bool \<times> 'd" where
  "stmt_ExecuteUpdate_long api c buff index st d =
     (case m_stmt st of
        None \<Rightarrow> (False, d)
      | Some sql \<Rightarrow>
          (case api_bind api c sql (m_param_bind st) d of
             (True, d1) \<Rightarrow> (False, d1)
           | (False, d1) \<Rightarrow>
               (case api_long_data api c index buff d1 of
                  (True, d2) \<Rightarrow> (False, d2)
                | (False, d2) \<Rightarrow>
                    (case api_execute api c sql (m_param_bind st) d2 of (failed, d3) \<Rightarrow> (\<not> failed, d3)))))"

section \<open>Lemmas\<close>

lemma is_digit_char [simp]: "d < 10 \<Longrightarrow> is_digit (digit_char d)"
  by (simp add: is_digit_def digit_char_def)

lemma digit_char_value [simp]: "d < 10 \<Longrightarrow> of_char (digit_char d) = 48 + d"
  by (simp add: digit_char_def)

lemma atoi_digits_append:
  "\<forall>c \<in> set s. is_digit c \<Longrightarrow> atoi_digits acc (s @ t) = atoi_digits (atoi_digits acc s) t"
  by (induction s arbitrary: acc) auto

lemma digits_are_digits: "c \<in> set (digits n) \<Longrightarrow> is_digit c"
  by (induction n rule: digits.induct) (subst (asm) (2) digits.simps, auto split: if_splits)

lemma atoi_digits_digits: "atoi_digits 0 (digits n) = n"
proof (induction n rule: digits.induct)
  case (1 n)
  then show ?case
    by (subst digits.simps) (auto simp: atoi_digits_append digits_are_digits)
qed

lemma digits_head: "\<exists>c cs. digits n = c # cs \<and> is_digit c"
  using digits_are_digits [of _ n] by (cases "digits n") (auto simp: digits.simps [of n] split: if_splits)

lemma digit_not_space: "is_digit c \<Longrightarrow> \<not> is_space c \<and> c \<noteq> CHR ''-'' \<and> c \<noteq> CHR ''+''"
  by (auto simp: is_digit_def is_space_def)

text \<open>
  A number the code prints into a query or reads back from a cell survives: \<open>atoi\<close> is the inverse of
  the decimal printing of every \<open>int\<close>.\<close>

theorem atoi_to_string: "atoi (to_string i) = i"
proof -
  obtain c cs where n: "digits (nat (abs i)) = c # cs" "is_digit c" using digits_head by blast
  have v: "atoi_digits 0 (c # cs) = nat (abs i)" using atoi_digits_digits [of "nat (abs i)"] n(1) by simp
  have "\<not> is_space CHR ''-''" by (simp add: is_space_def)
  then show ?thesis
    using n v digit_not_space [OF n(2)] by (cases "i < 0") (simp_all add: atoi_def to_string_def)
qed

end
