(* ===== verification/Sock_Util.thy ===== *)
theory Sock_Util
  imports Hook_Fd Db_Conn
begin

text \<open>
  \<open>SockUtil\<close> of \<open>src/socket/co_socktool.cpp\<close>, on top of the hooked calls of \<open>Hook_Fd\<close>, and the
  accepting loop of \<open>src/main.cpp\<close>. The lemmas show what \<open>co_write\<close> sends when the kernel takes a
  buffer in several pieces, and that the descriptors of the clients, which the server itself makes
  non-blocking, are not hooked.
\<close>

section \<open>Addresses\<close>

text \<open>An IPv4 address as its four bytes in network order. The text of one has at most 15 characters, so
  it fits into the buffer of 20.\<close>

definition inet_ntoa :: "byte list \<Rightarrow> string" where
  "inet_ntoa p =
     take 19 (to_string (uint (p ! 0)) @ ''.'' @ to_string (uint (p ! 1)) @ ''.'' @
       to_string (uint (p ! 2)) @ ''.'' @ to_string (uint (p ! 3)))"

abbreviation (input) "AF_INET \<equiv> (2 :: int)"

record sockaddr =
  sa_family :: int
  sin_port :: "byte list"
  sin_addr :: "byte list"

definition ntohs :: "byte list \<Rightarrow> nat" where
  "ntohs p = 256 * unat (p ! 0) + unat (p ! 1)"

text \<open>\<open>get_local_ip\<close> and \<open>get_peer_ip\<close>, \<open>get_local_port\<close> and \<open>get_peer_port\<close>, on the result of
  \<open>getsockname\<close> or \<open>getpeername\<close>: the return value and the address.\<close>

definition get_ip :: "int \<times> sockaddr \<Rightarrow> string" where
  "get_ip res = (if fst res = 0 \<and> sa_family (snd res) = AF_INET then inet_ntoa (sin_addr (snd res)) else [])"

definition get_port :: "int \<times> sockaddr \<Rightarrow> nat" where
  "get_port res = (if fst res = 0 \<and> sa_family (snd res) = AF_INET then ntohs (sin_port (snd res)) else 0)"

section \<open>Options\<close>

abbreviation (input) "SO_REUSEADDR \<equiv> (2 :: int)"
abbreviation (input) "SO_SNDBUF \<equiv> (7 :: int)"
abbreviation (input) "SO_RCVBUF \<equiv> (8 :: int)"
abbreviation (input) "SO_KEEPALIVE \<equiv> (9 :: int)"
abbreviation (input) "SO_LINGER \<equiv> (13 :: int)"
abbreviation (input) "SO_REUSEPORT \<equiv> (15 :: int)"
abbreviation (input) "IPPROTO_TCP \<equiv> (6 :: int)"
abbreviation (input) "TCP_NODELAY \<equiv> (1 :: int)"

text \<open>\<open>co_enable_hook_sys\<close> in a coroutine. In a thread that has none it does nothing; where that matters the
  call is the argument \<open>en\<close>.\<close>

definition enable_hook :: "'k proc \<Rightarrow> 'k proc" where
  "enable_hook s = s\<lparr>cEnableSysHook := True\<rparr>"

text \<open>An option whose value is an \<open>int\<close>.\<close>

definition set_int_opt :: "'k sys \<Rightarrow> int \<Rightarrow> int \<Rightarrow> int \<Rightarrow> int \<Rightarrow> 'k proc \<Rightarrow> (int \<times> 'k proc) option" where
  "set_int_opt api fildes lev name v = setsockopt api fildes lev name (enc32 v) 4"

definition setNoDelay :: "'k sys \<Rightarrow> int \<Rightarrow> bool \<Rightarrow> 'k proc \<Rightarrow> (int \<times> 'k proc) option" where
  "setNoDelay api fildes on s =
     set_int_opt api fildes IPPROTO_TCP TCP_NODELAY (if on then 1 else 0) (enable_hook s)"

definition setNoBlocked :: "'k sys \<Rightarrow> int \<Rightarrow> bool \<Rightarrow> 'k proc \<Rightarrow> int \<times> 'k proc" where
  "setNoBlocked api fildes noblock s =
     (case fcntl api fildes F_GETFL s of (iFlags, s1) \<Rightarrow>
        if noblock then fcntl api fildes (F_SETFL (iFlags OR O_NONBLOCK)) s1
        else fcntl api fildes (F_SETFL (iFlags AND NOT O_NONBLOCK)) s1)"

definition setRecvBuf :: "'k sys \<Rightarrow> int \<Rightarrow> int \<Rightarrow> 'k proc \<Rightarrow> (int \<times> 'k proc) option" where
  "setRecvBuf api fildes sz s = set_int_opt api fildes SOL_SOCKET SO_RCVBUF sz (enable_hook s)"

definition setSendBuf :: "'k sys \<Rightarrow> int \<Rightarrow> int \<Rightarrow> 'k proc \<Rightarrow> (int \<times> 'k proc) option" where
  "setSendBuf api fildes sz s = set_int_opt api fildes SOL_SOCKET SO_SNDBUF sz s"

definition setReuseable ::
  "('k proc \<Rightarrow> 'k proc) \<Rightarrow> 'k sys \<Rightarrow> int \<Rightarrow> bool \<Rightarrow> bool \<Rightarrow> 'k proc \<Rightarrow> (int \<times> 'k proc) option" where
  "setReuseable en api fildes on reuse_port s =
     (let opt = (if on then 1 else 0)
      in Option.bind (set_int_opt api fildes SOL_SOCKET SO_REUSEADDR opt (en s)) (\<lambda>(ret, s1).
           if ret = - 1 then Some (ret, s1)
           else if reuse_port then set_int_opt api fildes SOL_SOCKET SO_REUSEPORT opt s1
           else Some (ret, s1)))"

definition setKeepAlive :: "'k sys \<Rightarrow> int \<Rightarrow> bool \<Rightarrow> 'k proc \<Rightarrow> (int \<times> 'k proc) option" where
  "setKeepAlive api fildes on s =
     set_int_opt api fildes SOL_SOCKET SO_KEEPALIVE (if on then 1 else 0) (enable_hook s)"

definition setCloseWait :: "'k sys \<Rightarrow> int \<Rightarrow> int \<Rightarrow> 'k proc \<Rightarrow> (int \<times> 'k proc) option" where
  "setCloseWait api fildes second s =
     setsockopt api fildes SOL_SOCKET SO_LINGER (enc32 (if 0 < second then 1 else 0) @ enc32 second) 8 s"

section \<open>Listening and connecting\<close>

text \<open>\<open>bind\<close> on an address and a port, \<open>listen\<close>, and \<open>inet_addr\<close> are those of the C library.\<close>

record 'k netsys =
  sys_bind :: "int \<Rightarrow> string \<Rightarrow> nat \<Rightarrow> (int, 'k) call"
  sys_listen :: "int \<Rightarrow> int \<Rightarrow> (int, 'k) call"
  inet_addr :: "string \<Rightarrow> byte list"

definition bindSock :: "'k netsys \<Rightarrow> int \<Rightarrow> string \<Rightarrow> nat \<Rightarrow> 'k proc \<Rightarrow> int \<times> 'k proc" where
  "bindSock net fildes local_op port s =
     (case kcall (sys_bind net fildes local_op port) s of
        (ret, s1) \<Rightarrow> (if ret = - 1 then - 1 else 0, s1))"

definition co_listen ::
  "('k proc \<Rightarrow> 'k proc) \<Rightarrow> 'k sys \<Rightarrow> 'k netsys \<Rightarrow> nat \<Rightarrow> string \<Rightarrow> int \<Rightarrow> 'k proc \<Rightarrow> (int \<times> 'k proc) option" where
  "co_listen en api net port local_ip back_log s0 = do {
     (fildes, s1) \<leftarrow> socket api AF_INET 1 IPPROTO_TCP (en s0);
     (if fildes = - 1 then Some (- 1, s1)
      else do {
        (_, s2) \<leftarrow> setReuseable en api fildes True False s1;
        let s3 = snd (setNoBlocked api fildes True s2);
        let (b, s4) = bindSock net fildes local_ip port s3;
        (if b = - 1 then Some (- 1, snd (close api fildes s4))
         else
           let (l, s5) = kcall (sys_listen net fildes back_log) s4
           in if l = - 1 then Some (- 1, snd (close api fildes s5)) else Some (fildes, s5))
      })
   }"

definition connect_address :: "'k netsys \<Rightarrow> string option \<Rightarrow> nat \<Rightarrow> byte list" where
  "connect_address net host port =
     [2, 0, of_nat (port div 256), of_nat port] @
     (case host of
        None \<Rightarrow> [0, 0, 0, 0]
      | Some h \<Rightarrow> if h \<in> {[], ''0'', ''0.0.0.0'', ''*''} then [0, 0, 0, 0] else inet_addr net h) @ replicate 8 0"

text \<open>The result of \<open>socket\<close> is not looked at, and the descriptor is not returned.\<close>

definition co_connect ::
  "'k sys \<Rightarrow> 'k netsys \<Rightarrow> 'k poll_inner \<Rightarrow> string option \<Rightarrow> nat \<Rightarrow> 'k proc \<Rightarrow> (int \<times> 'k proc) option" where
  "co_connect api net inner host port s0 = do {
     (fildes, s1) \<leftarrow> socket api 2 1 0 (enable_hook s0);
     connect api inner fildes (connect_address net host port) s1
   }"

section \<open>Reading and writing\<close>

definition co_read ::
  "'k sys \<Rightarrow> 'k poll_inner \<Rightarrow> int \<Rightarrow> nat \<Rightarrow> 'k proc \<Rightarrow> ((int \<times> byte list) \<times> 'k proc) option" where
  "co_read api inner fildes nbyte s = read api inner fildes nbyte (enable_hook s)"

text \<open>The loop of \<open>co_write\<close> on the write call \<open>wr\<close>: the offset of each further write is the length of
  the previous one.\<close>

function co_write_loop ::
  "(byte list \<Rightarrow> 's \<Rightarrow> (int \<times> 's) option) \<Rightarrow> byte list \<Rightarrow> int \<Rightarrow> int \<Rightarrow> 's \<Rightarrow> (int \<times> 's) option" where
  "co_write_loop wr buf writeLen totalLen s =
     (if totalLen < int (length buf)
      then (case wr (drop (nat writeLen) buf) s of
              None \<Rightarrow> None
            | Some (w, s1) \<Rightarrow>
                if w \<le> 0 then Some (totalLen, s1) else co_write_loop wr buf w (totalLen + w) s1)
      else Some (totalLen, s))"
  by pat_completeness auto
termination
  by (relation "measure (\<lambda>(wr, buf, writeLen, totalLen, s). nat (int (length buf) - totalLen))") auto

declare co_write_loop.simps [simp del]

definition co_write_by ::
  "(byte list \<Rightarrow> 's \<Rightarrow> (int \<times> 's) option) \<Rightarrow> byte list \<Rightarrow> 's \<Rightarrow> (int \<times> 's) option" where
  "co_write_by wr buf s = do {
     (writeLen, s1) \<leftarrow> wr buf s;
     (if writeLen < 0 then Some (writeLen, s1) else co_write_loop wr buf writeLen writeLen s1)
   }"

definition co_write ::
  "'k sys \<Rightarrow> 'k poll_inner \<Rightarrow> int \<Rightarrow> byte list \<Rightarrow> 'k proc \<Rightarrow> (int \<times> 'k proc) option" where
  "co_write api inner fildes buf s = co_write_by (hook_write api inner fildes) buf (enable_hook s)"

section \<open>Accepting\<close>

text \<open>One round of \<open>accept_routine\<close>: a failing accept polls the listening descriptor for a second
  (\<open>wait\<close>), an accepted client is made non-blocking and gets its coroutine.\<close>

definition accept_round ::
  "'k sys \<Rightarrow> ('k proc \<Rightarrow> 'k proc option) \<Rightarrow> (int \<Rightarrow> 'k proc \<Rightarrow> 'k proc option) \<Rightarrow> int \<Rightarrow> 'k proc \<Rightarrow> 'k proc option" where
  "accept_round api wait start_client listen_fd s =
     (case co_accept api listen_fd s of (cli, s1) \<Rightarrow>
        if cli < 0 then wait s1
        else do {
          let s2 = snd (setNoBlocked api cli True s1);
          (_, s3) \<leftarrow> setNoDelay api cli True s2;
          start_client cli s3
        })"

section \<open>Lemmas\<close>

lemma length_digits_le: "n < 1000 \<Longrightarrow> length (digits n) \<le> 3"
  by (auto simp: digits.simps)

lemma inet_ntoa_fits:
  assumes "length p = 4"
  shows "inet_ntoa p = to_string (uint (p ! 0)) @ ''.'' @ to_string (uint (p ! 1)) @ ''.'' @
       to_string (uint (p ! 2)) @ ''.'' @ to_string (uint (p ! 3))"
proof -
  have "length (to_string (uint b)) \<le> 3" for b :: byte
  proof -
    have "unat b < 256" using unsigned_less [of b, where ?'a = nat] by simp
    then show ?thesis using length_digits_le [of "unat b"] by (simp add: to_string_def)
  qed
  from this [of "p ! 0"] this [of "p ! 1"] this [of "p ! 2"] this [of "p ! 3"] show ?thesis
    by (simp add: inet_ntoa_def)
qed

section \<open>Writing a buffer in pieces\<close>

text \<open>
  What \<open>co_write\<close> relies on: a write call that returns says how many bytes of its buffer it has added to
  the stream \<open>sent\<close>. The context holds what \<open>co_write\<close> makes of such a call, by the number of pieces the
  buffer is taken in.
\<close>

locale stream_writer =
  fixes wr :: "byte list \<Rightarrow> 's \<Rightarrow> (int \<times> 's) option" and sent :: "'s \<Rightarrow> byte list" and ok :: "'s \<Rightarrow> bool"
  assumes wr_sent: "ok s \<Longrightarrow> wr d s = Some (r, s') \<Longrightarrow>
    ok s' \<and> r \<le> int (length d) \<and> sent s' = sent s @ take (nat r) d"
begin

lemma loop_step:
  assumes "ok s" "wr (drop (nat writeLen) buf) s = Some (int w, s1)" "0 < w" "totalLen < int (length buf)"
  shows "co_write_loop wr buf writeLen totalLen s = co_write_loop wr buf (int w) (totalLen + int w) s1"
    and "ok s1" and "sent s1 = sent s @ take w (drop (nat writeLen) buf)"
  using assms wr_sent [OF assms(1,2)] by (simp_all add: co_write_loop.simps [of wr buf writeLen totalLen s])

lemma loop_done: "int (length buf) \<le> totalLen \<Longrightarrow> co_write_loop wr buf writeLen totalLen s = Some (totalLen, s)"
  by (simp add: co_write_loop.simps)

lemma first_piece:
  assumes "ok s" "wr buf s = Some (int a, s1)"
  shows "co_write_by wr buf s = co_write_loop wr buf (int a) (int a) s1" and "ok s1"
    and "sent s1 = sent s @ take a buf"
  using assms wr_sent [OF assms] by (simp_all add: co_write_by_def)

lemma in_one_piece:
  assumes "ok s" "wr buf s = Some (int (length buf), s1)"
  shows "co_write_by wr buf s = Some (int (length buf), s1) \<and> sent s1 = sent s @ buf"
  using first_piece [OF assms] loop_done [of buf "int (length buf)"] by simp

lemma second_piece:
  assumes "ok s" "wr buf s = Some (int a, s1)" "a < length buf" "wr (drop a buf) s1 = Some (int b, s2)" "0 < b"
  shows "co_write_by wr buf s = co_write_loop wr buf (int b) (int a + int b) s2" and "ok s2"
    and "sent s2 = sent s @ take (a + b) buf"
  using first_piece [OF assms(1,2)] loop_step [of s1 "int a" buf b s2 "int a"] assms(3-5)
  by (simp_all add: take_add)

lemma in_two_pieces:
  assumes "ok s" "wr buf s = Some (int a, s1)" "a < length buf" "wr (drop a buf) s1 = Some (int b, s2)" "0 < b"
    and "a + b = length buf"
  shows "co_write_by wr buf s = Some (int (a + b), s2) \<and> sent s2 = sent s @ buf"
proof -
  have "co_write_loop wr buf (int b) (int a + int b) s2 = Some (int a + int b, s2)"
    using assms(6) by (intro loop_done) simp
  then show ?thesis using second_piece [OF assms(1-5)] assms(6) by simp
qed

lemma in_three_pieces:
  assumes "ok s" "wr buf s = Some (int a, s1)" "a < length buf" "wr (drop a buf) s1 = Some (int b, s2)" "0 < b"
    and "a + b < length buf" "wr (drop b buf) s2 = Some (int c, s3)" "length buf \<le> a + b + c"
  shows "co_write_by wr buf s = Some (int (a + b + c), s3) \<and>
    sent s3 = sent s @ take (a + b) buf @ take c (drop b buf)"
  using second_piece [OF assms(1-5)] loop_step [of s2 "int b" buf c s3 "int a + int b"] assms(6-8)
    loop_done [of buf "int a + int b + int c"] by simp

end

text \<open>The hooked \<open>write\<close> is such a call, over a kernel that keeps its own promise and polls that send nothing.\<close>

interpretation hooked: stream_writer "hook_write api inner fildes" "\<lambda>s. sent (kern s)"
  "\<lambda>s. kernel_appends sent api fildes \<and> quiet_poll sent api inner"
proof
  fix s s' :: "'a proc" and d r
  assume h: "kernel_appends sent api fildes \<and> quiet_poll sent api inner" "hook_write api inner fildes d s = Some (r, s')"
  then show "(kernel_appends sent api fildes \<and> quiet_poll sent api inner) \<and> r \<le> int (length d) \<and>
      sent (kern s') = sent (kern s) @ take (nat r) d"
    using hook_write_prefix [of sent api fildes inner d s] by auto
qed

lemma enable_hook_kern [simp]: "kern (enable_hook s) = kern s"
  by (simp add: enable_hook_def)

text \<open>C33: what \<open>co_write\<close> sends. When the kernel takes the buffer in one or two pieces the whole buffer is
  sent, in order. When three pieces of \<open>a\<close>, \<open>b\<close> and \<open>c\<close> bytes are needed, the third one starts at
  offset \<open>b\<close> of the buffer and not at \<open>a + b\<close>: the bytes sent are not those of the buffer, and the
  call reports at least the length of the buffer as written.\<close>

theorem co_write_offsets:
  assumes "kernel_appends sent api fildes" "quiet_poll sent api inner"
    and "hook_write api inner fildes buf (enable_hook s) = Some (int a, s1)"
  shows "(a = length buf \<longrightarrow> co_write api inner fildes buf s = Some (int a, s1) \<and> sent (kern s1) = sent (kern s) @ buf) \<and>
    (\<forall>b s2. a < length buf \<and> hook_write api inner fildes (drop a buf) s1 = Some (int b, s2) \<and> 0 < b \<longrightarrow>
      (a + b = length buf \<longrightarrow>
         co_write api inner fildes buf s = Some (int (a + b), s2) \<and> sent (kern s2) = sent (kern s) @ buf) \<and>
      (\<forall>c s3. a + b < length buf \<and> hook_write api inner fildes (drop b buf) s2 = Some (int c, s3) \<and>
           length buf \<le> a + b + c \<longrightarrow>
         co_write api inner fildes buf s = Some (int (a + b + c), s3) \<and>
         sent (kern s3) = sent (kern s) @ take (a + b) buf @ take c (drop b buf)))"
proof -
  have ok: "kernel_appends sent api fildes \<and> quiet_poll sent api inner" using assms by simp
  note one = hooked.in_one_piece [OF ok, where s = "enable_hook s" and buf = buf]
    and two = hooked.in_two_pieces [OF ok assms(3)] and three = hooked.in_three_pieces [OF ok assms(3)]
  show ?thesis using one two three assms(3) by (simp add: co_write_def)
qed

text \<open>Five bytes to a client whose kernel takes at most two at a time: the bytes 3 and 4 are sent twice, 5 is
  not sent, and 6 is returned.\<close>

lemma demo_write:
  "hook_write demo_sys demo_inner 6 d (demo_proc\<lparr>kern := (out, 0)\<rparr>) =
     Some (int (min 2 (length d)), demo_proc\<lparr>kern := (out @ take 2 d, 0)\<rparr>)"
  by (simp add: hook_write_def blocking_lp_def get_by_fd_def in_table_def demo_proc_def demo_sys_def kcall_def)

lemma co_write_offsets_witness:
  "\<exists>s'. co_write demo_sys demo_inner 6 [1, 2, 3, 4, 5] demo_proc = Some (6, s') \<and> fst (kern s') = [1, 2, 3, 4, 3, 4]"
proof -
  have e: "enable_hook demo_proc = demo_proc\<lparr>kern := ([], 0)\<rparr>" "fst (kern demo_proc) = []"
    by (simp_all add: enable_hook_def demo_proc_def)
  have "hook_write demo_sys demo_inner 6 [1, 2, 3, 4, 5] (enable_hook demo_proc) =
      Some (int 2, demo_proc\<lparr>kern := ([1, 2], 0)\<rparr>)" by (simp add: e demo_write)
  from co_write_offsets [OF demo_laws(1,2) this] show ?thesis by (simp add: e demo_write)
qed

text \<open>On a descriptor whose writes wait, \<open>co_write\<close> sends its whole buffer: the hooked \<open>write\<close> has
  already done so when it returns.\<close>

lemma co_write_blocking:
  assumes "kernel_appends sent api fildes" "quiet_poll sent api inner"
    and "writable_after_poll writable api inner" "kernel_progress writable api fildes"
    and "blocking_lp fildes (enable_hook s) = Some lp" "buf \<noteq> []"
  shows "\<exists>s'. co_write api inner fildes buf s = Some (int (length buf), s') \<and> sent (kern s') = sent (kern s) @ buf"
proof -
  obtain s' where "hook_write api inner fildes buf (enable_hook s) = Some (int (length buf), s')"
    using hook_write_all [OF assms] by blast
  then show ?thesis using hooked.in_one_piece [where s = "enable_hook s" and buf = buf, OF conjI [OF assms(1,2)]]
    by (simp add: co_write_def)
qed

section \<open>The clients of the server\<close>

lemma fcntl_getfl_same:
  assumes "kernel_flags fl api fildes"
  shows "snd (fcntl api fildes F_GETFL s) = s"
  using kernel_flagsD(1) [OF assms] by (simp add: fcntl_def kcall_def split: option.splits)

lemma setNoBlocked_user_flag:
  assumes "kernel_flags fl api fildes" "cEnableSysHook s" "0 \<le> fildes" "get_by_fd fildes s = Some lp"
  shows "\<exists>s' p. setNoBlocked api fildes True s = (0, s') \<and> get_by_fd fildes s' = Some (lp\<lparr>user_flag := p\<rparr>) \<and>
    p AND O_NONBLOCK = O_NONBLOCK \<and> fl (kern s') AND O_NONBLOCK = O_NONBLOCK"
proof -
  obtain iFlags where g: "fcntl api fildes F_GETFL s = (iFlags, s)"
    using fcntl_getfl_same [OF assms(1)] by (metis prod.collapse)
  obtain s' where "fcntl api fildes (F_SETFL (iFlags OR O_NONBLOCK)) s = (0, s')"
    "fl (kern s') AND O_NONBLOCK = O_NONBLOCK"
    "get_by_fd fildes s' = Some (lp\<lparr>user_flag := iFlags OR O_NONBLOCK\<rparr>)"
    using fcntl_setfl_view [OF assms, of "iFlags OR O_NONBLOCK"] by blast
  then show ?thesis using g or_and_absorb [of iFlags] by (auto simp: setNoBlocked_def)
qed

lemma setNoDelay_table:
  "\<exists>r s'. setNoDelay api fildes on s = Some (r, s') \<and> g_rpchook_socket_fd s' = g_rpchook_socket_fd s"
proof -
  let ?c = "kcall (sys_setsockopt api fildes IPPROTO_TCP TCP_NODELAY (enc32 (if on then 1 else 0)) 4) (enable_hook s)"
  have "setNoDelay api fildes on s = Some (fst ?c, snd ?c)"
    by (simp add: setNoDelay_def set_int_opt_def setsockopt_def enable_hook_def Let_def split: option.split)
  moreover have "g_rpchook_socket_fd (snd ?c) = g_rpchook_socket_fd s"
    by (simp add: kcall_parts enable_hook_def)
  ultimately show ?thesis by blast
qed

text \<open>C32: the clients of the server are not hooked: the accepting loop makes each client non-blocking
  itself, so that the call that would wait for the client and go on passes straight to the kernel. A
  \<open>write\<close> to a client is one attempt of the kernel, which may take a part of the bytes or none.\<close>

theorem client_not_hooked:
  assumes "kernel_flags fl api cli" "cEnableSysHook s" "in_table cli"
    and "sys_accept api listen_fd (errno s) (kern s) = (cli, e, k)"
  shows "\<exists>s'. accept_round api wait start_client listen_fd s = start_client cli s' \<and>
    get_by_fd cli s' \<noteq> None \<and> blocking_lp cli s' = None \<and>
    hook_write api inner cli buf s' = Some (kcall (sys_write api cli buf) s')"
proof -
  let ?s1 = "set_by_fd cli (Some new_rpchook) (s\<lparr>errno := e, kern := k\<rparr>)"
  have a: "co_accept api listen_fd s = (cli, ?s1)"
    using assms(3,4) by (simp add: co_accept_def kcall_def alloc_by_fd_def in_table_def)
  have l: "cEnableSysHook ?s1" "0 \<le> cli" "get_by_fd cli ?s1 = Some new_rpchook"
    using assms(2,3) by (simp_all add: set_by_fd_def get_by_fd_def in_table_def)
  obtain s2 p where s2: "setNoBlocked api cli True ?s1 = (0, s2)"
    "get_by_fd cli s2 = Some (new_rpchook\<lparr>user_flag := p\<rparr>)" "p AND O_NONBLOCK = O_NONBLOCK"
    using setNoBlocked_user_flag [OF assms(1) l] by blast
  obtain r s3 where s3: "setNoDelay api cli True s2 = Some (r, s3)" "g_rpchook_socket_fd s3 = g_rpchook_socket_fd s2"
    using setNoDelay_table by blast
  have "get_by_fd cli s3 = Some (new_rpchook\<lparr>user_flag := p\<rparr>)"
    using s2(2) s3(2) by (simp add: get_by_fd_def split: if_splits)
  moreover from this have "blocking_lp cli s3 = None"
    using s2(3) by (simp add: blocking_lp_def and.commute)
  moreover have "accept_round api wait start_client listen_fd s = start_client cli s3"
    using a s2(1) s3(1) l(2) by (simp add: accept_round_def)
  ultimately show ?thesis by (auto simp: hook_write_def)
qed

lemma client_not_hooked_witness:
  "\<exists>s'. accept_round demo_sys (\<lambda>_. None) (\<lambda>_. Some) 3 demo_proc = Some s' \<and> blocking_lp 5 s' = None"
proof -
  have "kernel_flags snd demo_sys 5" by (simp add: kernel_flags_def demo_sys_def)
  moreover have "cEnableSysHook demo_proc" "in_table 5" by (simp_all add: demo_proc_def in_table_def)
  moreover have "sys_accept demo_sys 3 (errno demo_proc) (kern demo_proc) = (5, errno demo_proc, kern demo_proc)"
    by (simp add: demo_sys_def)
  ultimately show ?thesis
    using client_not_hooked [where wait = "\<lambda>_. None" and start_client = "\<lambda>_. Some" and inner = demo_inner] by blast
qed

section \<open>Looking a host name up\<close>

text \<open>\<open>getaddrinfo\<close> gives its result and the first address of the answer, if there is one. The loop asks
  again as long as the result is -1; \<open>None\<close> is a loop that does not end.\<close>

partial_function (option) getSystemDomainIP ::
  "('k \<Rightarrow> (int \<times> sockaddr option) \<times> 'k) \<Rightarrow> 'k \<Rightarrow> (sockaddr option \<times> 'k) option" where
  "getSystemDomainIP getaddrinfo k =
     (case getaddrinfo k of ((ret, answer), k1) \<Rightarrow>
        if ret = - 1 then getSystemDomainIP getaddrinfo k1 else Some (answer, k1))"

definition htons :: "nat \<Rightarrow> byte list" where
  "htons port = [of_nat (port div 256), of_nat port]"

definition getDomainIP ::
  "('k \<Rightarrow> (int \<times> sockaddr option) \<times> 'k) \<Rightarrow> nat \<Rightarrow> 'k \<Rightarrow> (sockaddr option \<times> 'k) option" where
  "getDomainIP getaddrinfo port k =
     map_option (\<lambda>(answer, k1). (map_option (\<lambda>item. item\<lparr>sin_port := htons port\<rparr>) answer, k1))
       (getSystemDomainIP getaddrinfo k)"

lemma ntohs_htons: "port < 65536 \<Longrightarrow> ntohs (htons port) = port"
  by (simp add: ntohs_def htons_def unat_of_nat)

text \<open>The states of the resolver after some calls.\<close>

lemma getSystemDomainIP_after:
  assumes "\<forall>i < n. fst (fst (getaddrinfo (((\<lambda>k. snd (getaddrinfo k)) ^^ i) k))) = - 1"
  shows "getSystemDomainIP getaddrinfo k = getSystemDomainIP getaddrinfo (((\<lambda>k. snd (getaddrinfo k)) ^^ n) k)"
  using assms
proof (induction n)
  case (Suc n)
  let ?k = "((\<lambda>k. snd (getaddrinfo k)) ^^ n) k"
  have "fst (fst (getaddrinfo ?k)) = - 1" using Suc.prems by blast
  then have "getSystemDomainIP getaddrinfo ?k = getSystemDomainIP getaddrinfo (snd (getaddrinfo ?k))"
    by (subst getSystemDomainIP.simps) (simp add: case_prod_beta)
  with Suc show ?case by (simp add: less_Suc_eq)
qed simp

lemma getSystemDomainIP_hangs:
  assumes "getSystemDomainIP getaddrinfo k = Some r"
  shows "\<exists>k'. fst (fst (getaddrinfo k')) \<noteq> - 1"
  using assms
proof (induction rule: getSystemDomainIP.raw_induct [rotated, consumes 1, case_names 1])
  case (1 rec getaddrinfo k r)
  show ?case
  proof (cases "fst (fst (getaddrinfo k)) = - 1")
    case True
    then show ?thesis using "1.IH" "1.hyps" by (auto simp: case_prod_beta)
  qed blast
qed

text \<open>The lookup of a host returns the first answer that is not a failure of code -1, with the port asked
  for in network order, however often that code comes before; a resolver that always answers -1 keeps
  the caller in the loop for ever.\<close>

lemma getDomainIP_result:
  assumes "\<forall>i < n. fst (fst (getaddrinfo (((\<lambda>k. snd (getaddrinfo k)) ^^ i) k))) = - 1"
    and "getaddrinfo (((\<lambda>k. snd (getaddrinfo k)) ^^ n) k) = ((ret, Some item), k')" "ret \<noteq> - 1"
    and "port < 65536" "sa_family item = AF_INET"
  shows "\<exists>addr. getDomainIP getaddrinfo port k = Some (Some addr, k') \<and> sin_addr addr = sin_addr item \<and>
    get_port (0, addr) = port"
proof -
  have "getSystemDomainIP getaddrinfo k = Some (Some item, k')"
    using assms(2,3) unfolding getSystemDomainIP_after [OF assms(1)] by (subst getSystemDomainIP.simps) simp
  then show ?thesis using assms(4,5) by (simp add: getDomainIP_def get_port_def ntohs_htons)
qed

lemma getDomainIP_hangs:
  assumes "\<forall>k. fst (fst (getaddrinfo k)) = - 1"
  shows "getDomainIP getaddrinfo port k = None"
  using getSystemDomainIP_hangs [of getaddrinfo k] assms
  by (cases "getSystemDomainIP getaddrinfo k") (auto simp: getDomainIP_def)

end
