(* ===== verification/Hook_Loop.thy ===== *)
theory Hook_Loop
  imports Sock_Util Poll_Loop
begin

text \<open>
  The hooked calls of \<open>Hook_Fd\<close> and the accepting loop on top of \<open>co_poll\<close> and the event loop
  (\<open>src/coroutine/co_hook_sys_call.cpp\<close>, \<open>src/coroutine/co_routine.cpp\<close>, \<open>src/main.cpp\<close>): a call that
  would block suspends its coroutine while the loop serves the others, and the kernel is asked again
  when the loop has seen the descriptor or the timeout.
\<close>

section \<open>The poll of the hooks\<close>

text \<open>
  \<open>co_poll_inner\<close> as the hooks call it: \<open>st\<close> is the state of the loop at the call, \<open>now\<close> the time;
  \<open>meanwhile\<close> is what the other coroutines do to the table of descriptors until it returns.
\<close>

definition loop_poll ::
  "('n, 'k) epoll_ctl \<Rightarrow>
   (('n, 'co, 'z) stCoEpoll_scheme \<Rightarrow> 'k \<Rightarrow> (('n, 'co, 'z) stCoEpoll_scheme \<times> 'k) option) \<Rightarrow>
   'n \<Rightarrow> 'n list \<Rightarrow> 'co \<Rightarrow> u64 \<Rightarrow> ('n, 'co, 'z) stCoEpoll_scheme \<Rightarrow> ('k proc \<Rightarrow> 'k proc) \<Rightarrow> 'k poll_inner" where
  "loop_poll ctl co_yield arg items self now st meanwhile fds timeout s =
     map_option (\<lambda>(ret, fds', st', k). (ret, fds', (meanwhile s)\<lparr>kern := k\<rparr>))
       (co_poll ctl co_yield arg items self now fds timeout st (kern s))"

text \<open>With the loop of \<open>Poll_Loop\<close> behind it, for one descriptor.\<close>

definition loop_inner ::
  "('n, 'k) epoll_ctl \<Rightarrow>
   ('co \<Rightarrow> ('n, 'co, 'z) stCoEpoll_scheme \<Rightarrow> ('n, 'co, 'z) stCoEpoll_scheme option) \<Rightarrow> 'n \<Rightarrow> 'n \<Rightarrow> 'co \<Rightarrow> u64 \<Rightarrow>
   ('n, 'co, 'z) stCoEpoll_scheme \<Rightarrow> ('k \<Rightarrow> 'k) \<Rightarrow> ('k proc \<Rightarrow> 'k proc) \<Rightarrow> (('n \<times> u32) list \<times> u64) list \<Rightarrow>
   'k poll_inner" where
  "loop_inner ctl resume arg item self now st during meanwhile ws =
     loop_poll ctl (yield_to_loop self resume (ullStart (started now st)) ws during) arg [item] self now st meanwhile"

lemma loop_inner_one:
  assumes "poll_scene ctl watched pot resume self arg [item] P L now timeout ws es later st"
    and "hits {item} es \<noteq> [] \<or> poll_expiry now timeout \<le> uint later"
  shows "loop_inner ctl resume arg item self now st during meanwhile ws [pf] timeout s = None \<and>
    (\<exists>k. loop_inner ctl resume arg item self now st during meanwhile (ws @ (es, later) # rest) [pf] timeout s =
      Some (int (length (hits {item} es)), [pf\<lparr>fd_revents := reported es item\<rparr>], (meanwhile s)\<lparr>kern := k\<rparr>))"
  using poll_answer [OF assms(1), where fds = "[pf]" and during = during and k = "kern s" and rest = rest] assms(2)
  by (auto simp: loop_poll_def loop_inner_def)

lemma wait_fd_inner:
  "cEnableSysHook s \<Longrightarrow> timeout \<noteq> 0 \<Longrightarrow>
   wait_fd api inner fildes evs timeout s =
     map_option (\<lambda>(ret, fds, s'). s') (inner [\<lparr>fd = fildes, events = evs, fd_revents = 0\<rparr>] timeout s)"
  by (simp add: wait_fd_def poll_def merge_fds_def)

lemma blocking_hooked: "blocking_lp fildes s = Some lp \<Longrightarrow> cEnableSysHook s"
  by (simp add: blocking_lp_def split: if_splits)

lemma wait_fd_on_loop:
  assumes "poll_scene ctl watched pot resume self arg [item] P L now timeout ws es later st"
    and "hits {item} es \<noteq> [] \<or> poll_expiry now timeout \<le> uint later" and "cEnableSysHook s"
  shows "wait_fd api (loop_inner ctl resume arg item self now st during meanwhile ws) fildes evs timeout s = None \<and>
    (\<exists>k. wait_fd api (loop_inner ctl resume arg item self now st during meanwhile (ws @ (es, later) # rest))
      fildes evs timeout s = Some ((meanwhile s)\<lparr>kern := k\<rparr>))"
  using loop_inner_one [OF assms(1,2), of during meanwhile "\<lparr>fd = fildes, events = evs, fd_revents = 0\<rparr>" s rest] poll_sceneD(6) [OF assms(1)] assms(3)
  by (auto simp: wait_fd_inner)

section \<open>Properties\<close>

text \<open>C10
  A hooked \<open>read\<close>, \<open>recv\<close> or \<open>recvfrom\<close> on a descriptor whose calls wait suspends its coroutine in the
  event loop, and does not call the kernel, until an iteration reports the descriptor or comes after the
  read timeout of the descriptor; then it calls the kernel exactly once and returns what the kernel
  returns.\<close>

theorem hooked_read_waits:
  fixes st :: "('n, 'co, 'z) stCoEpoll_scheme"
  assumes "blocking_lp fildes s = Some lp"
    and "poll_scene ctl watched pot resume self arg [item] P L now (timeout_ms (read_timeout lp)) ws es later st"
    and "hits {item} es \<noteq> [] \<or> poll_expiry now (timeout_ms (read_timeout lp)) \<le> uint later"
  shows "(let inner = loop_inner ctl resume arg item self now st during meanwhile ws in
      read api inner fildes n s = None \<and> recv api inner fildes n flags s = None \<and>
      recvfrom api inner fildes n flags s = None) \<and>
    (\<exists>k. let inner = loop_inner ctl resume arg item self now st during meanwhile (ws @ (es, later) # rest);
           s' = (meanwhile s)\<lparr>kern := k\<rparr> in
      read api inner fildes n s = Some (kcall (sys_read api fildes n) s') \<and>
      recv api inner fildes n flags s = Some (kcall (sys_recv api fildes n flags) s') \<and>
      recvfrom api inner fildes n flags s = Some (kcall (sys_recvfrom api fildes n flags) s'))"
  using wait_fd_on_loop [OF assms(2,3) blocking_hooked [OF assms(1)], of api during meanwhile fildes POLL_READ rest] assms(1)
  by (auto simp: read_def recv_def recvfrom_def Let_def)

text \<open>The accepting coroutine whose \<open>accept\<close> fails waits in the loop for the listening descriptor, at
  most a second, and then goes into its next round.\<close>

definition accept_wait :: "'k poll_inner \<Rightarrow> int \<Rightarrow> 'k proc \<Rightarrow> 'k proc option" where
  "accept_wait inner listen_fd s =
     map_option (\<lambda>(ret, fds, s'). s')
       (inner [\<lparr>fd = listen_fd, events = POLL_READ, fd_revents = 0\<rparr>] 1000 s)"

lemma accept_waits:
  fixes st :: "('n, 'co, 'z) stCoEpoll_scheme"
  assumes "fst (sys_accept api listen_fd (errno s) (kern s)) < 0"
    and "poll_scene ctl watched pot resume self arg [item] P L now 1000 ws es later st"
    and "hits {item} es \<noteq> [] \<or> uint now + 1000 \<le> uint later"
  shows "accept_round api (accept_wait (loop_inner ctl resume arg item self now st during meanwhile ws) listen_fd)
      start_client listen_fd s = None \<and>
    (\<exists>k. accept_round api (accept_wait
        (loop_inner ctl resume arg item self now st during meanwhile (ws @ (es, later) # rest)) listen_fd)
        start_client listen_fd s =
       Some ((meanwhile (snd (kcall (sys_accept api listen_fd) s)))\<lparr>kern := k\<rparr>))"
proof -
  obtain r s1 where a: "kcall (sys_accept api listen_fd) s = (r, s1)" by fastforce
  then have "r < 0" using assms(1) kcall_parts(1) [of "sys_accept api listen_fd" s] by simp
  then have acc: "accept_round api w start_client listen_fd s = w s1" for w
    using a by (simp add: accept_round_def co_accept_def)
  have "hits {item} es \<noteq> [] \<or> poll_expiry now 1000 \<le> uint later" using assms(3) by (simp add: poll_expiry_def)
  from loop_inner_one [OF assms(2) this, of during meanwhile "\<lparr>fd = listen_fd, events = POLL_READ, fd_revents = 0\<rparr>" s1 rest] show ?thesis
    unfolding acc by (auto simp: accept_wait_def a)
qed

section \<open>A concrete run\<close>

text \<open>A kernel with the set of the watched descriptors of \<open>demo_ctl\<close>, where a read finds three bytes.\<close>

definition demo_reader :: "int set sys" where
  "demo_reader =
     \<lparr>sys_socket = \<lambda>_ _ _ e k. (3, e, k), sys_accept = \<lambda>_ e k. (- 1, 11, k),
      sys_connect = \<lambda>_ _ e k. (0, e, k), sys_so_error = \<lambda>_ e k. ((0, 0), e, k),
      sys_close = \<lambda>_ e k. (0, e, k), sys_read = \<lambda>_ _ e k. ((3, [7, 8, 9]), e, k),
      sys_write = \<lambda>_ d e k. (int (length d), e, k),
      sys_sendto = \<lambda>_ _ _ _ e k. (0, e, k), sys_recvfrom = \<lambda>_ _ _ e k. ((3, [7, 8, 9], []), e, k),
      sys_send = \<lambda>_ _ _ e k. (0, e, k), sys_recv = \<lambda>_ _ _ e k. ((3, [7, 8, 9]), e, k),
      sys_poll = \<lambda>fds _ e k. ((1, fds), e, k), sys_setsockopt = \<lambda>_ _ _ _ _ e k. (0, e, k),
      sys_fcntl = \<lambda>_ _ e k. (0, e, k)\<rparr>"

definition demo_blocking :: "int set proc" where
  "demo_blocking =
     \<lparr>errno = 0, kern = {4}, g_rpchook_socket_fd = [9 \<mapsto> new_rpchook], cEnableSysHook = True\<rparr>"

abbreviation demo_loop_inner :: "((nat \<times> u32) list \<times> u64) list \<Rightarrow> int set poll_inner" where
  "demo_loop_inner \<equiv> loop_inner demo_ctl (\<lambda>_. Some) 7 8 7 1002 demo_loop id id"

theorem hooked_read_waits_witness:
  "read demo_reader (demo_loop_inner [([(1, 1)], 1010)]) 9 10 demo_blocking = None \<and>
   (\<exists>s'. read demo_reader (demo_loop_inner [([(1, 1)], 1010), ([(8, 1)], 1015)]) 9 10 demo_blocking =
     Some ((3, [7, 8, 9]), s'))"
proof -
  have lp: "blocking_lp 9 demo_blocking = Some new_rpchook"
    by (simp add: blocking_lp_def get_by_fd_def in_table_def demo_blocking_def new_rpchook_def)
  have to: "timeout_ms (read_timeout new_rpchook) = 1000"
    by (simp add: timeout_ms_def new_rpchook_def to_int32_def)
  have S: "poll_scene demo_ctl id (\<lambda>_. 0) (\<lambda>_. Some) 7 7 [8] {1, 8} demo_lists 1002
      (timeout_ms (read_timeout new_rpchook)) [([(1, 1)], 1010)] [(8, 1)] 1015 demo_loop"
    unfolding to by (rule demo_scene) simp_all
  have "hits {8 :: nat} [(8, 1)] \<noteq> []" by (simp add: hits_def)
  with hooked_read_waits [OF lp S, where api = demo_reader and during = id and meanwhile = id and n = 10 and flags = 0 and rest = "[]"] show ?thesis
    by (auto simp: Let_def kcall_def demo_reader_def)
qed

end
