(* ===== verification/Hook_Env.thy ===== *)
theory Hook_Env
  imports Prelude "HOL-Library.List_Lexorder" "HOL-Library.Char_ord"
begin

text \<open>
  The environment of a coroutine, in \<open>src/coroutine/co_hook_sys_call.cpp\<close>: \<open>co_set_env_list\<close> registers
  the names that each coroutine has for itself, and the hooked \<open>setenv\<close>, \<open>unsetenv\<close> and \<open>getenv\<close> keep
  their values in an array of the coroutine, found by binary search; other names go to the
  environment of the process. The lemmas show that the array of names is sorted without repetition,
  that a coroutine reads back what it has set, and that the others do not notice.
\<close>

section \<open>State\<close>

type_synonym env_entry = "string \<times> string option"

text \<open>\<open>environ\<close> is the environment of the process. \<open>g_co_sysenv\<close> is \<open>None\<close> while its data pointer is null,
  and \<open>pvEnv\<close> is \<open>None\<close> for a coroutine without an array.\<close>

record 'c env_state =
  g_co_sysenv :: "env_entry list option"
  pvEnv :: "'c \<Rightarrow> env_entry list option"
  environ :: "string \<Rightarrow> string option"

section \<open>Functions of the C library\<close>

text \<open>\<open>bsearch\<close> with \<open>co_sysenv_comp\<close>, which compares names with \<open>strcmp\<close>: the index it finds. The order
  on strings is that of their characters as unsigned bytes.\<close>

function bsearch :: "string \<Rightarrow> env_entry list \<Rightarrow> nat \<Rightarrow> nat \<Rightarrow> nat option" where
  "bsearch key arr l u =
     (if l < u then
        let idx = (l + u) div 2
        in if key < fst (arr ! idx) then bsearch key arr l idx
           else if fst (arr ! idx) < key then bsearch key arr (idx + 1) u
           else Some idx
      else None)"
  by pat_completeness auto
termination by (relation "measure (\<lambda>(key, arr, l, u). u - l)") auto

declare bsearch.simps [simp del]

definition find_entry :: "string \<Rightarrow> env_entry list \<Rightarrow> nat option" where
  "find_entry n arr = bsearch n arr 0 (length arr)"

definition bad_name :: "string \<Rightarrow> bool" where
  "bad_name n \<longleftrightarrow> n = [] \<or> CHR ''='' \<in> set n"

definition sys_setenv :: "string \<Rightarrow> string option \<Rightarrow> int \<Rightarrow> 'c env_state \<Rightarrow> (int \<times> 'c env_state) option" where
  "sys_setenv n v overwrite s =
     (if bad_name n then Some (- 1, s)
      else if environ s n \<noteq> None \<and> overwrite = 0 then Some (0, s)
      else map_option (\<lambda>x. (0, s\<lparr>environ := (environ s)(n \<mapsto> x)\<rparr>)) v)"

definition sys_unsetenv :: "string \<Rightarrow> 'c env_state \<Rightarrow> int \<times> 'c env_state" where
  "sys_unsetenv n s = (if bad_name n then (- 1, s) else (0, s\<lparr>environ := (environ s)(n := None)\<rparr>))"

section \<open>Registering the names\<close>

text \<open>The loop that removes repeated names from the sorted array: \<open>lp\<close> is the index of the last name kept,
  \<open>i\<close> the one it looks at.\<close>

definition dedup_step :: "nat \<Rightarrow> env_entry list \<times> nat \<Rightarrow> env_entry list \<times> nat" where
  "dedup_step i dl =
     (case dl of (data, lp) \<Rightarrow>
        if fst (data ! lp) \<noteq> fst (data ! i)
        then (if i \<noteq> lp + 1 then data[lp + 1 := data ! i] else data, lp + 1)
        else (data, lp))"

definition collect_names :: "string option list \<Rightarrow> env_entry list" where
  "collect_names names = [(n, None). Some n \<leftarrow> names, n \<noteq> []]"

definition co_set_env_list :: "string option list \<Rightarrow> 'c env_state \<Rightarrow> 'c env_state" where
  "co_set_env_list names s =
     (case g_co_sysenv s of
        Some _ \<Rightarrow> s
      | None \<Rightarrow>
          (let data = collect_names names
           in if 1 < length data
              then (case fold dedup_step [1..<length data] (sort_key fst data, 0) of
                      (d, lp) \<Rightarrow> s\<lparr>g_co_sysenv := Some (take (lp + 1) d)\<rparr>)
              else s\<lparr>g_co_sysenv := Some data\<rparr>))"

section \<open>The hooked functions\<close>

text \<open>\<open>dup_co_sysenv_arr\<close>, when the coroutine has no array yet.\<close>

definition dup_env :: "'c \<Rightarrow> 'c env_state \<Rightarrow> 'c env_state" where
  "dup_env self s = (if pvEnv s self = None then s\<lparr>pvEnv := (pvEnv s)(self := g_co_sysenv s)\<rparr> else s)"

definition own_env :: "'c \<Rightarrow> 'c env_state \<Rightarrow> env_entry list" where
  "own_env self s = (case pvEnv s self of None \<Rightarrow> [] | Some arr \<Rightarrow> arr)"

definition set_own :: "'c \<Rightarrow> nat \<Rightarrow> string option \<Rightarrow> 'c env_state \<Rightarrow> 'c env_state" where
  "set_own self i v s =
     (let arr = own_env self s
      in s\<lparr>pvEnv := (pvEnv s)(self \<mapsto> arr[i := (fst (arr ! i), v)])\<rparr>)"

text \<open>\<open>hook\<close> is \<open>co_is_enable_sys_hook\<close> of the running coroutine \<open>self\<close>.\<close>

definition setenv ::
  "bool \<Rightarrow> 'c \<Rightarrow> string \<Rightarrow> string option \<Rightarrow> int \<Rightarrow> 'c env_state \<Rightarrow> (int \<times> 'c env_state) option" where
  "setenv hook self n v overwrite s0 =
     (if hook \<and> g_co_sysenv s0 \<noteq> None then
        let s = dup_env self s0; arr = own_env self s
        in case find_entry n arr of
             Some e \<Rightarrow>
               Some (0, if overwrite \<noteq> 0 \<or> snd (arr ! e) = None then set_own self e v s else s)
           | None \<Rightarrow> sys_setenv n v overwrite s
      else sys_setenv n v overwrite s0)"

definition unsetenv :: "bool \<Rightarrow> 'c \<Rightarrow> string \<Rightarrow> 'c env_state \<Rightarrow> int \<times> 'c env_state" where
  "unsetenv hook self n s0 =
     (if hook \<and> g_co_sysenv s0 \<noteq> None then
        let s = dup_env self s0; arr = own_env self s
        in case find_entry n arr of
             Some e \<Rightarrow> (0, if snd (arr ! e) \<noteq> None then set_own self e None s else s)
           | None \<Rightarrow> sys_unsetenv n s
      else sys_unsetenv n s0)"

definition getenv :: "bool \<Rightarrow> 'c \<Rightarrow> string \<Rightarrow> 'c env_state \<Rightarrow> string option \<times> 'c env_state" where
  "getenv hook self n s0 =
     (if hook \<and> g_co_sysenv s0 \<noteq> None then
        let s = dup_env self s0; arr = own_env self s
        in case find_entry n arr of
             Some e \<Rightarrow> (snd (arr ! e), s)
           | None \<Rightarrow> (environ s n, s)
      else (environ s0 n, s0))"

section \<open>Binary search\<close>

abbreviation names_of :: "env_entry list \<Rightarrow> string list" where
  "names_of arr \<equiv> map fst arr"

lemma bsearch_sound:
  "bsearch key arr l u = Some i \<Longrightarrow> l \<le> i \<and> i < u \<and> fst (arr ! i) = key"
proof (induction key arr l u rule: bsearch.induct)
  case (1 key arr l u)
  then show ?case
    by (auto simp: bsearch.simps [of key arr l u] Let_def split: if_splits)
qed

lemma bsearch_complete:
  "sorted (names_of arr) \<Longrightarrow> u \<le> length arr \<Longrightarrow> l \<le> i \<Longrightarrow> i < u \<Longrightarrow> fst (arr ! i) = key \<Longrightarrow>
    bsearch key arr l u \<noteq> None"
proof (induction key arr l u rule: bsearch.induct)
  case (1 key arr l u)
  let ?idx = "(l + u) div 2"
  have le: "fst (arr ! j) \<le> fst (arr ! k)" if "j \<le> k" "k < length arr" for j k
    using that sorted_nth_mono [OF "1.prems"(1), of j k] by simp
  have idx: "l \<le> ?idx" "?idx < u" using 1 by auto
  show ?case
  proof (cases "key < fst (arr ! ?idx)")
    case True
    then have "i < ?idx" using le [of ?idx i] "1.prems" by (metis not_le le_less_trans less_le_trans)
    then show ?thesis using True 1 idx by (simp add: bsearch.simps [of key arr l u] Let_def)
  next
    case False
    note ge = this
    show ?thesis
    proof (cases "fst (arr ! ?idx) < key")
      case True
      then have "?idx < i" using le [of i ?idx] "1.prems" idx by (metis not_le less_le_trans)
      then show ?thesis using True ge 1 idx by (simp add: bsearch.simps [of key arr l u] Let_def)
    next
      case False
      then show ?thesis using ge idx by (simp add: bsearch.simps [of key arr l u] Let_def)
    qed
  qed
qed

lemma find_entry_iff:
  assumes "sorted (names_of arr)" "distinct (names_of arr)"
  shows "find_entry n arr = Some i \<longleftrightarrow> i < length arr \<and> fst (arr ! i) = n"
proof
  assume "find_entry n arr = Some i"
  then show "i < length arr \<and> fst (arr ! i) = n" using bsearch_sound by (fastforce simp: find_entry_def)
next
  assume i: "i < length arr \<and> fst (arr ! i) = n"
  then obtain j where j: "find_entry n arr = Some j"
    using bsearch_complete [OF assms(1) le_refl, of 0 i n] by (auto simp: find_entry_def)
  then have "j < length arr" "fst (arr ! j) = n" using bsearch_sound by (fastforce simp: find_entry_def)+
  then show "find_entry n arr = Some i"
    using j i nth_eq_iff_index_eq [OF assms(2), of i j] by simp
qed

lemma find_entry_None:
  assumes "sorted (names_of arr)"
  shows "find_entry n arr = None \<longleftrightarrow> n \<notin> set (names_of arr)"
proof
  show "n \<notin> set (names_of arr)" if "find_entry n arr = None"
  proof
    assume "n \<in> set (names_of arr)"
    then obtain i where "i < length arr" "fst (arr ! i) = n" by (auto simp: in_set_conv_nth)
    then show False using that bsearch_complete [OF assms le_refl, of 0 i n] by (simp add: find_entry_def)
  qed
  show "find_entry n arr = None" if "n \<notin> set (names_of arr)"
  proof (rule ccontr)
    assume "find_entry n arr \<noteq> None"
    then obtain j where "j < length arr" "fst (arr ! j) = n"
      using bsearch_sound by (fastforce simp: find_entry_def)
    then show False using that by (metis length_map nth_map nth_mem)
  qed
qed

section \<open>The registered names\<close>

definition dedup_inv :: "env_entry list \<Rightarrow> nat \<Rightarrow> env_entry list \<times> nat \<Rightarrow> bool" where
  "dedup_inv A i dl =
     (case dl of (d, lp) \<Rightarrow>
        length d = length A \<and> lp < i \<and> (\<forall>k. i \<le> k \<and> k < length A \<longrightarrow> d ! k = A ! k) \<and>
        sorted_wrt (<) (names_of (take (lp + 1) d)) \<and>
        set (names_of (take (lp + 1) d)) = set (names_of (take i A)) \<and> fst (d ! lp) = fst (A ! (i - 1)))"

lemma sorted_wrt_snoc_last:
  assumes "sorted_wrt (<) (xs :: 'a::linorder list)" "xs \<noteq> []" "last xs < x"
  shows "sorted_wrt (<) (xs @ [x])"
proof -
  obtain ys y where xs: "xs = ys @ [y]" using assms(2) by (cases xs rule: rev_cases) auto
  then show ?thesis using assms by (auto simp: sorted_wrt_append intro: less_trans)
qed

lemma dedup_step_inv:
  assumes "sorted (names_of A)" "dedup_inv A i (d, lp)" "i < length A"
  shows "dedup_inv A (Suc i) (dedup_step i (d, lp))"
proof -
  note inv = assms(2) [unfolded dedup_inv_def prod.case]
  have di: "d ! i = A ! i" and i0: "0 < i" and lp: "lp < length d" using inv assms(3) by auto
  have le: "fst (d ! lp) \<le> fst (A ! i)"
    using sorted_nth_mono [OF assms(1), of "i - 1" i] inv assms(3) by simp
  have tk: "names_of (take (Suc i) A) = names_of (take i A) @ [fst (A ! i)]"
    using assms(3) by (simp add: take_Suc_conv_app_nth)
  have lst: "names_of (take (lp + 1) d) \<noteq> []" "last (names_of (take (lp + 1) d)) = fst (d ! lp)"
    using lp by (auto simp: take_Suc_conv_app_nth)
  show ?thesis
  proof (cases "fst (d ! lp) = fst (A ! i)")
    case True
    then have "fst (A ! i) \<in> set (names_of (take i A))"
      using lst inv by (metis last_in_set)
    then show ?thesis using True inv di tk by (auto simp: dedup_inv_def dedup_step_def)
  next
    case False
    let ?d = "d[lp + 1 := A ! i]"
    have "(if i \<noteq> lp + 1 then ?d else d) = ?d" using list_update_id [of d i] di by auto
    then have st: "dedup_step i (d, lp) = (?d, lp + 1)"
      using False di unfolding dedup_step_def prod.case by (simp only: if_True simp_thms)
    have lp1: "lp + 1 < length d" using inv assms(3) by simp
    have "take (Suc (lp + 1)) ?d = take (lp + 1) d @ [A ! i]"
      using lp1 by (simp add: take_Suc_conv_app_nth del: One_nat_def)
    then have ns: "names_of (take (Suc (lp + 1)) ?d) = names_of (take (lp + 1) d) @ [fst (A ! i)]" by simp
    have "sorted_wrt (<) (names_of (take (lp + 1) d) @ [fst (A ! i)])"
      using sorted_wrt_snoc_last [OF _ lst(1)] inv lst(2) le False by simp
    moreover have "set (names_of (take (Suc (lp + 1)) ?d)) = set (names_of (take (Suc i) A))"
      using inv unfolding ns tk by simp
    ultimately show ?thesis using st ns inv lp1 unfolding dedup_inv_def by (simp add: nth_list_update)
  qed
qed

lemma dedup_loop_inv:
  assumes "sorted (names_of A)" "0 < n" "n \<le> length A"
  shows "dedup_inv A n (fold dedup_step [1..<n] (A, 0))"
  using assms(2,3)
proof (induction n)
  case (Suc n)
  show ?case
  proof (cases "n = 0")
    case True
    then show ?thesis using Suc.prems by (cases A) (auto simp: dedup_inv_def)
  next
    case False
    obtain d lp where dl: "fold dedup_step [1..<n] (A, 0) = (d, lp)" by fastforce
    then have "dedup_inv A n (d, lp)" using Suc False by simp
    then show ?thesis using dedup_step_inv [OF assms(1)] dl Suc.prems False by simp
  qed
qed simp

text \<open>The names a list asks for.\<close>

definition env_names :: "string option list \<Rightarrow> string set" where
  "env_names names = {n. Some n \<in> set names \<and> n \<noteq> []}"

lemma collect_names_set: "set (names_of (collect_names names)) = env_names names"
  by (auto simp: collect_names_def env_names_def image_iff intro!: bexI)

lemma co_set_env_list_names:
  assumes "g_co_sysenv s = None"
  shows "\<exists>arr. g_co_sysenv (co_set_env_list names s) = Some arr \<and>
    names_of arr = sorted_list_of_set (env_names names)"
proof -
  let ?data = "collect_names names"
  have fin: "finite (env_names names)" using collect_names_set [of names] by (metis List.finite_set)
  have uniq: "ns = sorted_list_of_set (env_names names)"
    if "sorted_wrt (<) ns" "set ns = env_names names" for ns
    using that strict_sorted_equal [of ns "sorted_list_of_set (env_names names)"] fin
    by (simp add: strict_sorted_list_of_set)
  show ?thesis
  proof (cases "1 < length ?data")
    case False
    then have "sorted_wrt (<) (names_of ?data)" by (cases ?data) auto
    then show ?thesis using False assms uniq [OF _ collect_names_set]
      by (simp add: co_set_env_list_def Let_def)
  next
    case True
    let ?A = "sort_key fst ?data"
    obtain d lp where dl: "fold dedup_step [1..<length ?data] (?A, 0) = (d, lp)" by fastforce
    have "sorted (names_of ?A)" by simp
    then have inv: "dedup_inv ?A (length ?A) (d, lp)"
      using dedup_loop_inv [of ?A "length ?A"] True dl by (cases ?data) simp_all
    have "set (names_of ?A) = env_names names"
      using collect_names_set [of names] by simp
    then have "names_of (take (lp + 1) d) = sorted_list_of_set (env_names names)"
      using inv by (intro uniq) (simp_all add: dedup_inv_def)
    then show ?thesis using True assms dl by (simp add: co_set_env_list_def Let_def)
  qed
qed

text \<open>\<open>co_set_env_list\<close> sorts the names it is given and removes the null, the empty and the repeated
  ones in place: the array holds the remaining names, strictly increasing, as \<open>bsearch\<close> needs them.\<close>

theorem co_set_env_list_sorted:
  assumes "g_co_sysenv s = None"
  shows "\<exists>arr. g_co_sysenv (co_set_env_list names s) = Some arr \<and>
    names_of arr = sorted_list_of_set (env_names names)"
  by (rule co_set_env_list_names [OF assms])

lemma co_set_env_list_sorted_witness:
  "\<exists>arr. g_co_sysenv (co_set_env_list [Some ''B'', None, Some ''A'', Some '''', Some ''B'']
      \<lparr>g_co_sysenv = None, pvEnv = \<lambda>_ :: nat. None, environ = \<lambda>_. None\<rparr>) = Some arr \<and>
    names_of arr = sorted_list_of_set (env_names [Some ''B'', None, Some ''A'', Some '''', Some ''B''])"
  by (rule co_set_env_list_sorted) simp

section \<open>Reading back and isolation\<close>

text \<open>Every array holds the registered names, sorted.\<close>

definition env_ok :: "'c env_state \<Rightarrow> bool" where
  "env_ok s \<longleftrightarrow>
     (case g_co_sysenv s of
        None \<Rightarrow> \<forall>c. pvEnv s c = None
      | Some g \<Rightarrow> sorted (names_of g) \<and> distinct (names_of g) \<and>
          (\<forall>c arr. pvEnv s c = Some arr \<longrightarrow> names_of arr = names_of g))"

definition registered :: "'c env_state \<Rightarrow> string set" where
  "registered s = (case g_co_sysenv s of None \<Rightarrow> {} | Some g \<Rightarrow> set (names_of g))"

text \<open>What a coroutine sees as the value of a name, as a function of the state.\<close>

definition env_view :: "'c env_state \<Rightarrow> 'c \<Rightarrow> string \<Rightarrow> string option" where
  "env_view s c n =
     (if n \<in> registered s
      then the (map_of (own_env c (dup_env c s)) n)
      else environ s n)"

lemma env_okD:
  assumes "env_ok s" "g_co_sysenv s = Some g"
  shows "sorted (names_of g)" "distinct (names_of g)" "registered s = set (names_of g)"
  using assms by (auto simp: env_ok_def registered_def)

lemma own_names:
  assumes "env_ok s" "g_co_sysenv s = Some g"
  shows "names_of (own_env c (dup_env c s)) = names_of g"
  using assms by (auto simp: env_ok_def dup_env_def own_env_def split: option.splits)

lemma map_of_list_update:
  "distinct (map fst xs) \<Longrightarrow> e < length xs \<Longrightarrow>
    map_of (xs[e := (fst (xs ! e), v)]) = (map_of xs)(fst (xs ! e) \<mapsto> v)"
proof (induction xs arbitrary: e)
  case (Cons x xs)
  show ?case
  proof (cases e)
    case (Suc i)
    then have "fst x \<noteq> fst (xs ! i)" using Cons.prems nth_mem [of i xs] by (auto simp: image_iff)
    then show ?thesis using Suc Cons by (auto simp: fun_eq_iff)
  qed (simp add: fun_eq_iff)
qed simp

lemma dup_env_frame [simp]:
  "g_co_sysenv (dup_env c s) = g_co_sysenv s" "environ (dup_env c s) = environ s"
  "dup_env c (dup_env c s) = dup_env c s" "registered (dup_env c s) = registered s"
  by (simp_all add: dup_env_def registered_def)

lemma dup_env_ok: "env_ok s \<Longrightarrow> env_ok (dup_env c s)"
  by (auto simp: env_ok_def dup_env_def split: option.splits)

lemma env_view_dup: "env_view (dup_env c s) d n = env_view s d n"
  by (auto simp: env_view_def dup_env_def own_env_def registered_def split: option.splits)

lemma find_own:
  assumes "env_ok s" "g_co_sysenv s = Some g" "arr = own_env c (dup_env c s)"
  shows "n \<in> registered s \<Longrightarrow> \<exists>e. find_entry n arr = Some e \<and> e < length arr \<and> fst (arr ! e) = n"
    and "n \<notin> registered s \<Longrightarrow> find_entry n arr = None"
proof -
  note ok = env_okD [OF assms(1,2)] own_names [OF assms(1,2), of c, folded assms(3)]
  show "\<exists>e. find_entry n arr = Some e \<and> e < length arr \<and> fst (arr ! e) = n" if r: "n \<in> registered s"
  proof -
    from r obtain e where "find_entry n arr = Some e"
      using find_entry_None [of arr n] ok by (metis option.exhaust)
    then show ?thesis using find_entry_iff [of arr n e] ok by auto
  qed
  show "find_entry n arr = None" if "n \<notin> registered s"
    using that find_entry_None [of arr n] ok by simp
qed

lemma map_of_own:
  assumes "env_ok s" "g_co_sysenv s = Some g" "arr = own_env c (dup_env c s)" "e < length arr"
  shows "map_of arr (fst (arr ! e)) = Some (snd (arr ! e))"
  using env_okD [OF assms(1,2)] own_names [OF assms(1,2), of c] assms(3,4)
  by (intro map_of_is_SomeI) (auto simp: nth_mem)

lemma set_own_view:
  assumes "env_ok s" "g_co_sysenv s = Some g" "s' = dup_env c s" "e < length (own_env c s')"
  shows "env_ok (set_own c e v s')" "g_co_sysenv (set_own c e v s') = Some g"
    "environ (set_own c e v s') = environ s"
    "env_view (set_own c e v s') d n = (if d = c \<and> n = fst (own_env c s' ! e) then v else env_view s d n)"
proof -
  let ?arr = "own_env c s'" let ?new = "?arr[e := (fst (?arr ! e), v)]"
  note ok = env_okD [OF assms(1,2)] own_names [OF assms(1,2), of c, folded assms(3)]
  have names: "names_of ?new = names_of ?arr"
    using assms(4) by (simp add: map_update list_update_same_conv)
  have own: "own_env d (dup_env d (set_own c e v s')) = (if d = c then ?new else own_env d (dup_env d s))" for d
    using assms(2,3) by (auto simp: own_env_def dup_env_def set_own_def Let_def)
  show g: "g_co_sysenv (set_own c e v s') = Some g" "environ (set_own c e v s') = environ s"
    using assms(2,3) by (simp_all add: set_own_def Let_def)
  have reg: "registered (set_own c e v s') = registered s" using g(1) assms(2) by (simp add: registered_def)
  show "env_ok (set_own c e v s')"
    using assms(1,2,3) names ok(4) dup_env_ok [OF assms(1), of c] by (auto simp: env_ok_def set_own_def Let_def)
  have "map_of ?new n = (if n = fst (?arr ! e) then Some v else map_of ?arr n)"
    using map_of_list_update [of ?arr e v] ok assms(4) by simp
  moreover have "fst (?arr ! e) \<in> registered s" using ok(3,4) assms(4) by (metis length_map nth_map nth_mem)
  ultimately show "env_view (set_own c e v s') d n =
      (if d = c \<and> n = fst (?arr ! e) then v else env_view s d n)"
    using reg own g assms(3) by (auto simp: env_view_def)
qed

lemma getenv_view:
  assumes "env_ok s" "g_co_sysenv s \<noteq> None"
  shows "getenv True c n s = (env_view s c n, dup_env c s)"
proof -
  obtain g where g: "g_co_sysenv s = Some g" using assms(2) by auto
  note find = find_own [OF assms(1) g refl, where c = c and n = n]
  show ?thesis
  proof (cases "n \<in> registered s")
    case True
    then obtain e where e: "find_entry n (own_env c (dup_env c s)) = Some e"
      "e < length (own_env c (dup_env c s))" "fst (own_env c (dup_env c s) ! e) = n" using find(1) by blast
    then show ?thesis using True g map_of_own [OF assms(1) g refl e(2)]
      by (simp add: getenv_def env_view_def Let_def)
  next
    case False
    then show ?thesis using g find(2) by (simp add: getenv_def env_view_def Let_def)
  qed
qed

text \<open>An assignment to a registered name by way of the array.\<close>

definition assigned :: "'c \<Rightarrow> string \<Rightarrow> string option \<Rightarrow> 'c env_state \<Rightarrow> 'c env_state \<Rightarrow> bool" where
  "assigned c n v s s' \<longleftrightarrow>
     env_ok s' \<and> registered s' = registered s \<and> environ s' = environ s \<and>
     env_view s' = (env_view s)(c := (env_view s c)(n := v))"

lemma set_own_assigned:
  assumes "env_ok s" "g_co_sysenv s = Some g" "find_entry n (own_env c (dup_env c s)) = Some e"
    and "e < length (own_env c (dup_env c s))" "fst (own_env c (dup_env c s) ! e) = n"
  shows "assigned c n v s (set_own c e v (dup_env c s))"
  using set_own_view [OF assms(1,2) refl assms(4)] assms(2,5)
  by (auto simp: assigned_def registered_def fun_eq_iff)

lemma dup_env_assigned: "env_ok s \<Longrightarrow> v = env_view s c n \<Longrightarrow> assigned c n v s (dup_env c s)"
  using env_view_dup [of c s] by (auto simp: assigned_def dup_env_ok fun_eq_iff)

text \<open>C17: seen from the coroutines the environment is what it should be: each coroutine has its own map
  of the registered names. \<open>getenv\<close> reads it, and \<open>setenv\<close> and \<open>unsetenv\<close> on a registered name succeed
  and change the map of the calling coroutine at that name only, where \<open>setenv\<close> without \<open>overwrite\<close>
  keeps a value that is there. The other coroutines, the other names and the environment of the
  process are untouched.\<close>

theorem env_refines:
  assumes "env_ok s" "g_co_sysenv s \<noteq> None" "n \<in> registered s"
  shows "fst (getenv True c n s) = env_view s c n \<and>
    (\<exists>s'. setenv True c n v overwrite s = Some (0, s') \<and>
      assigned c n (if overwrite \<noteq> 0 \<or> env_view s c n = None then v else env_view s c n) s s') \<and>
    (\<exists>s'. unsetenv True c n s = (0, s') \<and> assigned c n None s s')"
proof -
  obtain g where g: "g_co_sysenv s = Some g" using assms(2) by auto
  let ?s = "dup_env c s" let ?arr = "own_env c ?s"
  obtain e where e: "find_entry n ?arr = Some e" "e < length ?arr" "fst (?arr ! e) = n"
    using find_own(1) [OF assms(1) g refl assms(3)] by blast
  have v: "env_view s c n = snd (?arr ! e)"
    using map_of_own [OF assms(1) g refl e(2)] e(3) assms(3) by (simp add: env_view_def)
  note a = set_own_assigned [OF assms(1) g e] and d = dup_env_assigned [OF assms(1) refl, of c n]
  have "setenv True c n v overwrite s =
      Some (0, if overwrite \<noteq> 0 \<or> snd (?arr ! e) = None then set_own c e v ?s else ?s)"
    using g e(1) by (simp add: setenv_def Let_def)
  moreover have "unsetenv True c n s = (0, if snd (?arr ! e) \<noteq> None then set_own c e None ?s else ?s)"
    using g e(1) by (simp add: unsetenv_def Let_def)
  ultimately show ?thesis using a [of v] a [of None] d v getenv_view [OF assms(1,2)] by (auto split: if_splits)
qed

lemma env_refines_witness:
  "fst (getenv True (1 :: nat) ''A''
      \<lparr>g_co_sysenv = Some [(''A'', None), (''B'', None)], pvEnv = \<lambda>_. None, environ = \<lambda>_. Some ''x''\<rparr>) = None"
  using env_refines [of "\<lparr>g_co_sysenv = Some [(''A'', None), (''B'', None)], pvEnv = \<lambda>_. None,
      environ = \<lambda>_. Some ''x''\<rparr>" "''A''" "1 :: nat"]
  by (simp add: env_ok_def registered_def env_view_def dup_env_def own_env_def)

lemma co_set_env_list_ok: "env_ok s \<Longrightarrow> env_ok (co_set_env_list names s)"
proof (cases "g_co_sysenv s")
  case None
  assume "env_ok s"
  then have p: "pvEnv s c = None" for c using None by (simp add: env_ok_def)
  obtain arr where "g_co_sysenv (co_set_env_list names s) = Some arr"
    "names_of arr = sorted_list_of_set (env_names names)"
    using co_set_env_list_names [OF None, of names] by blast
  moreover have "pvEnv (co_set_env_list names s) = pvEnv s"
    by (auto simp: co_set_env_list_def Let_def split: option.splits prod.splits)
  ultimately show ?thesis using p by (simp add: env_ok_def)
qed (simp add: co_set_env_list_def)

end
