(* ===== verification/Co_Sync.thy ===== *)
theory Co_Sync
  imports Event_Loop
begin

text \<open>
  Condition variables (\<open>co_cond_*\<close> in \<open>src/coroutine/co_routine.cpp\<close>) and the coroutine mutex
  \<open>clsCoMutex\<close> of \<open>src/coroutine/co_comm.cpp\<close>. A waiting coroutine has a condition item, which is
  linked into the condition variable, and in it a timeout item, which may be in the timeout ring
  and which a signal moves to the active list; the model names both by one node, with two pointer
  stores.
\<close>

section \<open>Condition variables\<close>

record ('n, 'co, 'c) stCoSync = "('n, 'co) stCoEpoll" +
  clnk :: "('n, 'c) links"

type_synonym ('n, 'co, 'c) sync = "('n, 'co, 'c) stCoSync"

definition co_cond_pop :: "'c \<Rightarrow> ('n, 'co, 'c) sync \<Rightarrow> 'n option \<times> ('n, 'co, 'c) sync" where
  "co_cond_pop link s =
     (case lhead (clnk s) link of
        None \<Rightarrow> (None, s)
      | Some p \<Rightarrow> (Some p, s\<lparr>clnk := PopHead link (clnk s)\<rparr>))"

text \<open>Moving the timeout item of a condition item to the active list.\<close>

definition wake_item :: "'n \<Rightarrow> ('n, 'co, 'c) sync \<Rightarrow> ('n, 'co, 'c) sync option" where
  "wake_item sp s =
     map_option (\<lambda>l. s\<lparr>lnk := AddTail ActiveList sp l\<rparr>) (RemoveFromLink sp (lnk s))"

definition co_cond_signal :: "'c \<Rightarrow> ('n, 'co, 'c) sync \<Rightarrow> ('n, 'co, 'c) sync option" where
  "co_cond_signal si s =
     (case co_cond_pop si s of
        (None, s1) \<Rightarrow> Some s1
      | (Some sp, s1) \<Rightarrow> wake_item sp s1)"

partial_function (option) co_cond_broadcast ::
  "'c \<Rightarrow> ('n, 'co, 'c) sync \<Rightarrow> ('n, 'co, 'c) sync option" where
  "co_cond_broadcast si s =
     (case co_cond_pop si s of
        (None, s1) \<Rightarrow> Some s1
      | (Some sp, s1) \<Rightarrow> Option.bind (wake_item sp s1) (co_cond_broadcast si))"

text \<open>\<open>co_cond_timedwait\<close> up to the yield: \<open>psi\<close> is the address \<open>calloc\<close> returns. The first
  component is the error of \<open>AddTimeout\<close>, with which the call returns at once.\<close>

definition calloc_item :: "'n \<Rightarrow> 'co \<Rightarrow> ('n, 'co, 'c) sync \<Rightarrow> ('n, 'co, 'c) sync" where
  "calloc_item psi self s =
     s\<lparr>lnk := set_plink psi None (set_prev psi None (set_next psi None (lnk s))),
       ullExpireTime := (ullExpireTime s)(psi := 0), pfnPrepare := (pfnPrepare s)(psi := False),
       pfnProcess := (pfnProcess s)(psi := True), pArg := (pArg s)(psi := self),
       bTimeout := (bTimeout s)(psi := False),
       clnk := set_plink psi None (set_prev psi None (set_next psi None (clnk s)))\<rparr>"

definition timedwait_begin ::
  "'c \<Rightarrow> int \<Rightarrow> 'n \<Rightarrow> 'co \<Rightarrow> u64 \<Rightarrow> ('n, 'co, 'c) sync \<Rightarrow> int \<times> ('n, 'co, 'c) sync" where
  "timedwait_begin link ms psi self now s =
     (let s1 = calloc_item psi self s;
          (ret, s2) = (if 0 < ms
            then AddTimeout psi now (s1\<lparr>ullExpireTime := (ullExpireTime s1)(psi := now + of_int ms)\<rparr>)
            else (0, s1))
      in if ret \<noteq> 0 then (ret, s2) else (0, s2\<lparr>clnk := AddTail link psi (clnk s2)\<rparr>))"

text \<open>After the yield: the condition item is unlinked and freed.\<close>

definition timedwait_end :: "'n \<Rightarrow> ('n, 'co, 'c) sync \<Rightarrow> ('n, 'co, 'c) sync option" where
  "timedwait_end psi s = map_option (\<lambda>l. s\<lparr>clnk := l\<rparr>) (RemoveFromLink psi (clnk s))"

section \<open>What the condition variables do\<close>

definition sync_rep ::
  "('n, 'co, 'c) sync \<Rightarrow> (link_id \<Rightarrow> 'n list) \<Rightarrow> ('c \<Rightarrow> 'n list) \<Rightarrow> bool" where
  "sync_rep s L C \<longleftrightarrow> represents (lnk s) L \<and> represents (clnk s) C"

lemma sync_repD:
  assumes "sync_rep s L C"
  shows "represents (lnk s) L" "represents (clnk s) C"
  using assms by (simp_all add: sync_rep_def)

lemma co_cond_pop_spec:
  assumes "sync_rep s L C"
  shows "co_cond_pop si s =
    (case C si of [] \<Rightarrow> (None, s) | p # _ \<Rightarrow> (Some p, s\<lparr>clnk := PopHead si (clnk s)\<rparr>))"
  using assms represents_lhead [of "clnk s" C si]
  by (auto simp: co_cond_pop_def sync_rep_def split: list.split)

lemma wake_item_spec:
  assumes "sync_rep s L C"
  shows "\<exists>t. wake_item p s = Some t \<and> sync_rep t (detach [p] L) C \<and> clnk t = clnk s \<and>
    t = s\<lparr>lnk := lnk t\<rparr>"
proof -
  obtain l where l: "RemoveFromLink p (lnk s) = Some l"
    "represents (AddTail ActiveList p l) (detach [p] L)"
    using detach_one [of "lnk s" L p] assms by (auto simp: sync_rep_def)
  then show ?thesis using assms by (simp add: wake_item_def sync_rep_def)
qed

lemma co_cond_signal_spec:
  assumes "sync_rep s L C"
  shows "\<exists>t. co_cond_signal si s = Some t \<and>
    (case C si of
       [] \<Rightarrow> t = s
     | p # ps \<Rightarrow> sync_rep t (detach [p] L) (C(si := ps)))"
proof (cases "C si")
  case Nil
  then show ?thesis using co_cond_pop_spec [OF assms, of si] by (simp add: co_cond_signal_def)
next
  case (Cons p ps)
  let ?s = "s\<lparr>clnk := PopHead si (clnk s)\<rparr>"
  have "sync_rep ?s L (C(si := ps))"
    using assms links.pop_any [of "clnk s" C si] Cons by (simp add: sync_rep_def)
  from wake_item_spec [OF this, of p] show ?thesis
    using Cons co_cond_pop_spec [OF assms, of si] by (auto simp: co_cond_signal_def)
qed

lemma co_cond_broadcast_spec:
  assumes "sync_rep s L C"
  shows "\<exists>t. co_cond_broadcast si s = Some t \<and> sync_rep t (detach (C si) L) (C(si := []))"
  using assms
proof (induction "C si" arbitrary: s L C)
  case Nil
  then show ?case using co_cond_pop_spec [OF Nil(2), of si]
    by (subst co_cond_broadcast.simps) (simp add: fun_upd_idem)
next
  case (Cons p ps)
  let ?s = "s\<lparr>clnk := PopHead si (clnk s)\<rparr>" and ?C = "C(si := ps)"
  have C: "C si = p # ps" using Cons.hyps(2) by simp
  have "distinct (C si)" by (rule links.rep_distinct [OF sync_repD(2) [OF Cons.prems]])
  then have d: "p \<notin> set ps" unfolding C by simp
  have "sync_rep ?s L ?C"
    using Cons.prems links.pop_any [of "clnk s" C si] C by (simp add: sync_rep_def)
  from wake_item_spec [OF this, of p] obtain t where
    t: "wake_item p ?s = Some t" "sync_rep t (detach [p] L) ?C" by auto
  have eq: "?C si = ps" "?C(si := []) = C(si := [])" by simp_all
  from Cons.hyps(1) [OF eq(1) [symmetric] t(2)] obtain u where
    u: "co_cond_broadcast si t = Some u" "sync_rep u (detach ps (detach [p] L)) (C(si := []))"
    unfolding eq by blast
  have pop: "co_cond_pop si s = (Some p, ?s)" using co_cond_pop_spec [OF Cons.prems, of si] C by simp
  have "co_cond_broadcast si s = Some u"
    using pop by (subst co_cond_broadcast.simps) (simp add: t(1) u(1))
  moreover have "detach ps (detach [p] L) = detach (C si) L" unfolding C by (rule detach_Cons [OF d])
  ultimately show ?case using u(2) by metis
qed

lemma calloc_item_rep:
  assumes "sync_rep s L C" "\<forall>k. psi \<notin> set (L k)" "\<forall>c. psi \<notin> set (C c)"
  shows "sync_rep (calloc_item psi self s) L C"
  using assms represents_zeroed [of "lnk s" L psi] represents_zeroed [of "clnk s" C psi]
  by (simp add: sync_rep_def calloc_item_def)

text \<open>A wait without a timeout only queues the item.\<close>

lemma timedwait_begin_untimed:
  assumes "sync_rep s L C" "\<forall>k. psi \<notin> set (L k)" "\<forall>c. psi \<notin> set (C c)" "ms \<le> 0"
  shows "\<exists>t. timedwait_begin link ms psi self now s = (0, t) \<and> sync_rep t L (C(link := C link @ [psi]))"
proof -
  note r = calloc_item_rep [OF assms(1-3), of self]
  have "sync_rep ((calloc_item psi self s)\<lparr>clnk := AddTail link psi (clnk (calloc_item psi self s))\<rparr>) L
      (C(link := C link @ [psi]))"
    using r links.addtail_fresh [of _ C psi link] assms(3) by (simp add: sync_rep_def)
  then show ?thesis using assms(4) by (auto simp: timedwait_begin_def Let_def)
qed

lemma timedwait_end_spec:
  assumes "sync_rep s L C"
  shows "\<exists>t. timedwait_end psi s = Some t \<and> sync_rep t L (\<lambda>c. remove1 psi (C c)) \<and> lnk t = lnk s"
  using links.remove_any [of "clnk s" C psi] assms by (auto simp: timedwait_end_def sync_rep_def)

section \<open>The mutex\<close>

text \<open>
  \<open>CoLock\<close> up to its yield, if it has to wait, and \<open>CoUnLock\<close>; \<open>m\<close> is the condition variable of
  the mutex and the integer its \<open>m_iWaitItemCnt\<close>. The result of \<open>CoLock\<close> says whether the lock is
  held on return.
\<close>

definition CoLock ::
  "'c \<Rightarrow> 'n \<Rightarrow> 'co \<Rightarrow> u64 \<Rightarrow> ('n, 'co, 'c) sync \<times> int \<Rightarrow> bool \<times> ('n, 'co, 'c) sync \<times> int" where
  "CoLock m psi self now sc =
     (case sc of (s, m_iWaitItemCnt) \<Rightarrow>
        if 0 < m_iWaitItemCnt
        then (False, snd (timedwait_begin m (- 1) psi self now s), m_iWaitItemCnt + 1)
        else (True, s, m_iWaitItemCnt + 1))"

definition CoUnLock :: "'c \<Rightarrow> ('n, 'co, 'c) sync \<times> int \<Rightarrow> (('n, 'co, 'c) sync \<times> int) option" where
  "CoUnLock m sc =
     (case sc of (s, m_iWaitItemCnt) \<Rightarrow>
        map_option (\<lambda>t. (t, m_iWaitItemCnt - 1)) (co_cond_signal m s))"

section \<open>The coroutines that use a mutex\<close>

text \<open>
  \<open>ms_waits\<close> names the condition item of each coroutine that is inside \<open>CoLock\<close>, \<open>ms_holders\<close> the
  coroutines whose \<open>CoLock\<close> has returned and that have not called \<open>CoUnLock\<close>. The step \<open>other\<close> is
  what the rest of the thread does: it may change every list, but the items of the waiting
  coroutines stay where they are, since nobody else knows their addresses.
\<close>

record ('n, 'co, 'c) mutex_state =
  ms_sync :: "('n, 'co, 'c) sync"
  ms_cnt :: int
  ms_waits :: "'n \<rightharpoonup> 'co"
  ms_holders :: "'co list"

inductive mutex_step ::
  "'c \<Rightarrow> ('n, 'co, 'c) mutex_state \<Rightarrow> ('n, 'co, 'c) mutex_state \<Rightarrow> bool" for m where
  lock: "sync_rep (ms_sync x) L C \<Longrightarrow> \<forall>k. psi \<notin> set (L k) \<Longrightarrow> \<forall>c. psi \<notin> set (C c) \<Longrightarrow>
    ms_waits x psi = None \<Longrightarrow>
    CoLock m psi co now (ms_sync x, ms_cnt x) = (got, s', n') \<Longrightarrow>
    mutex_step m x (x\<lparr>ms_sync := s', ms_cnt := n',
      ms_waits := (if got then ms_waits x else (ms_waits x)(psi \<mapsto> co)),
      ms_holders := (if got then ms_holders x @ [co] else ms_holders x)\<rparr>)"
| unlock: "co \<in> set (ms_holders x) \<Longrightarrow> CoUnLock m (ms_sync x, ms_cnt x) = Some (s', n') \<Longrightarrow>
    mutex_step m x (x\<lparr>ms_sync := s', ms_cnt := n', ms_holders := remove1 co (ms_holders x)\<rparr>)"
| wake: "represents (lnk (ms_sync x)) L \<Longrightarrow> L ActiveList = psi # ns \<Longrightarrow> ms_waits x psi = Some co \<Longrightarrow>
    timedwait_end psi ((ms_sync x)\<lparr>lnk := PopHead ActiveList (lnk (ms_sync x))\<rparr>) = Some t \<Longrightarrow>
    mutex_step m x (x\<lparr>ms_sync := t, ms_waits := (ms_waits x)(psi := None),
      ms_holders := ms_holders x @ [co]\<rparr>)"
| other: "sync_rep (ms_sync x) L C \<Longrightarrow> sync_rep t L' C' \<Longrightarrow> C' m = C m \<Longrightarrow>
    \<forall>n \<in> dom (ms_waits x). (\<forall>k. n \<in> set (L' k) \<longleftrightarrow> n \<in> set (L k)) \<and> (\<forall>c. n \<in> set (C' c) \<longleftrightarrow> n \<in> set (C c)) \<Longrightarrow>
    mutex_step m x (x\<lparr>ms_sync := t\<rparr>)"

inductive mutex_reach :: "'c \<Rightarrow> ('n, 'co, 'c) mutex_state \<Rightarrow> bool" for m where
  init: "sync_rep (ms_sync x) L C \<Longrightarrow> C m = [] \<Longrightarrow> ms_cnt x = 0 \<Longrightarrow> ms_waits x = Map.empty \<Longrightarrow>
    ms_holders x = [] \<Longrightarrow> mutex_reach m x"
| step: "mutex_reach m x \<Longrightarrow> mutex_step m x y \<Longrightarrow> mutex_reach m y"

definition woken :: "(link_id \<Rightarrow> 'n list) \<Rightarrow> ('n, 'co, 'c) mutex_state \<Rightarrow> 'n set" where
  "woken L x = {n \<in> dom (ms_waits x). n \<in> set (L ActiveList)}"

definition mutex_inv ::
  "'c \<Rightarrow> ('n, 'co, 'c) mutex_state \<Rightarrow> (link_id \<Rightarrow> 'n list) \<Rightarrow> ('c \<Rightarrow> 'n list) \<Rightarrow> bool" where
  "mutex_inv m x L C \<longleftrightarrow> sync_rep (ms_sync x) L C \<and>
     (\<forall>n \<in> set (C m). n \<in> dom (ms_waits x) \<and> (\<forall>k. n \<notin> set (L k))) \<and>
     (\<forall>n \<in> dom (ms_waits x). n \<in> set (C m) \<or> n \<in> set (L ActiveList)) \<and>
     (\<forall>n \<in> dom (ms_waits x). \<forall>c. c \<noteq> m \<longrightarrow> n \<notin> set (C c)) \<and>
     ms_cnt x = int (length (C m) + card (woken L x) + length (ms_holders x)) \<and>
     card (woken L x) + length (ms_holders x) \<le> 1 \<and>
     (card (woken L x) + length (ms_holders x) = 0 \<longrightarrow> C m = [])"

lemma sync_rep_fun: "sync_rep s L C \<Longrightarrow> sync_rep s L' C' \<Longrightarrow> L' = L \<and> C' = C"
  using represents_fun [of "lnk s" L' L] represents_fun [of "clnk s" C' C] by (simp add: sync_rep_def)

lemma finite_woken [simp]: "finite (woken L x)"
  by (rule finite_subset [of _ "set (L ActiveList)"]) (auto simp: woken_def)

lemma mutex_invD:
  assumes "mutex_inv m x L C"
  shows "sync_rep (ms_sync x) L C"
    "\<And>n. n \<in> set (C m) \<Longrightarrow> n \<in> dom (ms_waits x) \<and> (\<forall>k. n \<notin> set (L k))"
    "\<And>n. n \<in> dom (ms_waits x) \<Longrightarrow> n \<in> set (C m) \<or> n \<in> set (L ActiveList)"
    "\<And>n c. n \<in> dom (ms_waits x) \<Longrightarrow> c \<noteq> m \<Longrightarrow> n \<notin> set (C c)"
    "ms_cnt x = int (length (C m) + card (woken L x) + length (ms_holders x))"
    "card (woken L x) + length (ms_holders x) \<le> 1"
    "card (woken L x) + length (ms_holders x) = 0 \<Longrightarrow> C m = []"
  using assms by (simp_all add: mutex_inv_def)

lemma lock_inv:
  assumes inv: "mutex_inv m x L C" and fresh: "\<forall>k. psi \<notin> set (L k)" "\<forall>c. psi \<notin> set (C c)"
    "ms_waits x psi = None"
    and lock: "CoLock m psi co now (ms_sync x, ms_cnt x) = (got, s', n')"
  shows "\<exists>C'. mutex_inv m (x\<lparr>ms_sync := s', ms_cnt := n',
      ms_waits := (if got then ms_waits x else (ms_waits x)(psi \<mapsto> co)),
      ms_holders := (if got then ms_holders x @ [co] else ms_holders x)\<rparr>) L C'"
proof (cases "0 < ms_cnt x")
  case True
  note I = mutex_invD [OF inv]
  obtain t where t: "timedwait_begin m (- 1) psi co now (ms_sync x) = (0, t)"
    "sync_rep t L (C(m := C m @ [psi]))"
    using timedwait_begin_untimed [OF I(1) fresh(1,2), of "- 1" m co now] by auto
  have l: "got = False" "s' = t" "n' = ms_cnt x + 1" using lock True t(1) by (simp_all add: CoLock_def)
  let ?y = "x\<lparr>ms_sync := t, ms_cnt := ms_cnt x + 1, ms_waits := (ms_waits x)(psi \<mapsto> co)\<rparr>"
  have w: "woken L ?y = woken L x" using fresh by (auto simp: woken_def)
  have "mutex_inv m ?y L (C(m := C m @ [psi]))"
    unfolding mutex_inv_def w
  proof (intro conjI)
    show "ms_cnt ?y = int (length ((C(m := C m @ [psi])) m) + card (woken L x) + length (ms_holders ?y))"
      using I(5) by simp
    show "card (woken L x) + length (ms_holders ?y) = 0 \<longrightarrow> (C(m := C m @ [psi])) m = []"
    proof -
      have "card (woken L x) + length (ms_holders x) \<noteq> 0"
      proof
        assume z: "card (woken L x) + length (ms_holders x) = 0"
        then have "C m = []" by (rule I(7))
        with z I(5) True show False by simp
      qed
      then show ?thesis by simp
    qed
    show "card (woken L x) + length (ms_holders ?y) \<le> 1" using I(6) by simp
    show "sync_rep (ms_sync ?y) L (C(m := C m @ [psi]))" using t(2) by simp
    show "\<forall>n\<in>set ((C(m := C m @ [psi])) m). n \<in> dom (ms_waits ?y) \<and> (\<forall>k. n \<notin> set (L k))"
      using I(2) fresh by auto
    show "\<forall>n\<in>dom (ms_waits ?y). n \<in> set ((C(m := C m @ [psi])) m) \<or> n \<in> set (L ActiveList)"
      using I(3) by auto
    show "\<forall>n\<in>dom (ms_waits ?y). \<forall>c. c \<noteq> m \<longrightarrow> n \<notin> set ((C(m := C m @ [psi])) c)"
      using I(4) fresh by auto
  qed
  with l show ?thesis by auto
next
  case False
  note I = mutex_invD [OF inv]
  have l: "got = True" "s' = ms_sync x" "n' = ms_cnt x + 1" using lock False by (simp_all add: CoLock_def)
  have z: "length (C m) = 0" "card (woken L x) = 0" "length (ms_holders x) = 0" using I(5) False by linarith+
  let ?y = "x\<lparr>ms_sync := ms_sync x, ms_cnt := ms_cnt x + 1, ms_waits := ms_waits x,
    ms_holders := ms_holders x @ [co]\<rparr>"
  have w: "woken L ?y = woken L x" by (simp add: woken_def)
  have "mutex_inv m ?y L C" using I z unfolding mutex_inv_def w by simp
  with l show ?thesis by auto
qed

lemma unlock_inv:
  assumes inv: "mutex_inv m x L C" and co: "co \<in> set (ms_holders x)"
    and unlock: "CoUnLock m (ms_sync x, ms_cnt x) = Some (s', n')"
  shows "\<exists>L' C'. mutex_inv m (x\<lparr>ms_sync := s', ms_cnt := n', ms_holders := remove1 co (ms_holders x)\<rparr>) L' C'"
proof -
  note I = mutex_invD [OF inv]
  have "length (ms_holders x) \<noteq> 0" using co by auto
  then have z: "length (ms_holders x) = 1" "card (woken L x) = 0" using I(6) by linarith+
  then have h: "remove1 co (ms_holders x) = []" using co by (cases "ms_holders x") auto
  have w0: "woken L x = {}" using z(2) by simp
  obtain t where t: "co_cond_signal m (ms_sync x) = Some t"
    "case C m of [] \<Rightarrow> t = ms_sync x | p # ps \<Rightarrow> sync_rep t (detach [p] L) (C(m := ps))"
    using co_cond_signal_spec [OF I(1)] by blast
  have l: "s' = t" "n' = ms_cnt x - 1" using unlock t(1) by (simp_all add: CoUnLock_def)
  let ?y = "x\<lparr>ms_sync := t, ms_cnt := ms_cnt x - 1, ms_holders := []\<rparr>"
  have "\<exists>L' C'. mutex_inv m ?y L' C'"
  proof (cases "C m")
    case Nil
    have "woken L ?y = {}" using w0 by (simp add: woken_def)
    then have "mutex_inv m ?y L C" using I z t(2) Nil unfolding mutex_inv_def by simp
    then show ?thesis by blast
  next
    case (Cons p ps)
    let ?L = "detach [p] L" and ?C = "C(m := ps)"
    have p: "p \<in> dom (ms_waits x)" "\<forall>k. p \<notin> set (L k)" using I(2) [of p] Cons by auto
    have pps: "p \<notin> set ps"
      using links.rep_distinct [OF sync_repD(2) [OF I(1)], of m] unfolding Cons by simp
    have mem: "n \<in> set (?L k) \<longleftrightarrow> n \<in> set (L k) \<or> n = p \<and> k = ActiveList" for n k
      using p(2) by (auto simp: detach_def)
    have "woken ?L ?y = {p}" using w0 p(1) mem by (auto simp: woken_def)
    then have c: "card (woken ?L ?y) = 1" by simp
    have "mutex_inv m ?y ?L ?C"
      unfolding mutex_inv_def c
    proof (intro conjI)
      show "sync_rep (ms_sync ?y) ?L ?C" using t(2) Cons by simp
      show "\<forall>n\<in>set (?C m). n \<in> dom (ms_waits ?y) \<and> (\<forall>k. n \<notin> set (?L k))"
      proof
        fix n assume n: "n \<in> set (?C m)"
        then have "n \<in> set (C m)" "n \<noteq> p" using Cons pps by auto
        then show "n \<in> dom (ms_waits ?y) \<and> (\<forall>k. n \<notin> set (?L k))" using I(2) mem by simp
      qed
      show "\<forall>n\<in>dom (ms_waits ?y). n \<in> set (?C m) \<or> n \<in> set (?L ActiveList)"
      proof
        fix n assume "n \<in> dom (ms_waits ?y)"
        then have "n \<in> set (C m) \<or> n \<in> set (L ActiveList)" using I(3) by simp
        then show "n \<in> set (?C m) \<or> n \<in> set (?L ActiveList)" unfolding mem Cons by auto
      qed
      show "\<forall>n\<in>dom (ms_waits ?y). \<forall>c. c \<noteq> m \<longrightarrow> n \<notin> set (?C c)" using I(4) by simp
      show "ms_cnt ?y = int (length (?C m) + 1 + length (ms_holders ?y))" using I(5) z Cons by simp
    qed simp_all
    then show ?thesis by blast
  qed
  with l h show ?thesis by simp
qed

lemma wake_inv:
  assumes inv: "mutex_inv m x L C" and L: "L ActiveList = psi # ns" and w: "ms_waits x psi = Some co"
    and t: "timedwait_end psi ((ms_sync x)\<lparr>lnk := PopHead ActiveList (lnk (ms_sync x))\<rparr>) = Some t"
  shows "mutex_inv m (x\<lparr>ms_sync := t, ms_waits := (ms_waits x)(psi := None),
      ms_holders := ms_holders x @ [co]\<rparr>) (L(ActiveList := ns)) C \<and> ms_holders x = []"
proof -
  note I = mutex_invD [OF inv]
  let ?L = "L(ActiveList := ns)"
  let ?y = "x\<lparr>ms_sync := t, ms_waits := (ms_waits x)(psi := None), ms_holders := ms_holders x @ [co]\<rparr>"
  have "psi \<in> woken L x" using w L by (auto simp: woken_def)
  then have one: "card (woken L x) = 1" "ms_holders x = []"
    using I(6) card_0_eq [OF finite_woken, of L x] by (cases "card (woken L x)", auto)+
  then have wk: "woken L x = {psi}" using \<open>psi \<in> woken L x\<close> by (metis card_1_singletonE singletonD)
  have "sync_rep ((ms_sync x)\<lparr>lnk := PopHead ActiveList (lnk (ms_sync x))\<rparr>) ?L C"
    using links.pop_any [OF sync_repD(1) [OF I(1)], of ActiveList] sync_repD(2) [OF I(1)]
    by (simp add: sync_rep_def L)
  from timedwait_end_spec [OF this, of psi] t
  have rt: "sync_rep t ?L (\<lambda>c. remove1 psi (C c))" by auto
  have nc: "psi \<notin> set (C c)" for c
  proof (cases "c = m")
    case True
    show ?thesis using I(2) [of psi] L unfolding True by (metis list.set_intros(1))
  qed (use I(4) w in auto)
  then have "(\<lambda>c. remove1 psi (C c)) = C" by (auto simp: fun_eq_iff remove1_idem)
  with rt have rt: "sync_rep t ?L C" by simp
  have "woken ?L ?y \<subseteq> woken L x - {psi}" using L by (auto simp: woken_def split: if_splits)
  then have w0: "woken ?L ?y = {}" using wk by simp
  have "mutex_inv m ?y ?L C"
    unfolding mutex_inv_def w0
  proof (intro conjI)
    show "sync_rep (ms_sync ?y) ?L C" using rt by simp
    show "\<forall>n\<in>set (C m). n \<in> dom (ms_waits ?y) \<and> (\<forall>k. n \<notin> set (?L k))"
    proof
      fix n assume n: "n \<in> set (C m)"
      have "n \<noteq> psi" using n nc by blast
      moreover have "n \<notin> set ns" using I(2) [OF n] L by (metis list.set_intros(2))
      ultimately show "n \<in> dom (ms_waits ?y) \<and> (\<forall>k. n \<notin> set (?L k))" using I(2) [OF n] by auto
    qed
    show "\<forall>n\<in>dom (ms_waits ?y). n \<in> set (C m) \<or> n \<in> set (?L ActiveList)"
      using I(3) L by (auto split: if_splits)
    show "\<forall>n\<in>dom (ms_waits ?y). \<forall>c. c \<noteq> m \<longrightarrow> n \<notin> set (C c)" using I(4) by auto
    show "ms_cnt ?y = int (length (C m) + card {} + length (ms_holders ?y))" using I(5) one by simp
  qed (use one in simp_all)
  with one(2) show ?thesis by simp
qed

lemma other_inv:
  assumes inv: "mutex_inv m x L C" and t: "sync_rep t L' C'" "C' m = C m"
    and same: "\<forall>n \<in> dom (ms_waits x). (\<forall>k. n \<in> set (L' k) \<longleftrightarrow> n \<in> set (L k)) \<and>
      (\<forall>c. n \<in> set (C' c) \<longleftrightarrow> n \<in> set (C c))"
  shows "mutex_inv m (x\<lparr>ms_sync := t\<rparr>) L' C'"
proof -
  note I = mutex_invD [OF inv]
  have "woken L' (x\<lparr>ms_sync := t\<rparr>) = woken L x" using same by (auto simp: woken_def)
  then show ?thesis using I t same unfolding mutex_inv_def by simp
qed

lemma mutex_step_inv:
  assumes "mutex_step m x y" "mutex_inv m x L C"
  shows "\<exists>L' C'. mutex_inv m y L' C'"
  using assms(1)
proof (cases rule: mutex_step.cases)
  case (lock L1 C1 psi co now got s' n')
  then show ?thesis
    using lock_inv [OF assms(2)] sync_rep_fun [OF mutex_invD(1) [OF assms(2)] lock(2)] by metis
next
  case (unlock co s' n')
  then show ?thesis using unlock_inv [OF assms(2)] by simp
next
  case (wake L1 psi ns co t)
  have "L1 = L" by (rule represents_fun [OF wake(2) sync_repD(1) [OF mutex_invD(1) [OF assms(2)]]])
  have "mutex_inv m y (L(ActiveList := ns)) C"
    unfolding wake(1) using wake_inv [OF assms(2) _ wake(4,5)] wake(3) \<open>L1 = L\<close> by blast
  then show ?thesis by (intro exI)
next
  case (other L1 C1 t L2 C2)
  then show ?thesis
    using other_inv [OF assms(2)] sync_rep_fun [OF mutex_invD(1) [OF assms(2)] other(2)] by metis
qed

lemma mutex_reach_inv: "mutex_reach m x \<Longrightarrow> \<exists>L C. mutex_inv m x L C"
proof (induction rule: mutex_reach.induct)
  case (init x L C)
  have "woken L x = {}" using init by (simp add: woken_def)
  then have "mutex_inv m x L C" using init by (simp add: mutex_inv_def)
  then show ?case by blast
next
  case (step x y)
  then obtain L C where "mutex_inv m x L C" by auto
  from mutex_step_inv [OF step(2) this] show ?case .
qed

section \<open>Properties\<close>

text \<open>C9
  Mutual exclusion and no lost wake-up: in every state the coroutines reach with \<open>CoLock\<close>,
  \<open>CoUnLock\<close>, the event loop and anything else the thread does, at most one coroutine holds the
  mutex, the counter is the number of coroutines that hold it, were woken or are queued, and nobody
  is queued unless the mutex is held or the head of the queue has already been woken.\<close>

theorem mutex_exclusive:
  assumes "mutex_reach m x"
  shows "length (ms_holders x) \<le> 1 \<and>
    (\<exists>L C. sync_rep (ms_sync x) L C \<and>
       ms_cnt x = int (length (C m) + card (woken L x) + length (ms_holders x)) \<and>
       (C m \<noteq> [] \<longrightarrow> ms_holders x \<noteq> [] \<or> (\<exists>n \<in> set (L ActiveList). n \<in> dom (ms_waits x))) \<and>
       (ms_holders x \<noteq> [] \<longrightarrow> (\<forall>n \<in> set (L ActiveList). n \<notin> dom (ms_waits x))))"
proof -
  obtain L C where inv: "mutex_inv m x L C" using mutex_reach_inv [OF assms] by auto
  note I = mutex_invD [OF inv]
  have le: "length (ms_holders x) \<le> 1" using I(6) by linarith
  have a: "\<exists>n \<in> set (L ActiveList). n \<in> dom (ms_waits x)" if "C m \<noteq> []" "ms_holders x = []"
  proof -
    have "card (woken L x) \<noteq> 0" using I(7) that by auto
    then have "woken L x \<noteq> {}" by auto
    then show ?thesis by (auto simp: woken_def)
  qed
  have b: "\<forall>n \<in> set (L ActiveList). n \<notin> dom (ms_waits x)" if "ms_holders x \<noteq> []"
  proof -
    have "length (ms_holders x) \<noteq> 0" using that by simp
    then have "card (woken L x) = 0" using I(6) by linarith
    then have "woken L x = {}" by simp
    then show ?thesis by (auto simp: woken_def)
  qed
  show ?thesis
  proof (rule conjI [OF le], rule exI [of _ L], rule exI [of _ C], intro conjI impI)
    show "ms_holders x \<noteq> [] \<or> (\<exists>n \<in> set (L ActiveList). n \<in> dom (ms_waits x))" if "C m \<noteq> []"
      using a [OF that] by blast
  qed (use I(1,5) b in blast)+
qed

text \<open>\<open>co_cond_signal\<close> wakes the coroutine that has waited longest: the first item leaves the condition
  variable and becomes the last of the active list, taken out of the timeout ring if it was there;
  a signal with no waiter changes nothing.\<close>

theorem cond_signal_fifo:
  assumes "sync_rep s L C"
  shows "(C si = [] \<longrightarrow> co_cond_signal si s = Some s) \<and>
    (\<forall>p ps. C si = p # ps \<longrightarrow> (\<exists>t L'. co_cond_signal si s = Some t \<and> sync_rep t L' (C(si := ps)) \<and>
       L' ActiveList = filter (\<lambda>n. n \<noteq> p) (L ActiveList) @ [p] \<and> (\<forall>i. p \<notin> set (L' (Slot i)))))"
proof (intro conjI allI impI)
  show "co_cond_signal si s = Some s" if "C si = []"
    using co_cond_signal_spec [OF assms, of si] that by auto
  fix p ps assume C: "C si = p # ps"
  obtain t where "co_cond_signal si s = Some t" "sync_rep t (detach [p] L) (C(si := ps))"
    using co_cond_signal_spec [OF assms, of si] C by auto
  moreover have "detach [p] L ActiveList = filter (\<lambda>n. n \<noteq> p) (L ActiveList) @ [p]"
    "\<forall>i. p \<notin> set (detach [p] L (Slot i))" by (auto simp: detach_def)
  ultimately show "\<exists>t L'. co_cond_signal si s = Some t \<and> sync_rep t L' (C(si := ps)) \<and>
       L' ActiveList = filter (\<lambda>n. n \<noteq> p) (L ActiveList) @ [p] \<and> (\<forall>i. p \<notin> set (L' (Slot i)))"
    by blast
qed

text \<open>\<open>co_cond_broadcast\<close> ends, empties the condition variable and moves all its waiters, in the order in
  which they came, behind the active list.\<close>

theorem cond_broadcast_all:
  assumes "sync_rep s L C"
  shows "\<exists>t L'. co_cond_broadcast si s = Some t \<and> sync_rep t L' (C(si := [])) \<and>
    L' ActiveList = filter (\<lambda>n. n \<notin> set (C si)) (L ActiveList) @ C si \<and>
    (\<forall>i. set (L' (Slot i)) = set (L (Slot i)) - set (C si))"
proof -
  obtain t where "co_cond_broadcast si s = Some t" "sync_rep t (detach (C si) L) (C(si := []))"
    using co_cond_broadcast_spec [OF assms] by blast
  moreover have "detach (C si) L ActiveList = filter (\<lambda>n. n \<notin> set (C si)) (L ActiveList) @ C si"
    "\<forall>i. set (detach (C si) L (Slot i)) = set (L (Slot i)) - set (C si)" by (auto simp: detach_def)
  ultimately show ?thesis by blast
qed

section \<open>Concrete runs\<close>

definition demo_sync :: "(nat, nat, nat) sync" where
  "demo_sync = stCoEpoll.extend (stCoEpoll.truncate (demo_loop\<lparr>lnk := empty_links\<rparr>)) \<lparr>clnk = empty_links\<rparr>"

lemma demo_sync_rep: "sync_rep demo_sync (\<lambda>_. []) (\<lambda>_. [])"
  by (simp add: sync_rep_def demo_sync_def stCoEpoll.defs represents_empty)

text \<open>Coroutine 10 locks the mutex 5, coroutine 11 has to wait with the condition item 1, and
  coroutine 12 with the item 2.\<close>

abbreviation demo_mutex :: "(nat, nat, nat) mutex_state" where
  "demo_mutex \<equiv> \<lparr>ms_sync = demo_sync, ms_cnt = 0, ms_waits = Map.empty, ms_holders = []\<rparr>"

lemma demo_waits:
  "\<exists>s :: (nat, nat, nat) sync. sync_rep s (\<lambda>_. []) ((\<lambda>_. [])(5 := [1, 2])) \<and>
    mutex_reach 5 \<lparr>ms_sync = s, ms_cnt = 3, ms_waits = [1 \<mapsto> 11, 2 \<mapsto> 12], ms_holders = [10]\<rparr>"
proof -
  have r0: "mutex_reach 5 demo_mutex" 
    by (rule mutex_reach.init [where L = "\<lambda>_. []" and C = "\<lambda>_. []"]) (simp_all add: demo_sync_rep)
  have "mutex_step 5 demo_mutex (demo_mutex\<lparr>ms_sync := demo_sync, ms_cnt := 1,
      ms_waits := (if True then ms_waits demo_mutex else (ms_waits demo_mutex)(1 \<mapsto> 10)),
      ms_holders := (if True then ms_holders demo_mutex @ [10] else ms_holders demo_mutex)\<rparr>)"
    by (rule mutex_step.lock [where L = "\<lambda>_. []" and C = "\<lambda>_. []"])
      (simp_all add: demo_sync_rep CoLock_def)
  with r0 have r1: "mutex_reach 5 (demo_mutex\<lparr>ms_cnt := 1, ms_holders := [10]\<rparr>)"
    using mutex_reach.step by fastforce
  let ?x1 = "demo_mutex\<lparr>ms_cnt := 1, ms_holders := [10]\<rparr>"
  obtain t where t: "timedwait_begin 5 (- 1) 1 11 0 demo_sync = (0, t)"
    "sync_rep t (\<lambda>_. []) ((\<lambda>_. [])(5 := [1]))"
    using timedwait_begin_untimed [OF demo_sync_rep, of 1 "- 1" 5 11 0] by auto
  have "mutex_step 5 ?x1 (?x1\<lparr>ms_sync := t, ms_cnt := 2,
      ms_waits := (if False then ms_waits ?x1 else (ms_waits ?x1)(1 \<mapsto> 11)),
      ms_holders := (if False then ms_holders ?x1 @ [11] else ms_holders ?x1)\<rparr>)"
    by (rule mutex_step.lock [where L = "\<lambda>_. []" and C = "\<lambda>_. []" and now = 0])
      (simp_all add: demo_sync_rep CoLock_def t(1) del: One_nat_def)
  with r1 have r2: "mutex_reach 5 (?x1\<lparr>ms_sync := t, ms_cnt := 2, ms_waits := [1 \<mapsto> 11]\<rparr>)"
    using mutex_reach.step by fastforce
  let ?x2 = "?x1\<lparr>ms_sync := t, ms_cnt := 2, ms_waits := [1 \<mapsto> 11]\<rparr>"
  obtain u where u: "timedwait_begin 5 (- 1) 2 12 0 t = (0, u)"
    "sync_rep u (\<lambda>_. []) (((\<lambda>_. [])(5 := [1]))(5 := ((\<lambda>_. [])(5 := [1])) 5 @ [2]))"
    using timedwait_begin_untimed [OF t(2), of 2 "- 1" 5 12 0] by auto
  have "mutex_step 5 ?x2 (?x2\<lparr>ms_sync := u, ms_cnt := 3,
      ms_waits := (if False then ms_waits ?x2 else (ms_waits ?x2)(2 \<mapsto> 12)),
      ms_holders := (if False then ms_holders ?x2 @ [12] else ms_holders ?x2)\<rparr>)"
    by (rule mutex_step.lock [where L = "\<lambda>_. []" and C = "(\<lambda>_. [])(5 := [1])" and now = 0])
      (simp_all add: t(2) CoLock_def u(1) del: One_nat_def)
  with r2 have "mutex_reach 5 (?x2\<lparr>ms_sync := u, ms_cnt := 3, ms_waits := [1 \<mapsto> 11, 2 \<mapsto> 12]\<rparr>)"
    using mutex_reach.step by fastforce
  then have "mutex_reach 5 \<lparr>ms_sync = u, ms_cnt = 3, ms_waits = [1 \<mapsto> 11, 2 \<mapsto> 12], ms_holders = [10]\<rparr>"
    by simp
  moreover have "sync_rep u (\<lambda>_. []) ((\<lambda>_. [])(5 := [1, 2]))" using u(2) by simp
  ultimately show ?thesis by blast
qed

theorem mutex_exclusive_witness:
  "\<exists>x :: (nat, nat, nat) mutex_state. mutex_reach 5 x \<and> ms_holders x = [10] \<and> ms_cnt x = 3 \<and>
     length (ms_holders x) \<le> 1"
proof -
  obtain s :: "(nat, nat, nat) sync" where
    s: "mutex_reach 5 \<lparr>ms_sync = s, ms_cnt = 3, ms_waits = [1 \<mapsto> 11, 2 \<mapsto> 12], ms_holders = [10]\<rparr>"
    (is "mutex_reach 5 ?x") using demo_waits by blast
  have "length (ms_holders ?x) \<le> 1" using mutex_exclusive [OF s] by blast
  with s show ?thesis by (intro exI [of _ ?x]) simp
qed

theorem cond_signal_fifo_witness:
  "\<exists>s t :: (nat, nat, nat) sync. co_cond_signal 5 s = Some t \<and>
     (\<exists>L'. sync_rep t L' ((\<lambda>_. [])(5 := [2])) \<and> L' ActiveList = [1])"
proof -
  obtain s :: "(nat, nat, nat) sync" where s: "sync_rep s (\<lambda>_. []) ((\<lambda>_. [])(5 := [1, 2]))"
    using demo_waits by blast
  from cond_signal_fifo [OF s, of 5] obtain t L' where
    "co_cond_signal 5 s = Some t" "sync_rep t L' (((\<lambda>_. [])(5 := [1, 2]))(5 := [2]))" "L' ActiveList = [1]"
    by auto
  then show ?thesis by auto
qed

theorem cond_broadcast_all_witness:
  "\<exists>s t :: (nat, nat, nat) sync. co_cond_broadcast 5 s = Some t \<and>
     (\<exists>L' C'. sync_rep t L' C' \<and> L' ActiveList = [1, 2])"
proof -
  obtain s :: "(nat, nat, nat) sync" where s: "sync_rep s (\<lambda>_. []) ((\<lambda>_. [])(5 := [1, 2]))"
    using demo_waits by blast
  from cond_broadcast_all [OF s, of 5] obtain t L' where
    "co_cond_broadcast 5 s = Some t" "sync_rep t L' (((\<lambda>_. [])(5 := [1, 2]))(5 := []))" "L' ActiveList = [1, 2]"
    by auto
  then show ?thesis by blast
qed

end
