(* ===== verification/Hook_Dns.thy ===== *)
theory Hook_Dns
  imports Prelude "HOL-Library.Monad_Syntax"
begin

text \<open>
  Data of a coroutine and name resolution: \<open>co_getspecific\<close> and \<open>co_setspecific\<close> of
  \<open>src/coroutine/co_routine.cpp\<close>, the accessor that the macro \<open>CO_ROUTINE_SPECIFIC\<close> of
  \<open>co_routine_specific.h\<close> makes, and on top of it \<open>gethostbyname\<close> of \<open>co_hook_sys_call.cpp\<close>, which gives
  each coroutine its own result buffer and doubles it until the answer fits. The lemmas show that the
  loop ends with a buffer of bounded size, and that a lookup of one coroutine leaves the results of
  the others alone.
\<close>

section \<open>Data of a coroutine\<close>

text \<open>The running coroutine (none before the thread has its environment), which coroutine is the main one,
  and the values under the keys of coroutines and of the thread. A value that the code keeps behind a
  pointer is kept here itself, as its owner is the only one to have the pointer.\<close>

record ('c, 'v) spec_state =
  curr_co :: "'c option"
  is_main :: "'c \<Rightarrow> bool"
  aSpec :: "'c \<Rightarrow> nat \<Rightarrow> 'v option"
  pthread_spec :: "nat \<Rightarrow> 'v option"

text \<open>The array of a coroutine has 1024 elements.\<close>

abbreviation (input) "spec_size \<equiv> (1024 :: nat)"

text \<open>The coroutine whose array is used: none for the main coroutine.\<close>

definition spec_owner :: "('c, 'v) spec_state \<Rightarrow> 'c option" where
  "spec_owner s = (case curr_co s of None \<Rightarrow> None | Some co \<Rightarrow> if is_main s co then None else Some co)"

definition co_getspecific :: "nat \<Rightarrow> ('c, 'v) spec_state \<Rightarrow> 'v option option" where
  "co_getspecific key s =
     (case spec_owner s of
        None \<Rightarrow> Some (pthread_spec s key)
      | Some co \<Rightarrow> if key < spec_size then Some (aSpec s co key) else None)"

definition co_setspecific :: "nat \<Rightarrow> 'v \<Rightarrow> ('c, 'v) spec_state \<Rightarrow> (int \<times> ('c, 'v) spec_state) option" where
  "co_setspecific key value s =
     (case spec_owner s of
        None \<Rightarrow> Some (0, s\<lparr>pthread_spec := (pthread_spec s)(key \<mapsto> value)\<rparr>)
      | Some co \<Rightarrow>
          if key < spec_size then Some (0, s\<lparr>aSpec := (aSpec s)(co := (aSpec s co)(key \<mapsto> value))\<rparr>) else None)"

text \<open>The accessor: the first access of a coroutine makes a zeroed object.\<close>

definition routine_data :: "nat \<Rightarrow> 'v \<Rightarrow> ('c, 'v) spec_state \<Rightarrow> ('v option \<times> ('c, 'v) spec_state) option" where
  "routine_data key zeroed s = do {
     p \<leftarrow> co_getspecific key s;
     (case p of
        Some v \<Rightarrow> Some (Some v, s)
      | None \<Rightarrow> do {
          (ret, s1) \<leftarrow> co_setspecific key zeroed s;
          Some (if ret \<noteq> 0 then None else Some zeroed, s1)
        })
   }"

section \<open>Name resolution\<close>

text \<open>\<open>hostbuf_wrap\<close>: the entry of the last lookup, whether there is a buffer, and its size.\<close>

record 'h hostbuf_wrap =
  host :: "'h option"
  buffer :: bool
  iBufferSize :: u64
  host_errno :: int

definition zero_hostbuf :: "'h hostbuf_wrap" where
  "zero_hostbuf = \<lparr>host = None, buffer = False, iBufferSize = 0, host_errno = 0\<rparr>"

abbreviation (input) "ERANGE \<equiv> (34 :: int)"
abbreviation (input) "NETDB_INTERNAL \<equiv> (- 1 :: int)"

text \<open>\<open>gethostbyname_r\<close> on a name and a buffer size: its return value, the entry when the result pointer is
  set, and \<open>*h_errnop\<close>. The hooked function calls the one of the C library under a mutex of the thread.\<close>

type_synonym ('h, 'd) resolver = "string \<Rightarrow> u64 \<Rightarrow> 'd \<Rightarrow> (int \<times> 'h option \<times> int) \<times> 'd"

text \<open>The loop: the return value it ends with is the one of the comparison, which is 0.\<close>

partial_function (option) resolve_loop ::
  "('h, 'd) resolver \<Rightarrow> string \<Rightarrow> 'h hostbuf_wrap \<Rightarrow> 'd \<Rightarrow> ('h option \<times> 'h hostbuf_wrap \<times> 'd) option" where
  "resolve_loop gethostbyname_r name w d =
     (case gethostbyname_r name (iBufferSize w) d of
        ((ret, result, err), d1) \<Rightarrow>
          let w1 = w\<lparr>host_errno := err, host := (if result = None then host w else result)\<rparr>
          in if ret = ERANGE \<and> err = NETDB_INTERNAL
             then resolve_loop gethostbyname_r name (w1\<lparr>iBufferSize := iBufferSize w1 * 2\<rparr>) d1
             else Some (result, w1, d1))"

definition fresh_buffer :: "'h hostbuf_wrap \<Rightarrow> 'h hostbuf_wrap" where
  "fresh_buffer w =
     (let w1 = (if buffer w \<and> 1024 < iBufferSize w then w\<lparr>buffer := False\<rparr> else w)
      in if \<not> buffer w1 then w1\<lparr>buffer := True, iBufferSize := 1024\<rparr> else w1)"

definition co_gethostbyname ::
  "('h, 'd) resolver \<Rightarrow> nat \<Rightarrow> string option \<Rightarrow> ('c, 'h hostbuf_wrap) spec_state \<Rightarrow> 'd \<Rightarrow>
    ('h option \<times> ('c, 'h hostbuf_wrap) spec_state \<times> 'd) option" where
  "co_gethostbyname gethostbyname_r key name s d =
     (case name of
        None \<Rightarrow> Some (None, s, d)
      | Some n \<Rightarrow> do {
          (p, s1) \<leftarrow> routine_data key zero_hostbuf s;
          w \<leftarrow> p;
          (result, w1, d1) \<leftarrow> resolve_loop gethostbyname_r n (fresh_buffer w) d;
          (_, s2) \<leftarrow> co_setspecific key w1 s1;
          Some (result, s2, d1)
        })"

definition gethostbyname ::
  "bool \<Rightarrow> (string option \<Rightarrow> 'd \<Rightarrow> 'h option \<times> 'd) \<Rightarrow> ('h, 'd) resolver \<Rightarrow> nat \<Rightarrow> string option \<Rightarrow>
    ('c, 'h hostbuf_wrap) spec_state \<Rightarrow> 'd \<Rightarrow> ('h option \<times> ('c, 'h hostbuf_wrap) spec_state \<times> 'd) option" where
  "gethostbyname hook sys_gethostbyname gethostbyname_r key name s d =
     (if \<not> hook then (case sys_gethostbyname name d of (res, d1) \<Rightarrow> Some (res, s, d1))
      else co_gethostbyname gethostbyname_r key name s d)"

text \<open>\<open>__res_state\<close>: the state of the resolver is the one of the C library (\<open>None\<close>), or with the hooks on
  an object of the running coroutine; the address of an object is given by its owner, no coroutine for
  the one of the thread.\<close>

definition res_state ::
  "bool \<Rightarrow> nat \<Rightarrow> 'v \<Rightarrow> ('c, 'v) spec_state \<Rightarrow> (('c option \<times> 'v) option \<times> ('c, 'v) spec_state) option" where
  "res_state hook key zeroed s =
     (if \<not> hook then Some (None, s)
      else do {
        (p, s1) \<leftarrow> routine_data key zeroed s;
        v \<leftarrow> p;
        Some (Some (spec_owner s1, v), s1)
      })"

section \<open>Data stays with its owner\<close>

text \<open>\<open>co_setspecific\<close> changes the value of the running coroutine under its key, which is read back, and
  nothing else.\<close>

definition only_owner :: "nat \<Rightarrow> ('c, 'v) spec_state \<Rightarrow> ('c, 'v) spec_state \<Rightarrow> bool" where
  "only_owner key s t \<longleftrightarrow>
     curr_co t = curr_co s \<and> is_main t = is_main s \<and>
     (\<forall>co k. spec_owner s \<noteq> Some co \<or> k \<noteq> key \<longrightarrow> aSpec t co k = aSpec s co k) \<and>
     (\<forall>k. spec_owner s \<noteq> None \<or> k \<noteq> key \<longrightarrow> pthread_spec t k = pthread_spec s k)"

lemma only_owner_refl [simp]: "only_owner key s s"
  by (simp add: only_owner_def)

lemma only_owner_same: "only_owner key s t \<Longrightarrow> spec_owner t = spec_owner s"
  by (auto simp: only_owner_def spec_owner_def split: option.split)

lemma only_owner_trans: "only_owner key s t \<Longrightarrow> only_owner key t u \<Longrightarrow> only_owner key s u"
  using only_owner_same [of key s t] by (auto simp: only_owner_def)

lemma setspecific_owner:
  assumes "co_setspecific key v s = Some (r, t)"
  shows "only_owner key s t" and "co_getspecific key t = Some (Some v)" and "r = 0"
  using assms
  by (auto simp: co_setspecific_def co_getspecific_def only_owner_def spec_owner_def
      split: option.splits if_splits)

lemma setspecific_some: "spec_owner s = None \<or> key < spec_size \<Longrightarrow> \<exists>t. co_setspecific key v s = Some (0, t)"
  by (auto simp: co_setspecific_def split: option.split)

lemma routine_data_some:
  assumes "spec_owner s = None \<or> key < spec_size"
  shows "\<exists>v t. routine_data key z s = Some (Some v, t) \<and> only_owner key s t"
proof -
  have "co_getspecific key s \<noteq> None"
    using assms by (auto simp: co_getspecific_def split: option.splits)
  then obtain p where p: "co_getspecific key s = Some p" by blast
  obtain t where t: "co_setspecific key z s = Some (0, t)" using setspecific_some [OF assms] by blast
  show ?thesis
    using p t setspecific_owner(1) [OF t] by (cases p) (auto simp: routine_data_def)
qed

text \<open>A coroutine always gets the same object, which no other coroutine gets or touches.\<close>

lemma res_state_own:
  assumes "spec_owner s = None \<or> key < spec_size"
  shows "\<exists>v t. res_state True key z s = Some (Some (spec_owner s, v), t) \<and> only_owner key s t \<and>
    res_state True key z t = Some (Some (spec_owner s, v), t)"
proof -
  obtain v t where t: "routine_data key z s = Some (Some v, t)" "only_owner key s t"
    using routine_data_some [OF assms] by blast
  have "co_getspecific key t = Some (Some v)"
    using t(1) by (auto simp: routine_data_def bind_eq_Some_conv dest: setspecific_owner(2)
      split: option.splits if_splits)
  then have "routine_data key z t = Some (Some v, t)" by (simp add: routine_data_def)
  then show ?thesis using t only_owner_same [OF t(2)] by (simp add: res_state_def)
qed

section \<open>The loop ends\<close>

text \<open>A resolver that never finds a buffer of \<open>n\<close> bytes too small.\<close>

definition fits :: "('h, 'd) resolver \<Rightarrow> string \<Rightarrow> nat \<Rightarrow> bool" where
  "fits gethostbyname_r name n \<longleftrightarrow>
     (\<forall>sz d. n \<le> unat sz \<longrightarrow> fst (fst (gethostbyname_r name sz d)) \<noteq> ERANGE)"

lemma double_size:
  assumes "unat (sz :: u64) = 2 ^ k" "k < 63"
  shows "unat (sz * 2) = 2 ^ Suc k"
proof -
  have "2 * 2 ^ k < (2 :: nat) ^ 64"
    using power_strict_increasing [of "Suc k" 64 "2 :: nat"] assms(2) by simp
  then show ?thesis using assms(1) by (simp add: unat_word_ariths mult.commute)
qed

lemma resolve_loop_ends:
  assumes "fits gethostbyname_r name n" "n \<le> 2 ^ 63"
  shows "unat (iBufferSize w) = 2 ^ k \<Longrightarrow> k \<le> 63 \<Longrightarrow> 2 ^ k < max m (2 * n) \<Longrightarrow> buffer w \<Longrightarrow>
    \<exists>res w1 d1. resolve_loop gethostbyname_r name w d = Some (res, w1, d1) \<and> buffer w1 \<and>
      2 ^ k \<le> unat (iBufferSize w1) \<and> unat (iBufferSize w1) < max m (2 * n)"
proof (induction "63 - k" arbitrary: k w d rule: less_induct)
  case less
  obtain ret result err d1 where g: "gethostbyname_r name (iBufferSize w) d = ((ret, result, err), d1)"
    by (metis prod.collapse)
  let ?w1 = "w\<lparr>host_errno := err, host := (if result = None then host w else result)\<rparr>"
  note unfold = resolve_loop.simps [of gethostbyname_r name w d]
  show ?case
  proof (cases "ret = ERANGE \<and> err = NETDB_INTERNAL")
    case False
    then have "resolve_loop gethostbyname_r name w d = Some (result, ?w1, d1)"
      using g by (auto simp: unfold Let_def)
    then show ?thesis using less.prems by simp
  next
    case True
    have small: "2 ^ k < n"
    proof (rule ccontr)
      assume "\<not> 2 ^ k < n"
      then have "n \<le> unat (iBufferSize w)" using less.prems(1) by simp
      then have "fst (fst (gethostbyname_r name (iBufferSize w) d)) \<noteq> ERANGE"
        using assms(1) unfolding fits_def by blast
      then show False using g True by simp
    qed
    then have "(2 :: nat) ^ k < 2 ^ 63" using assms(2) by linarith
    then have k: "k < 63" using power_less_imp_less_exp [of "2 :: nat" k 63] by simp
    let ?w2 = "?w1\<lparr>iBufferSize := iBufferSize ?w1 * 2\<rparr>"
    have "unat (iBufferSize ?w2) = 2 ^ Suc k" using double_size [OF less.prems(1) k] by simp
    moreover have "2 ^ Suc k < max m (2 * n)" using small by simp
    ultimately have "\<exists>res w1 d2. resolve_loop gethostbyname_r name ?w2 d1 = Some (res, w1, d2) \<and> buffer w1 \<and>
        2 ^ Suc k \<le> unat (iBufferSize w1) \<and> unat (iBufferSize w1) < max m (2 * n)"
      using k less.prems(4) by (intro less.hyps) simp_all
    then obtain res w1 d2 where r: "resolve_loop gethostbyname_r name ?w2 d1 = Some (res, w1, d2)" "buffer w1"
      "2 ^ Suc k \<le> unat (iBufferSize w1)" "unat (iBufferSize w1) < max m (2 * n)" by (elim exE conjE)
    have "2 ^ k \<le> unat (iBufferSize w1)" using r(3) by simp
    moreover have "resolve_loop gethostbyname_r name w d = Some (res, w1, d2)"
      using g True r(1) by (simp add: unfold Let_def)
    ultimately show ?thesis using r(2,4) by blast
  qed
qed

lemma fresh_buffer_size:
  assumes "buffer w \<longrightarrow> 1024 \<le> iBufferSize w"
  shows "buffer (fresh_buffer w)" "iBufferSize (fresh_buffer w) = 1024"
  using assms by (auto simp: fresh_buffer_def Let_def)

text \<open>The objects under the key: a buffer that is there has at least 1024 bytes.\<close>

definition hostbufs_ok :: "nat \<Rightarrow> ('c, 'h hostbuf_wrap) spec_state \<Rightarrow> bool" where
  "hostbufs_ok key s \<longleftrightarrow>
     (\<forall>p w. co_getspecific key s = Some p \<and> p = Some w \<and> buffer w \<longrightarrow> 1024 \<le> iBufferSize w)"

lemma routine_data_ok:
  assumes "routine_data key zero_hostbuf s = Some (Some w, t)" "hostbufs_ok key s"
  shows "buffer w \<longrightarrow> 1024 \<le> iBufferSize w"
  using assms by (auto simp: routine_data_def hostbufs_ok_def zero_hostbuf_def bind_eq_Some_conv
      split: option.splits if_splits)

lemma co_gethostbyname_ends:
  assumes "fits gethostbyname_r n sz" "sz \<le> 2 ^ 63" "spec_owner s = None \<or> key < spec_size" "hostbufs_ok key s"
  shows "\<exists>res t d1 w. co_gethostbyname gethostbyname_r key (Some n) s d = Some (res, t, d1) \<and> only_owner key s t \<and>
    hostbufs_ok key t \<and> co_getspecific key t = Some (Some w) \<and> unat (iBufferSize w) < max 1025 (2 * sz)"
proof -
  obtain w s1 where r: "routine_data key zero_hostbuf s = Some (Some w, s1)" "only_owner key s s1"
    using routine_data_some [OF assms(3)] by blast
  note f = fresh_buffer_size [OF routine_data_ok [OF r(1) assms(4)]]
  have "unat (iBufferSize (fresh_buffer w)) = 2 ^ 10" by (simp add: f(2))
  from resolve_loop_ends [OF assms(1,2) this, of 1025 d] obtain res w1 d1 where
    l: "resolve_loop gethostbyname_r n (fresh_buffer w) d = Some (res, w1, d1)"
      "2 ^ 10 \<le> unat (iBufferSize w1)" "unat (iBufferSize w1) < max 1025 (2 * sz)" using f(1) by fastforce
  obtain t where t: "co_setspecific key w1 s1 = Some (0, t)"
    using setspecific_some [of s1 key w1] assms(3) only_owner_same [OF r(2)] by auto
  note o = setspecific_owner [OF t]
  have "1024 \<le> iBufferSize w1" using l(2) by (simp add: word_le_nat_alt)
  then have "hostbufs_ok key t" using o(2) by (simp add: hostbufs_ok_def)
  then show ?thesis using r l t o only_owner_trans [OF r(2) o(1)]
    by (auto simp: co_gethostbyname_def)
qed

text \<open>C30: the hooked \<open>gethostbyname\<close> returns: when the resolver of the C library is content with a buffer of
  \<open>sz\<close> bytes, the loop that doubles the buffer ends, the size never wraps, the buffer it leaves behind
  has less than twice that size (or the initial 1024 bytes), and the next lookup starts from a valid
  object again. A lookup changes the object of the running coroutine only: the answers that other
  coroutines, or the thread, have got stay as they are.\<close>

theorem gethostbyname_ends:
  assumes "fits gethostbyname_r n sz" "sz \<le> 2 ^ 63" "spec_owner s = None \<or> key < spec_size" "hostbufs_ok key s"
  shows "\<exists>res t d1 w. gethostbyname True sys gethostbyname_r key (Some n) s d = Some (res, t, d1) \<and> only_owner key s t \<and>
    hostbufs_ok key t \<and> co_getspecific key t = Some (Some w) \<and> unat (iBufferSize w) < max 1025 (2 * sz)"
  using co_gethostbyname_ends [OF assms] by (simp add: gethostbyname_def)

text \<open>A resolver whose answers need 4096 bytes, and the coroutine 1 of a thread whose main coroutine is 0.\<close>

definition demo_resolver :: "(string, nat) resolver" where
  "demo_resolver name sz d = (if sz < 4096 then ((ERANGE, None, NETDB_INTERNAL), d) else ((0, Some name, 0), Suc d))"

definition demo_spec :: "(nat, string hostbuf_wrap) spec_state" where
  "demo_spec = \<lparr>curr_co = Some 1, is_main = (\<lambda>co. co = 0), aSpec = \<lambda>_ _. None, pthread_spec = \<lambda>_. None\<rparr>"

lemma gethostbyname_ends_witness:
  "\<exists>res t d1 w. gethostbyname True (\<lambda>_ d. (None, d)) demo_resolver 3 (Some ''db'') demo_spec 0 = Some (res, t, d1) \<and>
    co_getspecific 3 t = Some (Some w) \<and> unat (iBufferSize w) < 8192"
proof -
  have "fits demo_resolver ''db'' 4096"
    by (simp add: fits_def demo_resolver_def word_less_nat_alt)
  moreover have "(4096 :: nat) \<le> 2 ^ 63" by simp
  moreover have "spec_owner demo_spec = None \<or> 3 < spec_size" "hostbufs_ok 3 demo_spec"
    by (simp_all add: hostbufs_ok_def co_getspecific_def spec_owner_def demo_spec_def)
  ultimately have "\<exists>res t d1 w. gethostbyname True (\<lambda>_ d. (None, d)) demo_resolver 3 (Some ''db'') demo_spec 0 =
      Some (res, t, d1) \<and> only_owner 3 demo_spec t \<and> hostbufs_ok 3 t \<and> co_getspecific 3 t = Some (Some w) \<and>
      unat (iBufferSize w) < max 1025 (2 * 4096)"
    by (rule gethostbyname_ends)
  then show ?thesis by auto
qed

end
