(* ===== verification/Dns_Lock.thy ===== *)
theory Dns_Lock
  imports Co_Sync Hook_Dns
begin

text \<open>
  \<open>gethostbyname_r\<close> of \<open>src/coroutine/co_hook_sys_call.cpp\<close>, through which the lookups of \<open>Hook_Dns\<close> reach
  the C library: with the hooks on, the call holds the mutex of the thread (\<open>clsSmartLock\<close> on
  \<open>clsCoMutex\<close>, in \<open>Co_Sync\<close>) for as long as the C library is at work. The library waits for the name server
  with a poll that is hooked as well, so that other coroutines run in the middle of a call, and with them
  other lookups begin. The theorem says that the library sees the calls one after the other all the same.
\<close>

section \<open>The library and the lookups in progress\<close>

text \<open>The resolver of the C library works on data \<open>'d\<close> of the process that belong to no caller. A call has a
  state \<open>'p\<close> of its own; each stretch of work ends with the yield of a poll (\<open>Inl\<close>) or with the
  answer (\<open>Inr\<close>).\<close>

type_synonym ('p, 'r, 'd) stretch = "'p \<Rightarrow> 'd \<Rightarrow> ('p + 'r) \<times> 'd"

text \<open>A call that nothing interrupts.\<close>

partial_function (option) uninterrupted :: "('p, 'r, 'd) stretch \<Rightarrow> 'p \<Rightarrow> 'd \<Rightarrow> ('r \<times> 'd) option" where
  "uninterrupted sys p d =
     (case sys p d of
        (Inl p', d') \<Rightarrow> uninterrupted sys p' d'
      | (Inr r, d') \<Rightarrow> Some (r, d'))"

text \<open>A coroutine is inside \<open>CoLock\<close> with its query, or inside the library.\<close>

datatype ('q, 'p) lookup = Locking 'q | Resolving 'q 'p

text \<open>The lock pointer of the thread is null before the first call. \<open>dns_answers\<close> records the calls that have
  returned, \<open>dns_raced\<close> whether a call without hooks has run in the middle of a hooked one.\<close>

record ('n, 'co, 'c, 'q, 'p, 'r, 'd) dns =
  dns_mutex :: "('n, 'co, 'c) mutex_state"
  tls_leaky_dns_lock :: bool
  dns_calls :: "'co \<rightharpoonup> ('q, 'p) lookup"
  dns_data :: "'d"
  dns_answers :: "('q \<times> 'r) list"
  dns_raced :: bool

section \<open>The call\<close>

text \<open>The constructor of \<open>clsSmartLock\<close>, which locks: the first call makes the mutex. When it gets the lock
  at once the call goes on into the library.\<close>

definition co_gethostbyname_r_enter ::
  "'c \<Rightarrow> ('q \<Rightarrow> 'p) \<Rightarrow> 'n \<Rightarrow> u64 \<Rightarrow> 'co \<Rightarrow> 'q \<Rightarrow> ('n, 'co, 'c, 'q, 'p, 'r, 'd) dns \<Rightarrow> ('n, 'co, 'c, 'q, 'p, 'r, 'd) dns" where
  "co_gethostbyname_r_enter m start psi now co q x =
     (let mx = dns_mutex x;
          cnt = (if tls_leaky_dns_lock x then ms_cnt mx else 0)
      in case CoLock m psi co now (ms_sync mx, cnt) of
           (got, s', n') \<Rightarrow>
             x\<lparr>dns_mutex := mx\<lparr>ms_sync := s', ms_cnt := n',
                 ms_waits := (if got then ms_waits mx else (ms_waits mx)(psi \<mapsto> co)),
                 ms_holders := (if got then ms_holders mx @ [co] else ms_holders mx)\<rparr>,
               tls_leaky_dns_lock := True,
               dns_calls := (dns_calls x)(co \<mapsto> (if got then Resolving q (start q) else Locking q))\<rparr>)"

text \<open>\<open>CoLock\<close> returns to a coroutine that had to wait.\<close>

definition co_gethostbyname_r_locked ::
  "('q \<Rightarrow> 'p) \<Rightarrow> 'n \<Rightarrow> 'co \<Rightarrow> 'q \<Rightarrow> ('n, 'co, 'c, 'q, 'p, 'r, 'd) dns \<Rightarrow> ('n, 'co, 'c, 'q, 'p, 'r, 'd) dns option" where
  "co_gethostbyname_r_locked start psi co q x =
     (let mx = dns_mutex x
      in map_option (\<lambda>t. x\<lparr>dns_mutex := mx\<lparr>ms_sync := t, ms_waits := (ms_waits mx)(psi := None),
                               ms_holders := ms_holders mx @ [co]\<rparr>,
                            dns_calls := (dns_calls x)(co \<mapsto> Resolving q (start q))\<rparr>)
           (timedwait_end psi ((ms_sync mx)\<lparr>lnk := PopHead ActiveList (lnk (ms_sync mx))\<rparr>)))"

text \<open>A stretch of work in the library; with the answer the destructor of \<open>clsSmartLock\<close> unlocks.\<close>

definition co_gethostbyname_r_work ::
  "'c \<Rightarrow> ('p, 'r, 'd) stretch \<Rightarrow> 'co \<Rightarrow> 'q \<Rightarrow> 'p \<Rightarrow> ('n, 'co, 'c, 'q, 'p, 'r, 'd) dns \<Rightarrow> ('n, 'co, 'c, 'q, 'p, 'r, 'd) dns option" where
  "co_gethostbyname_r_work m sys co q p x =
     (case sys p (dns_data x) of
        (Inl p', d') \<Rightarrow> Some (x\<lparr>dns_data := d', dns_calls := (dns_calls x)(co \<mapsto> Resolving q p')\<rparr>)
      | (Inr r, d') \<Rightarrow>
          (let mx = dns_mutex x
           in map_option (\<lambda>(s', n'). x\<lparr>dns_data := d', dns_calls := (dns_calls x)(co := None),
                dns_answers := dns_answers x @ [(q, r)],
                dns_mutex := mx\<lparr>ms_sync := s', ms_cnt := n', ms_holders := remove1 co (ms_holders mx)\<rparr>\<rparr>)
              (CoUnLock m (ms_sync mx, ms_cnt mx))))"

text \<open>\<open>gethostbyname_r\<close> up to its first yield: without hooks it is the call of the library, whose polls
  block the thread.\<close>

definition gethostbyname_r_call ::
  "'c \<Rightarrow> ('q \<Rightarrow> 'p) \<Rightarrow> ('p, 'r, 'd) stretch \<Rightarrow> bool \<Rightarrow> 'n \<Rightarrow> u64 \<Rightarrow> 'co \<Rightarrow> 'q \<Rightarrow>
    ('n, 'co, 'c, 'q, 'p, 'r, 'd) dns \<Rightarrow> ('n, 'co, 'c, 'q, 'p, 'r, 'd) dns option" where
  "gethostbyname_r_call m start sys hook psi now co q x =
     (if \<not> hook
      then map_option (\<lambda>(r, d'). x\<lparr>dns_data := d', dns_answers := dns_answers x @ [(q, r)],
             dns_raced := (dns_raced x \<or> ms_holders (dns_mutex x) \<noteq> [])\<rparr>) (uninterrupted sys (start q) (dns_data x))
      else Some (co_gethostbyname_r_enter m start psi now co q x))"

section \<open>The coroutines of the thread\<close>

text \<open>The steps of \<open>mutex_step\<close> with what the lookups do in them; \<open>psi\<close> is the condition item that
  \<open>co_cond_timedwait\<close> allocates. A coroutine is in one call at a time.\<close>

inductive dns_step ::
  "'c \<Rightarrow> ('q \<Rightarrow> 'p) \<Rightarrow> ('p, 'r, 'd) stretch \<Rightarrow> ('n, 'co, 'c, 'q, 'p, 'r, 'd) dns \<Rightarrow> ('n, 'co, 'c, 'q, 'p, 'r, 'd) dns \<Rightarrow> bool"
  for m start sys where
  call: "dns_calls x co = None \<Longrightarrow> sync_rep (ms_sync (dns_mutex x)) L C \<Longrightarrow>
    \<forall>k. psi \<notin> set (L k) \<Longrightarrow> \<forall>c. psi \<notin> set (C c) \<Longrightarrow> ms_waits (dns_mutex x) psi = None \<Longrightarrow>
    gethostbyname_r_call m start sys hook psi now co q x = Some y \<Longrightarrow> dns_step m start sys x y"
| wake: "represents (lnk (ms_sync (dns_mutex x))) L \<Longrightarrow> L ActiveList = psi # ns \<Longrightarrow>
    ms_waits (dns_mutex x) psi = Some co \<Longrightarrow> dns_calls x co = Some (Locking q) \<Longrightarrow>
    co_gethostbyname_r_locked start psi co q x = Some y \<Longrightarrow> dns_step m start sys x y"
| work: "dns_calls x co = Some (Resolving q p) \<Longrightarrow> co_gethostbyname_r_work m sys co q p x = Some y \<Longrightarrow>
    dns_step m start sys x y"
| other: "mutex_step m (dns_mutex x) ((dns_mutex x)\<lparr>ms_sync := t\<rparr>) \<Longrightarrow>
    dns_step m start sys x (x\<lparr>dns_mutex := (dns_mutex x)\<lparr>ms_sync := t\<rparr>\<rparr>)"

inductive dns_reach ::
  "'c \<Rightarrow> ('q \<Rightarrow> 'p) \<Rightarrow> ('p, 'r, 'd) stretch \<Rightarrow> 'd \<Rightarrow> ('n, 'co, 'c, 'q, 'p, 'r, 'd) dns \<Rightarrow> bool"
  for m start sys d0 where
  init: "sync_rep (ms_sync (dns_mutex x)) L C \<Longrightarrow> C m = [] \<Longrightarrow> ms_cnt (dns_mutex x) = 0 \<Longrightarrow>
    ms_waits (dns_mutex x) = Map.empty \<Longrightarrow> ms_holders (dns_mutex x) = [] \<Longrightarrow> \<not> tls_leaky_dns_lock x \<Longrightarrow>
    dns_calls x = Map.empty \<Longrightarrow> dns_data x = d0 \<Longrightarrow> dns_answers x = [] \<Longrightarrow> \<not> dns_raced x \<Longrightarrow>
    dns_reach m start sys d0 x"
| step: "dns_reach m start sys d0 x \<Longrightarrow> dns_step m start sys x y \<Longrightarrow> dns_reach m start sys d0 y"

section \<open>The calls in a row\<close>

text \<open>The data after the calls, made one after the other, if these are their answers.\<close>

fun serial ::
  "('q \<Rightarrow> 'p) \<Rightarrow> ('p, 'r, 'd) stretch \<Rightarrow> ('q \<times> 'r) list \<Rightarrow> 'd \<Rightarrow> 'd option" where
  "serial start sys [] d = Some d"
| "serial start sys ((q, r) # calls) d =
     (case uninterrupted sys (start q) d of
        None \<Rightarrow> None
      | Some (r', d') \<Rightarrow> if r' = r then serial start sys calls d' else None)"

lemma serial_snoc:
  assumes "serial start sys calls d0 = Some d" "uninterrupted sys (start q) d = Some (r, d')"
  shows "serial start sys (calls @ [(q, r)]) d0 = Some d'"
  using assms by (induction calls arbitrary: d0) (auto split: option.splits if_splits prod.splits)

definition resolving :: "('n, 'co, 'c, 'q, 'p, 'r, 'd) dns \<Rightarrow> 'co \<Rightarrow> bool" where
  "resolving x co \<longleftrightarrow> (\<exists>q p. dns_calls x co = Some (Resolving q p))"

text \<open>The data are those after the finished calls, as far as the call in progress has taken them.\<close>

definition in_order ::
  "('q \<Rightarrow> 'p) \<Rightarrow> ('p, 'r, 'd) stretch \<Rightarrow> 'd \<Rightarrow> ('n, 'co, 'c, 'q, 'p, 'r, 'd) dns \<Rightarrow> bool" where
  "in_order start sys d0 x \<longleftrightarrow>
     (\<exists>d. serial start sys (dns_answers x) d0 = Some d \<and>
        ((\<forall>co. \<not> resolving x co) \<longrightarrow> dns_data x = d) \<and>
        (\<forall>co q p. dns_calls x co = Some (Resolving q p) \<longrightarrow>
           uninterrupted sys (start q) d = uninterrupted sys p (dns_data x)))"

definition dns_inv ::
  "'c \<Rightarrow> ('q \<Rightarrow> 'p) \<Rightarrow> ('p, 'r, 'd) stretch \<Rightarrow> 'd \<Rightarrow> ('n, 'co, 'c, 'q, 'p, 'r, 'd) dns \<Rightarrow> bool" where
  "dns_inv m start sys d0 x \<longleftrightarrow>
     mutex_reach m (dns_mutex x) \<and> (\<not> tls_leaky_dns_lock x \<longrightarrow> ms_cnt (dns_mutex x) = 0) \<and>
     (\<forall>co. co \<in> set (ms_holders (dns_mutex x)) \<longleftrightarrow> resolving x co) \<and>
     (\<forall>psi co. ms_waits (dns_mutex x) psi = Some co \<longrightarrow> (\<exists>q. dns_calls x co = Some (Locking q))) \<and>
     (\<forall>co q. dns_calls x co = Some (Locking q) \<longrightarrow> (\<exists>psi. ms_waits (dns_mutex x) psi = Some co)) \<and>
     inj_on (ms_waits (dns_mutex x)) (dom (ms_waits (dns_mutex x))) \<and>
     (\<not> dns_raced x \<longrightarrow> in_order start sys d0 x)"

lemma dns_invD:
  assumes "dns_inv m start sys d0 x"
  shows "mutex_reach m (dns_mutex x)" "\<not> tls_leaky_dns_lock x \<Longrightarrow> ms_cnt (dns_mutex x) = 0"
    "\<And>co. co \<in> set (ms_holders (dns_mutex x)) \<longleftrightarrow> resolving x co"
    "\<And>psi co. ms_waits (dns_mutex x) psi = Some co \<Longrightarrow> \<exists>q. dns_calls x co = Some (Locking q)"
    "\<And>co q. dns_calls x co = Some (Locking q) \<Longrightarrow> \<exists>psi. ms_waits (dns_mutex x) psi = Some co"
    "inj_on (ms_waits (dns_mutex x)) (dom (ms_waits (dns_mutex x)))"
    "\<not> dns_raced x \<Longrightarrow> in_order start sys d0 x"
  using assms unfolding dns_inv_def by blast+

text \<open>What the mutex promises.\<close>

lemma mutex_one_holder:
  assumes "mutex_reach m y"
  shows "length (ms_holders y) \<le> 1" "ms_cnt y \<le> 0 \<Longrightarrow> ms_holders y = []"
proof -
  obtain L C where "mutex_inv m y L C" using mutex_reach_inv [OF assms] by auto
  note I = mutex_invD [OF this]
  show "length (ms_holders y) \<le> 1" using I(6) by linarith
  show "ms_holders y = []" if "ms_cnt y \<le> 0"
  proof -
    have "length (ms_holders y) = 0" using I(5) that by linarith
    then show ?thesis by simp
  qed
qed

lemma mutex_wake_free:
  assumes "mutex_reach m y" "represents (lnk (ms_sync y)) L" "L ActiveList = psi # ns" "ms_waits y psi = Some co"
  shows "ms_holders y = []"
proof -
  obtain L' C where inv: "mutex_inv m y L' C" using mutex_reach_inv [OF assms(1)] by auto
  note I = mutex_invD [OF inv]
  have "L' = L" by (rule represents_fun [OF assms(2) sync_repD(1) [OF I(1)], symmetric])
  then have "psi \<in> woken L' y" using assms(3,4) by (auto simp: woken_def)
  then have "card (woken L' y) \<noteq> 0" by auto
  then have "length (ms_holders y) = 0" using I(6) by linarith
  then show ?thesis by simp
qed

lemma one_resolving:
  assumes "dns_inv m start sys d0 x" "resolving x co"
  shows "ms_holders (dns_mutex x) = [co]"
proof -
  have "co \<in> set (ms_holders (dns_mutex x))" using dns_invD(3) [OF assms(1)] assms(2) by blast
  then show ?thesis using mutex_one_holder(1) [OF dns_invD(1) [OF assms(1)]]
    by (cases "ms_holders (dns_mutex x)") auto
qed

section \<open>Every step keeps the order\<close>

lemma enter_inv:
  assumes inv: "dns_inv m start sys d0 x" and free: "dns_calls x co = None"
    and fresh: "sync_rep (ms_sync (dns_mutex x)) L C" "\<forall>k. psi \<notin> set (L k)" "\<forall>c. psi \<notin> set (C c)"
      "ms_waits (dns_mutex x) psi = None"
  shows "dns_inv m start sys d0 (co_gethostbyname_r_enter m start psi now co q x)" (is "dns_inv _ _ _ _ ?y")
proof -
  let ?mx = "dns_mutex x"
  note I = dns_invD [OF inv]
  have cnt: "(if tls_leaky_dns_lock x then ms_cnt ?mx else 0) = ms_cnt ?mx" using I(2) by simp
  obtain got s' n' where lock: "CoLock m psi co now (ms_sync ?mx, ms_cnt ?mx) = (got, s', n')" by (metis prod_cases3)
  have got: "got \<longleftrightarrow> ms_cnt ?mx \<le> 0" using lock by (auto simp: CoLock_def split: if_splits)
  have reach: "mutex_reach m (dns_mutex ?y)"
    using mutex_reach.step [OF I(1) mutex_step.lock [OF fresh lock]] cnt lock
    by (simp add: co_gethostbyname_r_enter_def Let_def)
  have nw: "ms_waits ?mx n \<noteq> Some co" for n using I(4) [of n co] free by auto
  have nl: "\<not> resolving x co" using free by (simp add: resolving_def)
  show ?thesis
  proof (cases got)
    case True
    have y: "?y = x\<lparr>dns_mutex := ?mx\<lparr>ms_sync := s', ms_cnt := n', ms_waits := ms_waits ?mx,
        ms_holders := ms_holders ?mx @ [co]\<rparr>, tls_leaky_dns_lock := True,
        dns_calls := (dns_calls x)(co \<mapsto> Resolving q (start q))\<rparr>"
      using cnt lock True by (simp add: co_gethostbyname_r_enter_def Let_def)
    have "ms_holders ?mx = []" using mutex_one_holder(2) [OF I(1)] got True by blast
    then have none: "\<not> resolving x c" for c using I(3) [of c] by simp
    then have r: "resolving ?y c \<longleftrightarrow> c = co" for c by (auto simp: y resolving_def)
    have "in_order start sys d0 ?y" if "in_order start sys d0 x"
      using that none r by (auto simp: in_order_def y resolving_def)
    then show ?thesis
      using reach I(4-7) r \<open>ms_holders ?mx = []\<close> nw unfolding dns_inv_def by (auto simp: y) 
  next
    case False
    have y: "?y = x\<lparr>dns_mutex := ?mx\<lparr>ms_sync := s', ms_cnt := n', ms_waits := (ms_waits ?mx)(psi \<mapsto> co),
        ms_holders := ms_holders ?mx\<rparr>, tls_leaky_dns_lock := True,
        dns_calls := (dns_calls x)(co \<mapsto> Locking q)\<rparr>"
      using cnt lock False by (simp add: co_gethostbyname_r_enter_def Let_def)
    have r: "resolving ?y c \<longleftrightarrow> resolving x c" for c using nl by (auto simp: y resolving_def)
    have "in_order start sys d0 ?y" if "in_order start sys d0 x"
    proof -
      have "dns_calls ?y c = Some (Resolving q' p) \<longleftrightarrow> dns_calls x c = Some (Resolving q' p)" for c q' p
        using free by (simp add: y)
      then show ?thesis using that r by (simp add: in_order_def) (simp add: y)
    qed
    moreover have "inj_on (ms_waits (dns_mutex ?y)) (dom (ms_waits (dns_mutex ?y)))"
      using I(6) nw by (auto simp: y inj_on_def)
    moreover have "\<exists>q. dns_calls ?y c = Some (Locking q)" if "ms_waits (dns_mutex ?y) n = Some c" for n c
      using that I(4) [of n c] by (auto simp: y split: if_splits)
    moreover have "\<exists>n. ms_waits (dns_mutex ?y) n = Some c" if "dns_calls ?y c = Some (Locking q')" for c q'
    proof (cases "c = co")
      case False
      then have "dns_calls x c = Some (Locking q')" using that by (simp add: y)
      then obtain n where "ms_waits ?mx n = Some c" using I(5) by blast
      then show ?thesis using fresh(4) by (intro exI [of _ n]) (auto simp: y)
    qed (auto simp: y)
    ultimately show ?thesis using reach I(3,7) r unfolding dns_inv_def by (simp add: y)
  qed
qed

lemma locked_inv:
  assumes inv: "dns_inv m start sys d0 x" and L: "represents (lnk (ms_sync (dns_mutex x))) L" "L ActiveList = psi # ns"
    and w: "ms_waits (dns_mutex x) psi = Some co" and c: "dns_calls x co = Some (Locking q)"
    and y: "co_gethostbyname_r_locked start psi co q x = Some y"
  shows "dns_inv m start sys d0 y"
proof -
  let ?mx = "dns_mutex x"
  note I = dns_invD [OF inv]
  obtain t where t: "timedwait_end psi ((ms_sync ?mx)\<lparr>lnk := PopHead ActiveList (lnk (ms_sync ?mx))\<rparr>) = Some t"
    and y: "y = x\<lparr>dns_mutex := ?mx\<lparr>ms_sync := t, ms_waits := (ms_waits ?mx)(psi := None),
      ms_holders := ms_holders ?mx @ [co]\<rparr>, dns_calls := (dns_calls x)(co \<mapsto> Resolving q (start q))\<rparr>"
    using y by (auto simp: co_gethostbyname_r_locked_def Let_def)
  have reach: "mutex_reach m (dns_mutex y)"
    using mutex_reach.step [OF I(1) mutex_step.wake [OF L w t]] by (simp add: y)
  have h: "ms_holders ?mx = []" by (rule mutex_wake_free [OF I(1) L w])
  then have none: "\<not> resolving x c" for c using I(3) [of c] by simp
  then have r: "resolving y c \<longleftrightarrow> c = co" for c by (auto simp: y resolving_def)
  have other: "ms_waits ?mx n \<noteq> Some co" if "n \<noteq> psi" for n
    using I(6) w that by (metis domI inj_onD)
  have "in_order start sys d0 y" if "in_order start sys d0 x"
    using that none by (auto simp: in_order_def y resolving_def)
  moreover have "\<exists>q. dns_calls y c = Some (Locking q)" if "ms_waits (dns_mutex y) n = Some c" for n c
    using that I(4) [of n c] other [of n] by (auto simp: y split: if_splits)
  moreover have "\<exists>n. ms_waits (dns_mutex y) n = Some c" if a: "dns_calls y c = Some (Locking q')" for c q'
  proof -
    have "c \<noteq> co" "dns_calls x c = Some (Locking q')" using a by (auto simp: y split: if_splits)
    moreover from this obtain n where "ms_waits ?mx n = Some c" using I(5) by blast
    ultimately show ?thesis using w by (intro exI [of _ n]) (auto simp: y)
  qed
  moreover have "inj_on (ms_waits (dns_mutex y)) (dom (ms_waits (dns_mutex y)))"
    using I(6) by (auto simp: y inj_on_def)
  ultimately show ?thesis using reach r h I(2,7) c unfolding dns_inv_def by (auto simp: y resolving_def)
qed

lemma work_inv:
  assumes inv: "dns_inv m start sys d0 x" and c: "dns_calls x co = Some (Resolving q p)"
    and y: "co_gethostbyname_r_work m sys co q p x = Some y"
  shows "dns_inv m start sys d0 y"
proof -
  let ?mx = "dns_mutex x"
  note I = dns_invD [OF inv]
  have res: "resolving x co" using c by (simp add: resolving_def)
  have h: "ms_holders ?mx = [co]" by (rule one_resolving [OF inv res])
  have only: "resolving x c \<longleftrightarrow> c = co" for c using I(3) [of c] h by auto
  obtain e d' where s: "sys p (dns_data x) = (e, d')" by (metis prod.collapse)
  note run = uninterrupted.simps [of sys p "dns_data x"]
  show ?thesis
  proof (cases e)
    case (Inl p')
    have y: "y = x\<lparr>dns_data := d', dns_calls := (dns_calls x)(co \<mapsto> Resolving q p')\<rparr>"
      using y s Inl by (simp add: co_gethostbyname_r_work_def)
    have r: "resolving y c \<longleftrightarrow> resolving x c" for c using res by (auto simp: y resolving_def)
    have "in_order start sys d0 y" if o: "in_order start sys d0 x"
    proof -
      obtain d where d: "serial start sys (dns_answers x) d0 = Some d"
        "uninterrupted sys (start q) d = uninterrupted sys p (dns_data x)"
        using o c unfolding in_order_def by blast
      have u: "uninterrupted sys (start q) d = uninterrupted sys p' d'" using d(2) run s Inl by simp
      have "uninterrupted sys (start q') d = uninterrupted sys p1 (dns_data y)"
        if a: "dns_calls y c = Some (Resolving q' p1)" for c q' p1
      proof -
        have "resolving y c" using a by (auto simp: resolving_def)
        then have "c = co" using r only by simp
        then show ?thesis using a u by (auto simp: y)
      qed
      moreover have "dns_answers y = dns_answers x" "resolving y co" using r res by (simp_all add: y)
      ultimately show ?thesis using d(1) unfolding in_order_def by auto
    qed
    moreover have "dns_calls y c = Some (Locking q') \<longleftrightarrow> dns_calls x c = Some (Locking q')" for c q'
      using c by (auto simp: y)
    moreover have "dns_mutex y = ?mx" "tls_leaky_dns_lock y = tls_leaky_dns_lock x" "dns_raced y = dns_raced x"
      by (simp_all add: y)
    ultimately show ?thesis using inv r unfolding dns_inv_def by presburger
  next
    case (Inr a)
    obtain s' n' where u: "CoUnLock m (ms_sync ?mx, ms_cnt ?mx) = Some (s', n')"
      and y: "y = x\<lparr>dns_data := d', dns_calls := (dns_calls x)(co := None),
        dns_answers := dns_answers x @ [(q, a)],
        dns_mutex := ?mx\<lparr>ms_sync := s', ms_cnt := n', ms_holders := remove1 co (ms_holders ?mx)\<rparr>\<rparr>"
      using y s Inr by (auto simp: co_gethostbyname_r_work_def Let_def)
    have reach: "mutex_reach m (dns_mutex y)"
      using mutex_reach.step [OF I(1) mutex_step.unlock [OF _ u]] h by (simp add: y)
    have none: "\<not> resolving y c" for c using only [of c] by (auto simp: y resolving_def)
    have "in_order start sys d0 y" if o: "in_order start sys d0 x"
    proof -
      obtain d where d: "serial start sys (dns_answers x) d0 = Some d"
        "uninterrupted sys (start q) d = uninterrupted sys p (dns_data x)"
        using o c unfolding in_order_def by blast
      have "uninterrupted sys (start q) d = Some (a, d')" using d(2) run s Inr by simp
      from serial_snoc [OF d(1) this] none show ?thesis by (auto simp: in_order_def y resolving_def)
    qed
    moreover have "dns_calls y c = Some (Locking q') \<longleftrightarrow> dns_calls x c = Some (Locking q')" for c q'
      using c by (auto simp: y)
    moreover have "tls_leaky_dns_lock x"
    proof (rule ccontr)
      assume "\<not> tls_leaky_dns_lock x"
      then have "ms_holders ?mx = []" using I(2) mutex_one_holder(2) [OF I(1)] by simp
      then show False using h by simp
    qed
    ultimately show ?thesis using I(4-7) reach none h unfolding dns_inv_def by (simp add: y)
  qed
qed

lemma unhooked_inv:
  assumes inv: "dns_inv m start sys d0 x" and u: "uninterrupted sys (start q) (dns_data x) = Some (r, d')"
  shows "dns_inv m start sys d0 (x\<lparr>dns_data := d', dns_answers := dns_answers x @ [(q, r)],
    dns_raced := (dns_raced x \<or> ms_holders (dns_mutex x) \<noteq> [])\<rparr>)" (is "dns_inv _ _ _ _ ?y")
proof -
  note I = dns_invD [OF inv]
  have "in_order start sys d0 ?y" if "\<not> dns_raced ?y"
  proof -
    have o: "in_order start sys d0 x" and none: "\<not> resolving x c" for c using that I(3,7) by auto
    then have "serial start sys (dns_answers x) d0 = Some (dns_data x)" by (auto simp: in_order_def)
    from serial_snoc [OF this u] none show ?thesis by (auto simp: in_order_def resolving_def)
  qed
  then show ?thesis using I unfolding dns_inv_def by (auto simp: resolving_def)
qed

lemma dns_step_inv:
  assumes "dns_step m start sys x y" "dns_inv m start sys d0 x"
  shows "dns_inv m start sys d0 y"
  using assms(1)
proof (cases rule: dns_step.cases)
  case (call co L C psi hook now q)
  then show ?thesis
    using enter_inv [OF assms(2) call(1-5)] unhooked_inv [OF assms(2)]
    by (auto simp: gethostbyname_r_call_def split: if_splits)
next
  case (wake L psi ns co q)
  then show ?thesis using locked_inv [OF assms(2)] by blast
next
  case (work co q p)
  then show ?thesis using work_inv [OF assms(2)] by blast
next
  case (other t)
  then show ?thesis
    using dns_invD [OF assms(2)] mutex_reach.step [OF _ other(2)]
    unfolding dns_inv_def by (simp add: resolving_def in_order_def)
qed

lemma dns_reach_inv: "dns_reach m start sys d0 x \<Longrightarrow> dns_inv m start sys d0 x"
proof (induction rule: dns_reach.induct)
  case (init x L C)
  have "mutex_reach m (dns_mutex x)" by (rule mutex_reach.init [OF init(1-5)])
  then show ?case using init by (simp add: dns_inv_def in_order_def resolving_def)
next
  case (step x y)
  show ?case by (rule dns_step_inv [OF step(2) step.IH])
qed

section \<open>The calls that \<open>co_gethostbyname\<close> makes\<close>

text \<open>With a resolver that is the uninterrupted call of the library, the calls in a row are calls of the
  resolver in a row, which is how \<open>resolve_loop\<close> makes them.\<close>

fun resolver_run ::
  "('h, 'd) resolver \<Rightarrow> ((string \<times> u64) \<times> int \<times> 'h option \<times> int) list \<Rightarrow> 'd \<Rightarrow> bool \<times> 'd" where
  "resolver_run g [] d = (True, d)"
| "resolver_run g (((n, sz), r) # calls) d =
     (case g n sz d of (r', d') \<Rightarrow> if r' = r then resolver_run g calls d' else (False, d))"

lemma serial_resolver:
  assumes "\<And>n sz d. uninterrupted sys (start (n, sz)) d = Some (g n sz d)"
  shows "serial start sys calls d0 = Some d \<longleftrightarrow> resolver_run g calls d0 = (True, d)"
proof (induction calls arbitrary: d0)
  case (Cons a calls)
  obtain n sz r where "a = ((n, sz), r)" by (metis prod.collapse)
  then show ?case using Cons.IH by (cases "g n sz d0") (simp add: assms)
qed simp

section \<open>Properties\<close>

text \<open>C20
  The lookups of the coroutines are serialised: as long as no coroutine without hooks calls the library in
  the middle of another's call, at most one coroutine is inside the C library, every answer given so far
  is the answer of an uninterrupted call, made in the order of the answers, on the data the calls before it
  left, and the call in progress will end as if nothing had interrupted it. And no caller is
  forgotten: when nobody is inside the library and somebody waits for the lock, a waiting caller is in
  the active list of the event loop.\<close>

theorem lookups_serialised:
  assumes "dns_reach m start sys d0 x" "\<not> dns_raced x"
  shows "\<exists>d. serial start sys (dns_answers x) d0 = Some d \<and>
    (\<forall>co q p. dns_calls x co = Some (Resolving q p) \<longrightarrow>
       uninterrupted sys p (dns_data x) = uninterrupted sys (start q) d \<and>
       (\<forall>co'. co' \<noteq> co \<longrightarrow> \<not> resolving x co')) \<and>
    ((\<forall>co. \<not> resolving x co) \<longrightarrow> dns_data x = d \<and>
       (\<forall>co q. dns_calls x co = Some (Locking q) \<longrightarrow>
          (\<exists>L psi. represents (lnk (ms_sync (dns_mutex x))) L \<and> psi \<in> set (L ActiveList) \<and>
             ms_waits (dns_mutex x) psi \<noteq> None)))"
proof -
  note inv = dns_reach_inv [OF assms(1)]
  note I = dns_invD [OF inv]
  obtain d where d: "serial start sys (dns_answers x) d0 = Some d" "(\<forall>co. \<not> resolving x co) \<longrightarrow> dns_data x = d"
    "\<And>co q p. dns_calls x co = Some (Resolving q p) \<Longrightarrow> uninterrupted sys (start q) d = uninterrupted sys p (dns_data x)"
    using I(7) [OF assms(2)] unfolding in_order_def by blast
  have one: "\<not> resolving x co'" if "resolving x co" "co' \<noteq> co" for co co'
    using I(3) [of co'] one_resolving [OF inv that(1)] that(2) by simp
  have wake: "\<exists>L psi. represents (lnk (ms_sync (dns_mutex x))) L \<and> psi \<in> set (L ActiveList) \<and>
      ms_waits (dns_mutex x) psi \<noteq> None"
    if none: "\<forall>co. \<not> resolving x co" and c: "dns_calls x co = Some (Locking q)" for co q
  proof -
    obtain L C where "mutex_inv m (dns_mutex x) L C" using mutex_reach_inv [OF I(1)] by auto
    note M = mutex_invD [OF this]
    obtain n where n: "ms_waits (dns_mutex x) n = Some co" using I(5) [OF c] by blast
    have "a \<notin> set (ms_holders (dns_mutex x))" for a using I(3) [of a] none by simp
    then have "ms_holders (dns_mutex x) = []" by (metis list.set_intros(1) neq_Nil_conv)
    moreover have "woken L (dns_mutex x) \<noteq> {}"
    proof
      assume w: "woken L (dns_mutex x) = {}"
      then have "C m = []" using M(7) \<open>ms_holders (dns_mutex x) = []\<close> by simp
      then have "n \<in> woken L (dns_mutex x)" using M(3) [of n] n by (auto simp: woken_def)
      then show False using w by simp
    qed
    ultimately show ?thesis using sync_repD(1) [OF M(1)] by (auto simp: woken_def)
  qed
  show ?thesis
  proof (intro exI [of _ d] conjI allI impI)
    fix co q p assume c: "dns_calls x co = Some (Resolving q p)"
    show "uninterrupted sys p (dns_data x) = uninterrupted sys (start q) d" by (rule d(3) [OF c, symmetric])
    have "resolving x co" using c by (auto simp: resolving_def)
    then show "\<not> resolving x co'" if "co' \<noteq> co" for co' using one that by blast
  qed (use d(1,2) wake in blast)+
qed

section \<open>Concrete runs\<close>

text \<open>A library that stores the query, yields, and answers with what it finds stored.\<close>

definition demo_stretch :: "(nat + unit, nat, nat) stretch" where
  "demo_stretch p d = (case p of Inl q \<Rightarrow> (Inl (Inr ()), q) | Inr _ \<Rightarrow> (Inr d, d))"

lemma demo_uninterrupted: "uninterrupted demo_stretch (Inl q) d = Some (q, q)"
  "uninterrupted demo_stretch (Inr u) d = Some (d, d)"
  by (simp_all add: uninterrupted.simps demo_stretch_def)

abbreviation demo_dns :: "(nat, nat, nat, nat, nat + unit, nat, nat) dns" where
  "demo_dns \<equiv> \<lparr>dns_mutex = demo_mutex, tls_leaky_dns_lock = False, dns_calls = Map.empty, dns_data = 0,
     dns_answers = [], dns_raced = False\<rparr>"

text \<open>Coroutine 10 is in the middle of the call for 1.\<close>

abbreviation demo_dns_held :: "(nat, nat, nat, nat, nat + unit, nat, nat) dns" where
  "demo_dns_held \<equiv> demo_dns\<lparr>dns_mutex := demo_mutex\<lparr>ms_cnt := 1, ms_holders := [10]\<rparr>,
     tls_leaky_dns_lock := True, dns_calls := [10 \<mapsto> Resolving 1 (Inr ())], dns_data := 1\<rparr>"

lemma demo_dns_held: "dns_reach 5 Inl demo_stretch 0 demo_dns_held"
proof -
  have r0: "dns_reach 5 Inl demo_stretch 0 demo_dns"
    by (rule dns_reach.init [where L = "\<lambda>_. []" and C = "\<lambda>_. []"]) (simp_all add: demo_sync_rep)
  let ?x1 = "demo_dns\<lparr>dns_mutex := demo_mutex\<lparr>ms_cnt := 1, ms_holders := [10]\<rparr>,
     tls_leaky_dns_lock := True, dns_calls := [10 \<mapsto> Resolving 1 (Inl 1)]\<rparr>"
  have "dns_step 5 Inl demo_stretch demo_dns ?x1"
    by (rule dns_step.call [where L = "\<lambda>_. []" and C = "\<lambda>_. []" and co = 10 and psi = 1 and hook = True and q = 1 and now = 0])
      (simp_all add: demo_sync_rep gethostbyname_r_call_def co_gethostbyname_r_enter_def CoLock_def)
  with r0 have r1: "dns_reach 5 Inl demo_stretch 0 ?x1" by (rule dns_reach.step)
  have "dns_step 5 Inl demo_stretch ?x1 demo_dns_held"
    by (rule dns_step.work [where co = 10 and q = 1 and p = "Inl 1"])
      (simp_all add: co_gethostbyname_r_work_def demo_stretch_def)
  with r1 show ?thesis by (rule dns_reach.step)
qed

text \<open>A coroutine without hooks that calls the library now spoils the answer: the condition of the theorem
  is needed.\<close>

lemma unhooked_call_races:
  "\<exists>x. dns_reach 5 Inl demo_stretch 0 x \<and> dns_answers (x :: (nat, nat, nat, nat, nat + unit, nat, nat) dns) = [(2, 2), (1, 2)] \<and>
     serial Inl demo_stretch (dns_answers x) 0 = None"
proof -
  let ?x = "demo_dns_held\<lparr>dns_data := 2, dns_answers := [(2, 2)], dns_raced := True\<rparr>"
  have "dns_step 5 Inl demo_stretch demo_dns_held ?x"
    by (rule dns_step.call [where L = "\<lambda>_. []" and C = "\<lambda>_. []" and co = 11 and psi = 1 and hook = False and q = 2])
      (simp_all add: demo_sync_rep gethostbyname_r_call_def demo_uninterrupted)
  with demo_dns_held have r: "dns_reach 5 Inl demo_stretch 0 ?x" by (rule dns_reach.step)
  have "co_cond_signal 5 demo_sync = Some demo_sync" using co_cond_signal_spec [OF demo_sync_rep, of 5] by auto
  then have "dns_step 5 Inl demo_stretch ?x (?x\<lparr>dns_calls := Map.empty, dns_answers := [(2, 2), (1, 2)],
      dns_mutex := demo_mutex\<rparr>)"
    by (intro dns_step.work [where co = 10 and q = 1 and p = "Inr ()"])
      (simp_all add: co_gethostbyname_r_work_def demo_stretch_def CoUnLock_def)
  with r have "dns_reach 5 Inl demo_stretch 0 (?x\<lparr>dns_calls := Map.empty, dns_answers := [(2, 2), (1, 2)],
      dns_mutex := demo_mutex\<rparr>)" by (rule dns_reach.step)
  then show ?thesis by (intro exI, intro conjI) (assumption, simp_all add: demo_uninterrupted)
qed

text \<open>Coroutine 11 calls as well and waits for the lock.\<close>

theorem lookups_serialised_witness:
  "\<exists>x d. dns_calls (x :: (nat, nat, nat, nat, nat + unit, nat, nat) dns) = [10 \<mapsto> Resolving 1 (Inr ()), 11 \<mapsto> Locking 2] \<and>
     uninterrupted demo_stretch (Inr ()) (dns_data x) = uninterrupted demo_stretch (Inl 1) d \<and> \<not> resolving x 11"
proof -
  obtain t where t: "timedwait_begin 5 (- 1) 1 11 0 demo_sync = (0, t)"
    using timedwait_begin_untimed [OF demo_sync_rep, of 1 "- 1" 5 11 0] by auto
  let ?x = "demo_dns_held\<lparr>dns_mutex := demo_mutex\<lparr>ms_sync := t, ms_cnt := 2, ms_waits := [1 \<mapsto> 11], ms_holders := [10]\<rparr>,
    dns_calls := [10 \<mapsto> Resolving 1 (Inr ()), 11 \<mapsto> Locking 2]\<rparr>"
  have "dns_step 5 Inl demo_stretch demo_dns_held ?x"
    by (rule dns_step.call [where L = "\<lambda>_. []" and C = "\<lambda>_. []" and co = 11 and psi = 1 and hook = True and q = 2 and now = 0])
      (simp_all add: demo_sync_rep gethostbyname_r_call_def co_gethostbyname_r_enter_def CoLock_def t del: One_nat_def)
  with demo_dns_held have "dns_reach 5 Inl demo_stretch 0 ?x" by (rule dns_reach.step)
  from lookups_serialised [OF this] obtain d where
    "\<forall>co q p. dns_calls ?x co = Some (Resolving q p) \<longrightarrow>
       uninterrupted demo_stretch p (dns_data ?x) = uninterrupted demo_stretch (Inl q) d \<and>
       (\<forall>co'. co' \<noteq> co \<longrightarrow> \<not> resolving ?x co')"
    by auto
  from this [rule_format, of 10 1 "Inr ()"]
  have "uninterrupted demo_stretch (Inr ()) (dns_data ?x) = uninterrupted demo_stretch (Inl 1) d" "\<not> resolving ?x 11"
    by simp_all
  then show ?thesis by (intro exI [of _ ?x] exI [of _ d]) simp
qed

end
