(* ===== verification/Db_Models.thy ===== *)
theory Db_Models
  imports Db_Conn Wire
begin

text \<open>
  The tables of the server: \<open>CUserModel\<close>, \<open>CRelationModel\<close>, \<open>CMessageModel\<close> and \<open>CSessionModel\<close>
  (\<open>src/usermodel\<close>, \<open>src/relationmodel\<close>, \<open>src/messagemodel\<close>, \<open>src/sessionmodel\<close>). Every
  operation takes a connection from the pool, builds the text of a query, reads the result and gives
  the connection back. The server is one thread: a request that has to wait for a connection waits for
  ever. An operation has no result (\<open>None\<close>) when it waits for ever, follows a null pointer, or writes
  behind a buffer on its stack. The lemmas show which operations give their connection back, and what
  the limits of the buffers mean for the inputs.
\<close>

section \<open>State\<close>

record 'd srv =
  sv_pool :: "nat pool"
  sv_db :: 'd

text \<open>\<open>GetDBConn\<close> as the only thread of the server calls it. \<open>new\<close> gives an object that is none of the
  live ones.\<close>

definition new_conn :: "nat pool \<Rightarrow> nat" where
  "new_conn p = Suc (fold max (m_free_list p @ m_used_list p) 0)"

definition acquire :: "'d mysql \<Rightarrow> int \<Rightarrow> ('d, 'z) srv_scheme \<Rightarrow> (nat option \<times> ('d, 'z) srv_scheme) option" where
  "acquire api timeout_ms s =
     (let p = sv_pool s;
          fresh = new_conn p;
          (ret, d1) = api_connect api fresh (sv_db s);
          creates = (\<not> m_abort_request p \<and> m_free_list p = [] \<and> m_db_cur_conn_cnt p < m_db_max_conn_cnt p);
          s1 = (if creates then s\<lparr>sv_db := d1\<rparr> else s)
      in case GetDBConn fresh ret p of
           None \<Rightarrow> None
         | Some (Conn c, p1) \<Rightarrow> Some (Some c, s1\<lparr>sv_pool := p1\<rparr>)
         | Some (Null, p1) \<Rightarrow> Some (None, s1\<lparr>sv_pool := p1\<rparr>)
         | Some (Wait, p1) \<Rightarrow> if 0 < timeout_ms then Some (None, s1\<lparr>sv_pool := p1\<rparr>) else None)"

definition give_back :: "nat \<Rightarrow> ('d, 'z) srv_scheme \<Rightarrow> ('d, 'z) srv_scheme" where
  "give_back c s = s\<lparr>sv_pool := RelDBConn c (sv_pool s)\<rparr>"

text \<open>A step of the database alone.\<close>

definition on_db :: "('d \<Rightarrow> 'a \<times> 'd) \<Rightarrow> ('d, 'z) srv_scheme \<Rightarrow> 'a \<times> ('d, 'z) srv_scheme" where
  "on_db f s = (case f (sv_db s) of (a, d) \<Rightarrow> (a, s\<lparr>sv_db := d\<rparr>))"

definition query :: "'d mysql \<Rightarrow> nat \<Rightarrow> string \<Rightarrow> ('d, 'z) srv_scheme \<Rightarrow> CResultSet option \<times> ('d, 'z) srv_scheme" where
  "query api c sql = on_db (ExecuteQuery api c sql)"

definition update :: "'d mysql \<Rightarrow> nat \<Rightarrow> string \<Rightarrow> ('d, 'z) srv_scheme \<Rightarrow> bool \<times> ('d, 'z) srv_scheme" where
  "update api c sql = on_db (ExecuteUpdate api c sql True)"

text \<open>\<open>GetInsertId\<close> converts to \<open>uint32_t\<close>, and its callers store it in an \<open>int\<close>.\<close>

definition GetInsertId :: "'d mysql \<Rightarrow> nat \<Rightarrow> ('d, 'z) srv_scheme \<Rightarrow> int" where
  "GetInsertId api c s = sint (word_of_int (api_insert_id api c (sv_db s)) :: u32)"

text \<open>\<open>sprintf\<close> into an array of \<open>n\<close> characters, the terminating zero included.\<close>

definition sprintf_buf :: "nat \<Rightarrow> string \<Rightarrow> string option" where
  "sprintf_buf n text = (if length text < n then Some text else None)"

text \<open>\<open>while (res->Next())\<close>.\<close>

function while_next :: "(CResultSet \<Rightarrow> 'a \<Rightarrow> 'a option) \<Rightarrow> CResultSet \<Rightarrow> 'a \<Rightarrow> 'a option" where
  "while_next f r a =
     (if fst (Next r) then Option.bind (f (snd (Next r)) a) (while_next f (snd (Next r))) else Some a)"
  by pat_completeness auto
termination
  by (relation "measure (\<lambda>(f, r, a). length (m_rows r))") (auto simp: Next_def split: list.splits)

declare while_next.simps [simp del]

text \<open>A prepared statement that is initialised, gets its parameters and is executed.\<close>

definition run_prepared ::
  "'d mysql \<Rightarrow> nat \<Rightarrow> string \<Rightarrow> bind list \<Rightarrow> ('d, 'z) srv_scheme \<Rightarrow> int \<times> ('d, 'z) srv_scheme" where
  "run_prepared api c sql params s =
     (case on_db (\<lambda>d. case stmt_Init api c sql CPrepareStatement_ctor d of (ok, st, d1) \<Rightarrow> ((ok, st), d1)) s of
        ((False, st), s1) \<Rightarrow> (- 1, s1)
      | ((True, st), s1) \<Rightarrow>
          (let st1 = fold (\<lambda>(i, b) st. SetParam i b st) (zip [0..<length params] params) st
           in case on_db (stmt_ExecuteUpdate api c st1) s1 of
                (True, s2) \<Rightarrow> (GetInsertId api c s2, s2)
              | (False, s2) \<Rightarrow> (- 1, s2)))"

text \<open>A string between single quotes, and a \<open>char *\<close> as a \<open>std::string\<close> is assigned from it: a null
  pointer crashes, and a zero character ends it.\<close>

definition quoted :: "string \<Rightarrow> string" where
  "quoted s = CHR 0x27 # s @ [CHR 0x27]"

definition from_ptr :: "string option \<Rightarrow> string option" where
  "from_ptr p = map_option (takeWhile (\<lambda>c. c \<noteq> CHR 0x00)) p"

text \<open>\<open>memcpy\<close> of a string to a field of an object on the stack: it may run over the end of the field,
  and has no result when it runs over the end of the object.\<close>

definition memcpy_field :: "msg_class \<Rightarrow> string \<Rightarrow> string \<Rightarrow> byte list \<Rightarrow> byte list option" where
  "memcpy_field cls f s obj =
     (if offset cls f + length s \<le> length obj then Some (poke (offset cls f) (of_str s) obj) else None)"

section \<open>CUserModel\<close>

definition user_id_sql :: "string \<Rightarrow> string \<Rightarrow> string" where
  "user_id_sql classnum account =
     ''select id from user_table where classnum = '' @ quoted classnum @ '' and account = '' @ quoted account @ '';''"

definition getUserId ::
  "'d mysql \<Rightarrow> string \<Rightarrow> string \<Rightarrow> ('d, 'z) srv_scheme \<Rightarrow> (int \<times> ('d, 'z) srv_scheme) option" where
  "getUserId api classnum account s0 = do {
     (conn, s) \<leftarrow> acquire api 0 s0;
     sql \<leftarrow> sprintf_buf 100 (user_id_sql classnum account);
     c \<leftarrow> conn;
     let (res, s1) = query api c sql s;
     idRes \<leftarrow> (case res of
       Some r \<Rightarrow> if fst (Next r) then GetInt ''id'' (snd (Next r)) else Some (- 1)
     | None \<Rightarrow> Some (- 1));
     Some (idRes, give_back c s1)
   }"

text \<open>The out parameters \<open>classNum\<close> and \<open>account\<close> keep their values when there is no such user.\<close>

definition getUserFromId ::
  "'d mysql \<Rightarrow> int \<Rightarrow> string \<times> string \<Rightarrow> ('d, 'z) srv_scheme \<Rightarrow>
    ((string \<times> string) \<times> ('d, 'z) srv_scheme) option" where
  "getUserFromId api userId out0 s0 = do {
     (conn, s) \<leftarrow> acquire api 0 s0;
     sql \<leftarrow> sprintf_buf 200 (''select classnum,account from user_table where id = '' @ to_string userId);
     c \<leftarrow> conn;
     let (res, s1) = query api c sql s;
     out1 \<leftarrow> (case res of
       Some r \<Rightarrow>
         if fst (Next r) then do {
           p \<leftarrow> GetString ''classnum'' (snd (Next r));
           classNum \<leftarrow> from_ptr p;
           q \<leftarrow> GetString ''account'' (snd (Next r));
           account \<leftarrow> from_ptr q;
           Some (classNum, account)
         } else Some out0
     | None \<Rightarrow> Some out0);
     Some (out1, give_back c s1)
   }"

definition getTouXiang ::
  "'d mysql \<Rightarrow> string \<Rightarrow> string \<Rightarrow> string \<Rightarrow> ('d, 'z) srv_scheme \<Rightarrow> (string \<times> ('d, 'z) srv_scheme) option" where
  "getTouXiang api classnum account touxiang0 s0 = do {
     (conn, s) \<leftarrow> acquire api 0 s0;
     sql \<leftarrow> sprintf_buf 200 (''select touxiang from user_table where classnum = '' @ quoted classnum @
       '' and account = '' @ quoted account @ ''; '');
     c \<leftarrow> conn;
     let (res, s1) = query api c sql s;
     touxiang \<leftarrow> (case res of
       Some r \<Rightarrow>
         if fst (Next r) then Option.bind (GetString ''touxiang'' (snd (Next r))) from_ptr else Some touxiang0
     | None \<Rightarrow> Some touxiang0);
     Some (touxiang, give_back c s1)
   }"

text \<open>\<open>userExist\<close> follows the result without looking at it.\<close>

definition user_exist_sql :: "string \<Rightarrow> string \<Rightarrow> string \<Rightarrow> string" where
  "user_exist_sql classnum account password =
     ''select classnum,account from user_table where classnum = '' @ quoted classnum @ '' and account = '' @
     quoted account @ '' and password = '' @ quoted password @ '';''"

definition userExist ::
  "'d mysql \<Rightarrow> string \<Rightarrow> string \<Rightarrow> string \<Rightarrow> ('d, 'z) srv_scheme \<Rightarrow> (bool \<times> ('d, 'z) srv_scheme) option" where
  "userExist api classnum account password s0 = do {
     (conn, s) \<leftarrow> acquire api 0 s0;
     sql \<leftarrow> sprintf_buf 256 (user_exist_sql classnum account password);
     c \<leftarrow> conn;
     let (res, s1) = query api c sql s;
     r \<leftarrow> res;
     Some (fst (Next r), give_back c s1)
   }"

definition addUserInfo ::
  "'d mysql \<Rightarrow> string \<Rightarrow> string \<Rightarrow> string \<Rightarrow> string \<Rightarrow> ('d, 'z) srv_scheme \<Rightarrow> (unit \<times> ('d, 'z) srv_scheme) option" where
  "addUserInfo api classnum account password touxiang s0 = do {
     (conn, s) \<leftarrow> acquire api 0 s0;
     sql \<leftarrow> sprintf_buf 200 (''insert into user_table(classnum, account, password,islogin,touxiang) values('' @
       quoted classnum @ '','' @ quoted account @ '','' @ quoted password @ '',0,'' @ quoted touxiang @ '')'');
     c \<leftarrow> conn;
     let (res, s1) = query api c sql s;
     Some ((), give_back c s1)
   }"

definition changeTouXiang ::
  "'d mysql \<Rightarrow> string \<Rightarrow> string \<Rightarrow> string \<Rightarrow> ('d, 'z) srv_scheme \<Rightarrow> (unit \<times> ('d, 'z) srv_scheme) option" where
  "changeTouXiang api classNum account touxiangPath s0 = do {
     (conn, s) \<leftarrow> acquire api 0 s0;
     sql \<leftarrow> sprintf_buf 200 (''update user_table set touxiang = '' @ quoted touxiangPath @ '' where classnum = '' @
       quoted classNum @ '' and account = '' @ quoted account @ '';'');
     c \<leftarrow> conn;
     let (res, s1) = query api c sql s;
     Some ((), give_back c s1)
   }"

text \<open>\<open>CUserModel::GetTouXiang\<close>, the variant that checks the cell.\<close>

definition user_GetTouXiang ::
  "'d mysql \<Rightarrow> string \<Rightarrow> string \<Rightarrow> string \<Rightarrow> ('d, 'z) srv_scheme \<Rightarrow> (string \<times> ('d, 'z) srv_scheme) option" where
  "user_GetTouXiang api classNum account path0 s0 = do {
     (conn, s) \<leftarrow> acquire api 0 s0;
     sql \<leftarrow> sprintf_buf 200 (''select touxiang from user_table where classnum = '' @ quoted classNum @
       '' and account = '' @ quoted account @ '';'');
     c \<leftarrow> conn;
     let (res, s1) = query api c sql s;
     path \<leftarrow> (case res of
       Some r \<Rightarrow>
         if fst (Next r) then do {
           p \<leftarrow> GetString ''touxiang'' (snd (Next r));
           (if p = None then Some [] else from_ptr p)
         } else Some path0
     | None \<Rightarrow> Some path0);
     Some (path, give_back c s1)
   }"

section \<open>CRelationModel\<close>

definition relation_where :: "int \<Rightarrow> int \<Rightarrow> string" where
  "relation_where nSmallId nBigId =
     ''select id from relationShip_table where smallId='' @ to_string nSmallId @ '' and bigId='' @ to_string nBigId"

definition addRelation ::
  "'d mysql \<Rightarrow> int \<Rightarrow> int \<Rightarrow> ('d, 'z) srv_scheme \<Rightarrow> (int \<times> ('d, 'z) srv_scheme) option" where
  "addRelation api nSmallId nBigId s0 = do {
     (conn, s) \<leftarrow> acquire api 0 s0;
     (case conn of
        None \<Rightarrow> Some (- 1, s)
      | Some c \<Rightarrow>
          let nTimeNow = api_time api (sv_db s);
              (res, s1) = query api c (relation_where nSmallId nBigId) s
          in if (case res of Some r \<Rightarrow> fst (Next r) | None \<Rightarrow> False) then do {
               r \<leftarrow> res;
               nRelationId \<leftarrow> GetInt ''id'' (snd (Next r));
               let (bRet, s2) = update api c (''update relationShip_table set status=0, updated='' @
                 to_string nTimeNow @ '' where id='' @ to_string nRelationId) s1;
               Some (if bRet then nRelationId else - 1, give_back c s2)
             } else
               let (nRelationId, s2) = run_prepared api c
                     ''insert into relationShip_table (`smallId`,`bigId`,`status`,`created`,`updated`) values(?,?,?,?,?)''
                     [Long nSmallId, Long nBigId, Long 0, Long nTimeNow, Long nTimeNow] s1
               in Some (nRelationId, give_back c s2))
   }"

definition getRelationId ::
  "'d mysql \<Rightarrow> int \<Rightarrow> int \<Rightarrow> bool \<Rightarrow> ('d, 'z) srv_scheme \<Rightarrow> (int \<times> ('d, 'z) srv_scheme) option" where
  "getRelationId api nUserAId nUserBId bAdd s0 =
     (if nUserAId = 0 \<or> nUserBId = 0 then Some (- 1, s0)
      else do {
        (conn, s) \<leftarrow> acquire api 0 s0;
        (case conn of
           None \<Rightarrow> Some (- 1, s)
         | Some c \<Rightarrow>
             let nBigId = (if nUserBId < nUserAId then nUserAId else nUserBId);
                 nSmallId = (if nUserBId < nUserAId then nUserBId else nUserAId);
                 (res, s1) = query api c (relation_where nSmallId nBigId @ '' and status = 0'') s
             in do {
               nRelationId \<leftarrow> (case res of
                 None \<Rightarrow> Some (- 1)
               | Some r \<Rightarrow> while_next (\<lambda>r _. GetInt ''id'' r) r (- 1));
               let s2 = give_back c s1;
               (if nRelationId = - 1 \<and> bAdd then addRelation api nSmallId nBigId s2 else Some (nRelationId, s2))
             })
      })"

text \<open>\<open>updateRelation\<close>, \<open>removeRelation\<close>, and the same pair for the sessions: one update.\<close>

definition run_update ::
  "'d mysql \<Rightarrow> (('d, 'z) srv_scheme \<Rightarrow> string) \<Rightarrow> ('d, 'z) srv_scheme \<Rightarrow> (bool \<times> ('d, 'z) srv_scheme) option" where
  "run_update api sql s0 = do {
     (conn, s) \<leftarrow> acquire api 0 s0;
     (case conn of
        None \<Rightarrow> Some (False, s)
      | Some c \<Rightarrow> let (bRet, s1) = update api c (sql s) s in Some (bRet, give_back c s1))
   }"

definition updateRelation ::
  "'d mysql \<Rightarrow> int \<Rightarrow> int \<Rightarrow> ('d, 'z) srv_scheme \<Rightarrow> (bool \<times> ('d, 'z) srv_scheme) option" where
  "updateRelation api nRelationId nUpdateTime = run_update api (\<lambda>s.
     ''update relationShip_table set `updated`='' @ to_string nUpdateTime @ '' where id='' @ to_string nRelationId)"

definition removeRelation ::
  "'d mysql \<Rightarrow> int \<Rightarrow> ('d, 'z) srv_scheme \<Rightarrow> (bool \<times> ('d, 'z) srv_scheme) option" where
  "removeRelation api nRelationId = run_update api (\<lambda>s.
     ''update relationShip_table set status = 1, updated='' @ to_string (api_time api (sv_db s) mod 2 ^ 32) @
     '' where id='' @ to_string nRelationId)"

section \<open>CMessageModel\<close>

text \<open>The literal 0 for the message id is taken as a null pointer by the overloads of \<open>SetParam\<close>.\<close>

definition inserMessage ::
  "'d mysql \<Rightarrow> int \<Rightarrow> int \<Rightarrow> int \<Rightarrow> string \<Rightarrow> int \<Rightarrow> int \<Rightarrow> ('d, 'z) srv_scheme \<Rightarrow>
    (int \<times> ('d, 'z) srv_scheme) option" where
  "inserMessage api relateId fromId toId content type status s0 = do {
     (conn, s) \<leftarrow> acquire api 0 s0;
     (case conn of
        None \<Rightarrow> Some (- 1, s)
      | Some c \<Rightarrow>
          let nTimeNow = api_time api (sv_db s);
              (nMsgId, s1) = run_prepared api c
                ''insert into message_table (relateId,fromId,toId,msgId,content,type,status,updated,created) values(?,?,?,?,?,?,?,?,?);''
                [Long relateId, Long fromId, Long toId, Blob None, Str content, Long type, Long status,
                 Long nTimeNow, Long nTimeNow] s
          in Some (nMsgId, give_back c s1))
   }"

definition message_sql :: "int \<Rightarrow> int \<Rightarrow> int \<Rightarrow> string" where
  "message_sql relateId lastTime nowTime =
     ''select fromId,toId,content,type,status,updated,created from message_table where relateId = '' @
     to_string relateId @ '' and type = '' @ to_string 1 @ '' and updated <= '' @ to_string nowTime @
     '' and updated > '' @ to_string lastTime"

text \<open>One row of the history as a message object, made in the uninitialised memory \<open>junk\<close>. The names of
  the users are looked up over a second connection while the first one is held.\<close>

definition message_of_row ::
  "'d mysql \<Rightarrow> byte list \<Rightarrow> CResultSet \<Rightarrow> byte list list \<times> ('d, 'z) srv_scheme \<Rightarrow>
    (byte list list \<times> ('d, 'z) srv_scheme) option" where
  "message_of_row api junk r acc = do {
     let (messageList, s) = acc;
     p \<leftarrow> GetString ''content'' r;
     content \<leftarrow> from_ptr p;
     fromId \<leftarrow> GetInt ''fromId'' r;
     ((fromClassNum, fromAccount), s1) \<leftarrow> getUserFromId api fromId ([], []) s;
     toId \<leftarrow> GetInt ''toId'' r;
     ((toClassNum, toAccount), s2) \<leftarrow> getUserFromId api toId ([], []) s1;
     o1 \<leftarrow> memcpy_field messageSendData ''fromClassNum'' fromClassNum (construct messageSendData junk);
     o2 \<leftarrow> memcpy_field messageSendData ''fromAccount'' fromAccount o1;
     o3 \<leftarrow> memcpy_field messageSendData ''toClassNum'' toClassNum o2;
     o4 \<leftarrow> memcpy_field messageSendData ''toAccount'' toAccount o3;
     o5 \<leftarrow> memcpy_field messageSendData ''messageContent'' content o4;
     created \<leftarrow> GetInt ''created'' r;
     Some (messageList @ [put_int (offset messageSendData ''updatetime'') created o5], s2)
   }"

definition getMessage ::
  "'d mysql \<Rightarrow> byte list \<Rightarrow> int \<Rightarrow> int \<Rightarrow> int \<Rightarrow> ('d, 'z) srv_scheme \<Rightarrow>
    (byte list list \<times> ('d, 'z) srv_scheme) option" where
  "getMessage api junk relateId lastTime nowTime s0 = do {
     (conn, s) \<leftarrow> acquire api 0 s0;
     (case conn of
        None \<Rightarrow> Some ([], s)
      | Some c \<Rightarrow> do {
          sql \<leftarrow> sprintf_buf 200 (message_sql relateId lastTime nowTime);
          let (res, s1) = query api c sql s;
          (messageList, s2) \<leftarrow> (case res of
             None \<Rightarrow> Some ([], s1)
           | Some r \<Rightarrow> while_next (message_of_row api junk) r ([], s1));
          Some (messageList, give_back c s2)
        })
   }"

text \<open>The relation id is compared and printed as a \<open>uint32_t\<close>.\<close>

definition getLastMsg ::
  "'d mysql \<Rightarrow> int \<Rightarrow> int \<Rightarrow> string \<times> int \<Rightarrow> ('d, 'z) srv_scheme \<Rightarrow>
    ((string \<times> int) \<times> ('d, 'z) srv_scheme) option" where
  "getLastMsg api nFromId nToId out0 s0 = do {
     (rel, s1) \<leftarrow> getRelationId api nFromId nToId False s0;
     let nRelateId = (word_of_int rel :: u32);
     (if nRelateId \<noteq> - 1 then do {
        (conn, s2) \<leftarrow> acquire api 0 s1;
        (case conn of
           None \<Rightarrow> Some (out0, s2)
         | Some c \<Rightarrow>
             let (res, s3) = query api c
                   (''select type,content from message_table force index (idx_relateId_status_created) where relateId= '' @
                    to_string (uint nRelateId) @ '' and status = 1 order by created desc, id desc limit 1'') s2
             in do {
               out1 \<leftarrow> (case res of
                  None \<Rightarrow> Some out0
                | Some r \<Rightarrow> while_next (\<lambda>r _. do {
                    nMsgType \<leftarrow> GetInt ''type'' r;
                    p \<leftarrow> GetString ''content'' r;
                    strMsgData \<leftarrow> from_ptr p;
                    Some (strMsgData, nMsgType)
                  }) r out0);
               Some (out1, give_back c s3)
             })
      } else Some (out0, s1))
   }"

section \<open>CSessionModel\<close>

definition recent_of_row ::
  "'d mysql \<Rightarrow> byte list \<Rightarrow> int \<Rightarrow> int \<Rightarrow> CResultSet \<Rightarrow> byte list list \<times> ('d, 'z) srv_scheme \<Rightarrow>
    (byte list list \<times> ('d, 'z) srv_scheme) option" where
  "recent_of_row api junk msgType nUserId r acc = do {
     let (lsContact, s) = acc;
     updated \<leftarrow> GetInt ''updated'' r;
     let o0 = put_int (offset messageRecentSessionData ''lastupdatetime'') updated
                (construct messageRecentSessionData junk);
     p \<leftarrow> GetString ''peerTouXiang'' r;
     peerTouXiang \<leftarrow> (if p = None then Some [] else from_ptr p);
     o1 \<leftarrow> memcpy_field messageRecentSessionData ''touxiang'' peerTouXiang o0;
     peerId \<leftarrow> GetInt ''peerId'' r;
     ((peerClassNum, peerAccount), s1) \<leftarrow> getUserFromId api peerId ([], []) s;
     ((lastMsg, msgType1), s2) \<leftarrow> getLastMsg api nUserId peerId ([], msgType) s1;
     o2 \<leftarrow> memcpy_field messageRecentSessionData ''lastMessage'' lastMsg o1;
     o3 \<leftarrow> memcpy_field messageRecentSessionData ''classNum'' peerClassNum o2;
     o4 \<leftarrow> memcpy_field messageRecentSessionData ''account'' peerAccount o3;
     Some (lsContact @ [o4], s2)
   }"

definition getRecentSession ::
  "'d mysql \<Rightarrow> byte list \<Rightarrow> int \<Rightarrow> int \<Rightarrow> int \<Rightarrow> ('d, 'z) srv_scheme \<Rightarrow>
    (byte list list \<times> ('d, 'z) srv_scheme) option" where
  "getRecentSession api junk msgType nUserId lastTime s0 = do {
     (conn, s) \<leftarrow> acquire api 0 s0;
     (case conn of
        None \<Rightarrow> Some ([], s)
      | Some c \<Rightarrow>
          let (res, s1) = query api c (''select * from recentSession_table where userId = '' @ to_string nUserId @
                '' and status = 0 and updated <'' @ to_string lastTime @ '' order by updated desc limit 100'') s
          in do {
            (lsContact, s2) \<leftarrow> (case res of
               None \<Rightarrow> Some ([], s1)
             | Some r \<Rightarrow> while_next (recent_of_row api junk msgType nUserId) r ([], s1));
            Some (lsContact, give_back c s2)
          })
   }"

definition getSessionId ::
  "'d mysql \<Rightarrow> int \<Rightarrow> int \<Rightarrow> int \<Rightarrow> bool \<Rightarrow> ('d, 'z) srv_scheme \<Rightarrow> (int \<times> ('d, 'z) srv_scheme) option" where
  "getSessionId api nUserId nPeerId nType isAll s0 = do {
     (conn, s) \<leftarrow> acquire api 0 s0;
     (case conn of
        None \<Rightarrow> Some (- 1, s)
      | Some c \<Rightarrow>
          let (res, s1) = query api c (''select id from recentSession_table where userId='' @ to_string nUserId @
                '' and peerId='' @ to_string nPeerId @ '' and type='' @ to_string nType @
                (if isAll then [] else '' and status=0'')) s
          in do {
            nSessionId \<leftarrow> (case res of
               None \<Rightarrow> Some (- 1)
             | Some r \<Rightarrow> while_next (\<lambda>r _. GetInt ''id'' r) r (- 1));
            Some (nSessionId, give_back c s1)
          })
   }"

definition updateSession ::
  "'d mysql \<Rightarrow> int \<Rightarrow> int \<Rightarrow> ('d, 'z) srv_scheme \<Rightarrow> (bool \<times> ('d, 'z) srv_scheme) option" where
  "updateSession api nSessionId nUpdateTime = run_update api (\<lambda>s.
     ''update recentSession_table set `updated`='' @ to_string nUpdateTime @ '' where id='' @ to_string nSessionId)"

definition removeSession ::
  "'d mysql \<Rightarrow> int \<Rightarrow> ('d, 'z) srv_scheme \<Rightarrow> (bool \<times> ('d, 'z) srv_scheme) option" where
  "removeSession api nSessionId = run_update api (\<lambda>s.
     ''update recentSession_table set status = 1, updated='' @ to_string (api_time api (sv_db s) mod 2 ^ 32) @
     '' where id='' @ to_string nSessionId)"

definition addSession ::
  "'d mysql \<Rightarrow> int \<Rightarrow> int \<Rightarrow> int \<Rightarrow> string \<Rightarrow> ('d, 'z) srv_scheme \<Rightarrow> (int \<times> ('d, 'z) srv_scheme) option" where
  "addSession api nUserId nPeerId nType peerTouXiang s0 = do {
     (nSessionId, s1) \<leftarrow> getSessionId api nUserId nPeerId nType True s0;
     let nTimeNow = api_time api (sv_db s1);
     (conn, s) \<leftarrow> acquire api 0 s1;
     (case conn of
        None \<Rightarrow> Some (nSessionId, s)
      | Some c \<Rightarrow>
          if nSessionId \<noteq> - 1 then do {
            sql \<leftarrow> sprintf_buf 200 (''update recentSession_table set status=0, peerTouXiang = '' @ quoted peerTouXiang @
              '' , updated = '' @ quoted (to_string nTimeNow) @ '' where id = '' @ to_string nSessionId);
            let (bRet, s2) = update api c sql s;
            Some (if bRet then nSessionId else - 1, give_back c s2)
          } else
            let (newId, s2) = run_prepared api c
                  ''insert into recentSession_table (`userId`,`peerId`,`type`,`status`,`created`,`updated`,`peerTouXiang`) values(?,?,?,?,?,?,?)''
                  [Long nUserId, Long nPeerId, Long nType, Long 0, Long nTimeNow, Long nTimeNow, Str peerTouXiang] s
            in Some (newId, give_back c s2))
   }"

section \<open>Borrowed connections\<close>

text \<open>
  The contract between the pool and its clients, as the operations above use it: a request hands out a
  connection that nobody uses, and giving a used connection back makes it the one that is no longer used.
  Any code that runs between the two and leaves the list of used connections as it found it is then
  balanced as a whole.
\<close>

definition keeps :: "('s \<Rightarrow> bool) \<Rightarrow> ('s \<Rightarrow> 'c list) \<Rightarrow> 's \<Rightarrow> 's \<Rightarrow> bool" where
  "keeps ok used s t \<longleftrightarrow> (ok s \<longrightarrow> ok t \<and> used t = used s)"

lemma keeps_refl [simp]: "keeps ok used s s"
  by (simp add: keeps_def)

lemma keeps_trans: "keeps ok used s t \<Longrightarrow> keeps ok used t u \<Longrightarrow> keeps ok used s u"
  by (simp add: keeps_def)

locale connection_source =
  fixes get :: "'s \<Rightarrow> ('c option \<times> 's) option" and put :: "'c \<Rightarrow> 's \<Rightarrow> 's"
    and used :: "'s \<Rightarrow> 'c list" and ok :: "'s \<Rightarrow> bool"
  assumes get_some: "ok s \<Longrightarrow> get s = Some (Some c, t) \<Longrightarrow> ok t \<and> used t = used s @ [c] \<and> c \<notin> set (used s)"
    and get_none: "ok s \<Longrightarrow> get s = Some (None, t) \<Longrightarrow> ok t \<and> used t = used s"
    and put_used: "ok s \<Longrightarrow> c \<in> set (used s) \<Longrightarrow> ok (put c s) \<and> used (put c s) = removeAll c (used s)"
begin

lemma bracket:
  "get s = Some (Some c, t) \<Longrightarrow> keeps ok used t u \<Longrightarrow> keeps ok used r s \<Longrightarrow> keeps ok used r (put c u)"
  using get_some put_used unfolding keeps_def by fastforce

lemma refused: "get s = Some (None, t) \<Longrightarrow> keeps ok used r s \<Longrightarrow> keeps ok used r t"
  using get_none unfolding keeps_def by fastforce

end

abbreviation sv_ok :: "('d, 'z) srv_scheme \<Rightarrow> bool" where
  "sv_ok s \<equiv> pool_inv (sv_pool s)"

abbreviation sv_used :: "('d, 'z) srv_scheme \<Rightarrow> nat list" where
  "sv_used s \<equiv> m_used_list (sv_pool s)"

abbreviation sv_keeps :: "('d, 'z) srv_scheme \<Rightarrow> ('d, 'z) srv_scheme \<Rightarrow> bool" where
  "sv_keeps \<equiv> keeps sv_ok sv_used"

lemma fold_max_ge: "a \<le> fold max xs a \<and> (\<forall>x \<in> set xs. x \<le> fold max xs a)" for a :: nat
proof (induction xs arbitrary: a)
  case (Cons x xs)
  from Cons [of "max x a"] show ?case by auto
qed simp

lemma new_conn_fresh: "new_conn p \<notin> set (m_free_list p @ m_used_list p)"
proof
  assume "new_conn p \<in> set (m_free_list p @ m_used_list p)"
  then have "new_conn p \<le> fold max (m_free_list p @ m_used_list p) 0" using fold_max_ge by blast
  then show False by (simp add: new_conn_def)
qed

lemma GetDBConn_used:
  assumes "pool_inv p" "c \<notin> set (m_free_list p @ m_used_list p)" "GetDBConn c ret p = Some (r, q)"
  shows "(\<forall>k. r = Conn k \<longrightarrow> m_used_list q = m_used_list p @ [k] \<and> k \<notin> set (m_used_list p)) \<and>
    ((\<forall>k. r \<noteq> Conn k) \<longrightarrow> m_used_list q = m_used_list p)"
  using assms by (auto simp: GetDBConn_def take_front_def pool_inv_def split: if_splits list.splits)

lemma acquire_cases:
  assumes "acquire api timeout_ms s = Some (conn, t)"
  shows "\<exists>r ret. GetDBConn (new_conn (sv_pool s)) ret (sv_pool s) = Some (r, sv_pool t) \<and>
    (case conn of Some c \<Rightarrow> r = Conn c | None \<Rightarrow> (\<forall>k. r \<noteq> Conn k))"
  using assms
  by (auto simp: acquire_def Let_def split: prod.splits option.splits reply.splits if_splits)
    (metis reply.distinct)+

interpretation pool: connection_source "acquire api timeout_ms" give_back sv_used sv_ok
  for api :: "'d mysql" and timeout_ms :: int
proof unfold_locales
  fix s t :: "('d, 'z) srv_scheme" and c
  assume s: "sv_ok s" and get: "acquire api timeout_ms s = Some (Some c, t)"
  from acquire_cases [OF get] obtain ret where
    r: "GetDBConn (new_conn (sv_pool s)) ret (sv_pool s) = Some (Conn c, sv_pool t)" by auto
  show "sv_ok t \<and> sv_used t = sv_used s @ [c] \<and> c \<notin> set (sv_used s)"
    using GetDBConn_inv [OF s r new_conn_fresh] GetDBConn_used [OF s new_conn_fresh r] by blast
next
  fix s t :: "('d, 'z) srv_scheme"
  assume s: "sv_ok s" and get: "acquire api timeout_ms s = Some (None, t)"
  from acquire_cases [OF get] obtain r ret where
    r: "GetDBConn (new_conn (sv_pool s)) ret (sv_pool s) = Some (r, sv_pool t)" "\<forall>k. r \<noteq> Conn k" by auto
  show "sv_ok t \<and> sv_used t = sv_used s"
    using GetDBConn_inv [OF s r(1) new_conn_fresh] GetDBConn_used [OF s new_conn_fresh r(1)] r(2) by blast
next
  fix s :: "('d, 'z) srv_scheme" and c
  assume s: "sv_ok s" "c \<in> set (sv_used s)"
  then have "c \<notin> set (m_free_list (sv_pool s))" by (auto simp: pool_inv_def)
  then show "sv_ok (give_back c s) \<and> sv_used (give_back c s) = removeAll c (sv_used s)"
    using RelDBConn_inv [OF s] by (simp add: give_back_def RelDBConn_def)
qed

lemma on_db_keeps: "sv_keeps r s \<Longrightarrow> sv_keeps r (snd (on_db f s))"
  by (simp add: on_db_def keeps_def case_prod_beta)

lemma query_keeps: "sv_keeps r s \<Longrightarrow> sv_keeps r (snd (query api c sql s))"
  unfolding query_def by (rule on_db_keeps)

lemma update_keeps: "sv_keeps r s \<Longrightarrow> sv_keeps r (snd (update api c sql s))"
  unfolding update_def by (rule on_db_keeps)

lemma run_prepared_keeps: "sv_keeps r s \<Longrightarrow> sv_keeps r (snd (run_prepared api c sql params s))"
  unfolding run_prepared_def
  by (auto simp: Let_def case_prod_beta split: bool.split intro: on_db_keeps keeps_trans)

lemma while_next_keeps:
  assumes "\<And>r a b. f r a = Some b \<Longrightarrow> sv_keeps r0 (st a) \<Longrightarrow> sv_keeps r0 (st b)"
    "while_next f r a = Some b" "sv_keeps r0 (st a)"
  shows "sv_keeps r0 (st b)"
  using assms
proof (induction f r a rule: while_next.induct)
  case (1 f r a)
  show ?case
  proof (cases "fst (Next r)")
    case True
    with 1(3) obtain a1 where a1: "f (snd (Next r)) a = Some a1" "while_next f (snd (Next r)) a1 = Some b"
      by (subst (asm) while_next.simps) (auto simp: bind_eq_Some_conv)
    show ?thesis
    proof (rule 1(1) [OF True a1(1) _ a1(2)])
      show "sv_keeps r0 (st a1)" by (rule 1(2) [OF a1(1) 1(4)])
    qed (erule (1) 1(2))
  next
    case False
    with 1(3,4) show ?thesis by (subst (asm) while_next.simps) simp
  qed
qed

text \<open>The rules that show an operation balanced, and the case splits that expose its calls.\<close>

named_theorems balanced

lemmas pool_brackets = pool.bracket pool.refused

text \<open>A computation with a result, taken apart into its steps.\<close>

lemma case_option_Some_conv:
  "(case x of None \<Rightarrow> a | Some c \<Rightarrow> f c) = Some z \<longleftrightarrow> (x = None \<and> a = Some z) \<or> (\<exists>c. x = Some c \<and> f c = Some z)"
  by (cases x) auto

lemma if_Some_conv: "(if b then x else y) = Some z \<longleftrightarrow> (b \<and> x = Some z) \<or> (\<not> b \<and> y = Some z)"
  by simp

lemmas outcome = bind_eq_Some_conv case_option_Some_conv if_Some_conv Let_def case_prod_beta

declare keeps_refl [balanced] query_keeps [balanced] update_keeps [balanced] run_prepared_keeps [balanced]

lemma getUserId_keeps [balanced]: "getUserId api a b s = Some (x, t) \<Longrightarrow> sv_keeps r0 s \<Longrightarrow> sv_keeps r0 t"
  by (auto simp: getUserId_def outcome intro: pool_brackets balanced)

lemma getUserFromId_keeps [balanced]: "getUserFromId api i x0 s = Some (x, t) \<Longrightarrow> sv_keeps r0 s \<Longrightarrow> sv_keeps r0 t"
  by (auto simp: getUserFromId_def outcome intro: pool_brackets balanced)

lemma getTouXiang_keeps [balanced]: "getTouXiang api a b x0 s = Some (x, t) \<Longrightarrow> sv_keeps r0 s \<Longrightarrow> sv_keeps r0 t"
  by (auto simp: getTouXiang_def outcome intro: pool_brackets balanced)

lemma userExist_keeps [balanced]: "userExist api a b p s = Some (x, t) \<Longrightarrow> sv_keeps r0 s \<Longrightarrow> sv_keeps r0 t"
  by (auto simp: userExist_def outcome intro: pool_brackets balanced)

lemma addUserInfo_keeps [balanced]: "addUserInfo api a b p i s = Some (x, t) \<Longrightarrow> sv_keeps r0 s \<Longrightarrow> sv_keeps r0 t"
  by (auto simp: addUserInfo_def outcome intro: pool_brackets balanced)

lemma changeTouXiang_keeps [balanced]: "changeTouXiang api a b p s = Some (x, t) \<Longrightarrow> sv_keeps r0 s \<Longrightarrow> sv_keeps r0 t"
  by (auto simp: changeTouXiang_def outcome intro: pool_brackets balanced)

lemma user_GetTouXiang_keeps [balanced]: "user_GetTouXiang api a b x0 s = Some (x, t) \<Longrightarrow> sv_keeps r0 s \<Longrightarrow> sv_keeps r0 t"
  by (auto simp: user_GetTouXiang_def outcome intro: pool_brackets balanced)

lemma addRelation_keeps [balanced]: "addRelation api a b s = Some (x, t) \<Longrightarrow> sv_keeps r0 s \<Longrightarrow> sv_keeps r0 t"
  by (auto simp: addRelation_def outcome intro: pool_brackets balanced)

lemma getRelationId_keeps [balanced]:
  "getRelationId api a b add s = Some (x, t) \<Longrightarrow> sv_keeps r0 s \<Longrightarrow> sv_keeps r0 t"
  by (auto simp: getRelationId_def outcome intro: pool_brackets balanced)
    (erule addRelation_keeps, blast intro: pool_brackets balanced)+

lemma run_update_keeps [balanced]: "run_update api sql s = Some (x, t) \<Longrightarrow> sv_keeps r0 s \<Longrightarrow> sv_keeps r0 t"
  by (auto simp: run_update_def outcome intro: pool_brackets balanced)

lemma inserMessage_keeps [balanced]: "inserMessage api r a b m k st s = Some (x, t) \<Longrightarrow> sv_keeps r0 s \<Longrightarrow> sv_keeps r0 t"
  by (auto simp: inserMessage_def outcome intro: pool_brackets balanced)

lemma message_of_row_keeps [balanced]: "message_of_row api junk r a = Some b \<Longrightarrow> sv_keeps r0 (snd a) \<Longrightarrow> sv_keeps r0 (snd b)"
  by (auto simp: message_of_row_def outcome intro: balanced)

lemma getMessage_keeps [balanced]:
  assumes "getMessage api junk r l n s = Some (x, t)" "sv_keeps r0 s"
  shows "sv_keeps r0 t"
proof -
  have loop: "sv_keeps r1 v" if w: "while_next (message_of_row api junk) r (xs, u) = Some (ys, v)" "sv_keeps r1 u" for r xs ys u v r1
  proof -
    have "sv_keeps r1 (snd (ys, v))"
      by (rule while_next_keeps [where st = snd, OF _ w(1)]) (erule (1) message_of_row_keeps, simp add: w(2))
    then show ?thesis by simp
  qed
  from assms show ?thesis
    by (auto simp: getMessage_def outcome intro: pool_brackets query_keeps keeps_refl)
      (rule pool.bracket, assumption, erule loop, rule query_keeps, rule keeps_refl, assumption)
qed

lemma getLastMsg_keeps [balanced]: "getLastMsg api a b x0 s = Some (x, t) \<Longrightarrow> sv_keeps r0 s \<Longrightarrow> sv_keeps r0 t"
  by (auto simp: getLastMsg_def outcome intro: pool_brackets balanced)

lemma recent_of_row_keeps [balanced]: "recent_of_row api junk k u r a = Some b \<Longrightarrow> sv_keeps r0 (snd a) \<Longrightarrow> sv_keeps r0 (snd b)"
  by (auto simp: recent_of_row_def outcome intro: balanced)

lemma getRecentSession_keeps [balanced]:
  assumes "getRecentSession api junk k u0 l s = Some (x, t)" "sv_keeps r0 s"
  shows "sv_keeps r0 t"
proof -
  have loop: "sv_keeps r1 v" if w: "while_next (recent_of_row api junk k u0) r (xs, u) = Some (ys, v)" "sv_keeps r1 u" for r xs ys u v r1
  proof -
    have "sv_keeps r1 (snd (ys, v))"
      by (rule while_next_keeps [where st = snd, OF _ w(1)]) (erule (1) recent_of_row_keeps, simp add: w(2))
    then show ?thesis by simp
  qed
  from assms show ?thesis
    by (auto simp: getRecentSession_def outcome intro: pool_brackets query_keeps keeps_refl)
      (rule pool.bracket, assumption, erule loop, rule query_keeps, rule keeps_refl, assumption)
qed

lemma getSessionId_keeps [balanced]: "getSessionId api a b k al s = Some (x, t) \<Longrightarrow> sv_keeps r0 s \<Longrightarrow> sv_keeps r0 t"
  by (auto simp: getSessionId_def outcome intro: pool_brackets balanced)

lemma addSession_keeps [balanced]: "addSession api a b k p s = Some (x, t) \<Longrightarrow> sv_keeps r0 s \<Longrightarrow> sv_keeps r0 t"
  by (auto simp: addSession_def outcome intro: pool_brackets balanced)

section \<open>Properties\<close>

definition op_balanced :: "('d srv \<Rightarrow> ('a \<times> 'd srv) option) \<Rightarrow> bool" where
  "op_balanced f \<longleftrightarrow>
     (\<forall>s x t. sv_ok s \<longrightarrow> f s = Some (x, t) \<longrightarrow> sv_ok t \<and> sv_used t = sv_used s)"

lemma op_balancedI:
  assumes "\<And>r s x t. f s = Some (x, t) \<Longrightarrow> sv_keeps r s \<Longrightarrow> sv_keeps r t"
  shows "op_balanced f"
  unfolding op_balanced_def
proof (intro allI impI)
  fix s x t
  assume "sv_ok s" "f s = Some (x, t)"
  moreover from this(2) have "sv_keeps s t" by (rule assms) simp
  ultimately show "sv_ok t \<and> sv_used t = sv_used s" by (simp add: keeps_def)
qed

text \<open>No operation on the tables leaks a connection or gives back one it does not own: whatever the database
  answers, every operation that returns leaves the pool well formed and the same connections in use as
  before.\<close>

theorem models_balanced:
  "op_balanced (getUserId api cl ac) \<and> op_balanced (getUserFromId api i out) \<and>
   op_balanced (getTouXiang api cl ac tx) \<and> op_balanced (userExist api cl ac pw) \<and>
   op_balanced (addUserInfo api cl ac pw tx) \<and> op_balanced (changeTouXiang api cl ac tx) \<and>
   op_balanced (user_GetTouXiang api cl ac tx) \<and> op_balanced (getRelationId api i j add) \<and>
   op_balanced (addRelation api i j) \<and> op_balanced (updateRelation api i j) \<and>
   op_balanced (removeRelation api i) \<and> op_balanced (inserMessage api i j k tx ty st) \<and>
   op_balanced (getMessage api junk i j k) \<and> op_balanced (getLastMsg api i j msg) \<and>
   op_balanced (getRecentSession api junk ty i j) \<and> op_balanced (getSessionId api i j k al) \<and>
   op_balanced (updateSession api i j) \<and> op_balanced (removeSession api i) \<and>
   op_balanced (addSession api i j k tx)"
  unfolding updateRelation_def removeRelation_def updateSession_def removeSession_def
  by (intro conjI op_balancedI; erule (1) balanced)

text \<open>\<open>getUserId\<close> writes behind its buffer of 100 characters for names the wire format allows: as soon as
  the class number and the account have 37 characters together, and each may have 19, the text of the
  query does not fit.\<close>

theorem getUserId_overflow:
  assumes "37 \<le> length classnum + length account"
  shows "getUserId api classnum account s = None"
  using assms by (auto simp: getUserId_def sprintf_buf_def user_id_sql_def quoted_def split: Option.bind_split)

text \<open>The relation of two users does not depend on their order: the operation sorts the ids, so that both
  directions give the same id, the same queries and the same effect on the database.\<close>

theorem relation_symmetric:
  "getRelationId api nUserAId nUserBId bAdd s = getRelationId api nUserBId nUserAId bAdd s"
  by (cases nUserAId nUserBId rule: linorder_cases) (auto simp: getRelationId_def)

text \<open>A request without a time-out that has to wait, and for which nothing has changed that ends the wait.\<close>

definition must_wait :: "('d, 'z) srv_scheme \<Rightarrow> bool" where
  "must_wait s \<longleftrightarrow> (\<forall>fresh ret. GetDBConn fresh ret (sv_pool s) = Some (Wait, sv_pool s)) \<and> \<not> wait_over (sv_pool s)"

lemma must_wait_acquire: "must_wait s \<Longrightarrow> acquire api 0 s = None"
  by (simp add: must_wait_def acquire_def case_prod_beta)

text \<open>C38
  The history needs a second connection for every row: when the pool has a single one left and must not
  create another, a request with a result waits for the connection it holds itself. The request
  gets the connection, its query delivers a row, the content of the row and the id of its sender are read without
  an error, and then the look-up of the sender asks for a connection in a state in which none is free, none may be made,
  and the one that the request could wait for is in use by the request: it does not return.\<close>

theorem history_blocks:
  assumes "m_free_list (sv_pool s) = [c]" "m_db_max_conn_cnt (sv_pool s) \<le> m_db_cur_conn_cnt (sv_pool s)"
    and "\<not> m_abort_request (sv_pool s)" "length (message_sql relateId lastTime nowTime) < 200"
    and "fst (ExecuteQuery api c (message_sql relateId lastTime nowTime) (sv_db s)) = Some r" "fst (Next r)"
    and "GetString ''content'' (snd (Next r)) = Some (Some content)" "GetInt ''fromId'' (snd (Next r)) = Some fromId"
  shows "\<exists>s1 s2. acquire api 0 s = Some (Some c, s1) \<and>
    sprintf_buf 200 (message_sql relateId lastTime nowTime) = Some (message_sql relateId lastTime nowTime) \<and>
    query api c (message_sql relateId lastTime nowTime) s1 = (Some r, s2) \<and>
    must_wait s2 \<and> m_free_list (sv_pool s2) = [] \<and> m_used_list (sv_pool s2) = m_used_list (sv_pool s) @ [c] \<and>
    getUserFromId api fromId ([], []) s2 = None \<and>
    getMessage api junk relateId lastTime nowTime s = None"
proof -
  define s1 where "s1 = s\<lparr>sv_pool := (sv_pool s)\<lparr>m_free_list := [], m_used_list := m_used_list (sv_pool s) @ [c]\<rparr>\<rparr>"
  define s2 where "s2 = snd (query api c (message_sql relateId lastTime nowTime) s1)"
  have get: "acquire api 0 s = Some (Some c, s1)"
    using assms(1,3) by (simp add: acquire_def GetDBConn_def take_front_def s1_def case_prod_beta Let_def)
  have q: "query api c (message_sql relateId lastTime nowTime) s1 = (Some r, s2)" "sv_pool s2 = sv_pool s1"
    using assms(5) by (simp_all add: query_def on_db_def case_prod_beta s1_def s2_def)
  have pool: "m_free_list (sv_pool s2) = []" "m_used_list (sv_pool s2) = m_used_list (sv_pool s) @ [c]"
    by (simp_all add: q(2) s1_def)
  have wait: "must_wait s2"
    using assms(2,3) by (simp add: must_wait_def GetDBConn_def wait_over_def q(2) s1_def)
  have user: "getUserFromId api fromId ([], []) s2 = None"
    using must_wait_acquire [OF wait] by (simp add: getUserFromId_def)
  have fits: "sprintf_buf 200 (message_sql relateId lastTime nowTime) = Some (message_sql relateId lastTime nowTime)"
    using assms(4) by (simp add: sprintf_buf_def)
  have "message_of_row api junk (snd (Next r)) ([], s2) = None"
    using assms(7,8) user by (simp add: message_of_row_def)
  then have "while_next (message_of_row api junk) r ([], s2) = None"
    using assms(6) by (subst while_next.simps) simp
  then have "getMessage api junk relateId lastTime nowTime s = None"
    using get q(1) fits by (simp add: getMessage_def)
  then show ?thesis using get q(1) fits pool wait user by blast
qed

section \<open>A concrete database\<close>

text \<open>A server that answers every query with the same result, and a pool with two connections.\<close>

definition demo_api :: "result option mysql" where
  "demo_api = \<lparr>api_connect = (\<lambda>c d. (0, d)), api_ping = (\<lambda>c d. d), api_query = (\<lambda>c q d. (False, d)),
     api_store = (\<lambda>c d. (d, d)), api_affected = (\<lambda>c d. 1), api_insert_id = (\<lambda>c d. 7),
     api_prepare = (\<lambda>c q d. (Some 9, d)), api_bind = (\<lambda>c q b d. (False, d)),
     api_long_data = (\<lambda>c i b d. (False, d)), api_execute = (\<lambda>c q b d. (False, d)),
     api_time = (\<lambda>d. 1000)\<rparr>"

definition demo_srv :: "int \<Rightarrow> nat list \<Rightarrow> result option \<Rightarrow> result option srv" where
  "demo_srv cnt free d = \<lparr>sv_pool = \<lparr>m_free_list = free, m_used_list = [], m_db_cur_conn_cnt = 2,
     m_db_max_conn_cnt = cnt, m_abort_request = False\<rparr>, sv_db = d\<rparr>"

theorem getUserId_overflow_witness:
  "getUserId demo_api ''software-class-2022'' ''wang-xiaoming-12345'' (demo_srv 4 [1, 2] None) = None"
  by (rule getUserId_overflow) simp

theorem history_blocks_witness:
  "\<exists>s1 s2. acquire demo_api 0 (demo_srv 2 [1] (Some \<lparr>res_fields = [''content''], res_rows = [[Some ''hi'']]\<rparr>)) = Some (Some 1, s1) \<and>
     snd (query demo_api 1 (message_sql 5 0 100) s1) = s2 \<and> must_wait s2 \<and> m_used_list (sv_pool s2) = [1] \<and>
     getMessage demo_api [] 5 0 100 (demo_srv 2 [1] (Some \<lparr>res_fields = [''content''], res_rows = [[Some ''hi'']]\<rparr>)) = None"
proof -
  let ?d = "Some \<lparr>res_fields = [''content''], res_rows = [[Some ''hi'']]\<rparr>"
  let ?r = "CResultSet_ctor (the ?d)"
  have l: "length (message_sql 5 0 100) < 200" by code_simp
  have "fst (ExecuteQuery demo_api 1 (message_sql 5 0 100) (sv_db (demo_srv 2 [1] ?d))) = Some ?r"
    by (simp add: demo_srv_def demo_api_def ExecuteQuery_def)
  moreover have "fst (Next ?r)" "GetString ''content'' (snd (Next ?r)) = Some (Some ''hi'')"
    "GetInt ''fromId'' (snd (Next ?r)) = Some 0"
    by (simp_all add: CResultSet_ctor_def Next_def GetString_def GetInt_def GetIndex_def cell_def)
  ultimately obtain s1 s2 where "acquire demo_api 0 (demo_srv 2 [1] ?d) = Some (Some 1, s1)"
    "query demo_api 1 (message_sql 5 0 100) s1 = (Some ?r, s2)" "must_wait s2"
    "m_used_list (sv_pool s2) = m_used_list (sv_pool (demo_srv 2 [1] ?d)) @ [1]"
    "getMessage demo_api [] 5 0 100 (demo_srv 2 [1] ?d) = None"
    using history_blocks [of "demo_srv 2 [1] ?d" 1 5 0 100 demo_api ?r "''hi''" 0 "[]"] l
    by (auto simp: demo_srv_def)
  then show ?thesis by (intro exI [of _ s1] exI [of _ s2]) (simp add: demo_srv_def)
qed

end
