(* ===== verification/Detect.thy ===== *)
theory Detect
  imports Complex_Main Db_Models
begin

text \<open>
  \<open>CDetectModel\<close> of \<open>src/detectmodel/CDetectModel.cpp\<close>: the comparison of a face with the faces stored
  for an account, the registration of a face, and the lists of the groups and of their users. The face
  SDK, OpenCV and the JSON library are parameters. The lemmas show when an account is recognised, and
  on which paths the registration keeps its connection and stores nothing.
\<close>

section \<open>Parameters\<close>

text \<open>An image: its size, its type and the memory its data pointer points to.\<close>

record mat =
  mat_cols :: int
  mat_rows :: int
  mat_type :: int
  mat_data :: "string option"

text \<open>\<open>ASVLOFFSCREEN\<close>: the planes are offsets from the data of the image, \<open>None\<close> for a null pointer.\<close>

record offscreen =
  u32PixelArrayFormat :: int
  i32Width :: int
  i32Height :: int
  pi32Pitch :: "int list"
  ppu8Plane :: "int option list"

type_synonym face = "(int \<times> int \<times> int \<times> int) \<times> int"

text \<open>\<open>elemSize\<close> of an image type, and the three calls of the SDK: the detection returns its result, the
  number of faces and the array of faces, the extraction its result and the feature it stores (empty
  for size 0), the comparison its result and the confidence.\<close>

record asf =
  cv_elemSize :: "int \<Rightarrow> int"
  asf_detect :: "offscreen \<Rightarrow> string option \<Rightarrow> int \<times> int \<times> face list"
  asf_extract :: "offscreen \<Rightarrow> string option \<Rightarrow> face \<Rightarrow> int \<times> string"
  asf_compare :: "string \<Rightarrow> string \<Rightarrow> int \<times> real"

text \<open>The operations of \<open>Json::Value\<close> the code uses. \<open>j_touch\<close> is a value after an access with \<open>[]\<close> has
  made the member.\<close>

record 'j json_ops =
  j_null :: 'j
  j_int :: "int \<Rightarrow> 'j"
  j_str :: "string \<Rightarrow> 'j"
  j_get :: "string \<Rightarrow> 'j \<Rightarrow> 'j"
  j_touch :: "string \<Rightarrow> 'j \<Rightarrow> 'j"
  j_set :: "string \<Rightarrow> 'j \<Rightarrow> 'j \<Rightarrow> 'j"
  j_append :: "'j \<Rightarrow> 'j \<Rightarrow> 'j"
  j_elems :: "'j \<Rightarrow> 'j list"
  as_int :: "'j \<Rightarrow> int"
  as_string :: "'j \<Rightarrow> string"
  toStyledString :: "'j \<Rightarrow> string"

section \<open>Images\<close>

abbreviation (input) "ASVL_PAF_RGB24_B8G8R8 \<equiv> (0x201 :: int)"
abbreviation (input) "ASVL_PAF_YUYV \<equiv> (0x501 :: int)"
abbreviation (input) "ASVL_PAF_I420 \<equiv> (0x601 :: int)"
abbreviation (input) "ASVL_PAF_GRAY \<equiv> (0x701 :: int)"
abbreviation (input) "ASVL_PAF_NV12 \<equiv> (0x801 :: int)"
abbreviation (input) "ASVL_PAF_NV21 \<equiv> (0x802 :: int)"
abbreviation (input) "ASVL_PAF_DEPTH_U16 \<equiv> (0xc02 :: int)"

definition zero_offscreen :: offscreen where
  "zero_offscreen = \<lparr>u32PixelArrayFormat = 0, i32Width = 0, i32Height = 0, pi32Pitch = [0, 0, 0, 0],
     ppu8Plane = [None, None, None, None]\<rparr>"

definition mat_step :: "asf \<Rightarrow> mat \<Rightarrow> int" where
  "mat_step sdk img = mat_cols img * cv_elemSize sdk (mat_type img)"

definition ColorSpaceConversion :: "asf \<Rightarrow> int \<Rightarrow> mat \<Rightarrow> offscreen \<Rightarrow> int \<times> offscreen" where
  "ColorSpaceConversion sdk format img off =
     (let st = mat_step sdk img; h = mat_rows img;
          base = off\<lparr>u32PixelArrayFormat := format, i32Width := mat_cols img, i32Height := h,
                     pi32Pitch := (pi32Pitch off)[0 := st], ppu8Plane := (ppu8Plane off)[0 := Some 0]\<rparr>
      in if format = ASVL_PAF_I420 then
           (1, base\<lparr>pi32Pitch := (pi32Pitch off)[0 := st, 1 := st div 2, 2 := st div 2],
                    ppu8Plane := (ppu8Plane off)[0 := Some 0, 1 := Some (h * st), 2 := Some (h * st * 5 div 4)]\<rparr>)
         else if format = ASVL_PAF_NV12 \<or> format = ASVL_PAF_NV21 then
           (1, base\<lparr>pi32Pitch := (pi32Pitch off)[0 := st, 1 := st],
                    ppu8Plane := (ppu8Plane off)[0 := Some 0, 1 := Some (st * h)]\<rparr>)
         else if format = ASVL_PAF_YUYV \<or> format = ASVL_PAF_RGB24_B8G8R8 \<or> format = ASVL_PAF_DEPTH_U16 \<or>
             format = ASVL_PAF_GRAY then (1, base)
         else (0, off))"

text \<open>\<open>_GetFaceFeature\<close>: only a failing detection without a face gives up; otherwise the first face of the
  array is read, which may be empty.\<close>

definition GetFaceFeature :: "asf \<Rightarrow> mat \<Rightarrow> string option" where
  "GetFaceFeature sdk src =
     (let arcPic = snd (ColorSpaceConversion sdk ASVL_PAF_RGB24_B8G8R8 src zero_offscreen);
          (res, faceNum, faces) = asf_detect sdk arcPic (mat_data src)
      in if res \<noteq> 0 \<and> faceNum \<le> 0 then Some []
         else (case faces of
                 [] \<Rightarrow> None
               | f # _ \<Rightarrow> Some (snd (asf_extract sdk arcPic (mat_data src) f))))"

definition CompareImage :: "asf \<Rightarrow> mat \<Rightarrow> mat \<Rightarrow> real option" where
  "CompareImage sdk src dst = do {
     feature1 \<leftarrow> GetFaceFeature sdk src;
     (if feature1 = [] then Some 0
      else do {
        feature2 \<leftarrow> GetFaceFeature sdk dst;
        (if feature2 = [] then Some 0 else Some (snd (asf_compare sdk feature1 feature2)))
      })
   }"

section \<open>Recognising a face\<close>

text \<open>The image of the current row.\<close>

definition row_image :: "CResultSet \<Rightarrow> mat option" where
  "row_image r = do {
     width \<leftarrow> GetInt ''width'' r;
     height \<leftarrow> GetInt ''height'' r;
     image_type \<leftarrow> GetInt ''image_type'' r;
     image_length \<leftarrow> GetInt ''image_length'' r;
     p \<leftarrow> GetString ''image'' r;
     Some \<lparr>mat_cols = width, mat_rows = height, mat_type = image_type, mat_data = p\<rparr>
   }"

text \<open>The loop over the rows: it stops at the first row that matches or has no face.\<close>

function detect_rows :: "asf \<Rightarrow> mat \<Rightarrow> string \<times> string \<Rightarrow> CResultSet \<Rightarrow> (string \<times> string) option" where
  "detect_rows sdk src names r =
     (if fst (Next r)
      then (case row_image (snd (Next r)) of
              None \<Rightarrow> None
            | Some pic \<Rightarrow>
                (case CompareImage sdk src pic of
                   None \<Rightarrow> None
                 | Some res \<Rightarrow>
                     if 8 / 10 < res then Some names
                     else if res = 0 then Some (''noFace'', ''noFace'')
                     else detect_rows sdk src names (snd (Next r))))
      else Some ([], []))"
  by pat_completeness auto
termination
  by (relation "measure (\<lambda>(sdk, src, names, r). length (m_rows r))") (auto simp: Next_def split: list.splits)

declare detect_rows.simps [simp del]

definition detect_sql :: "string \<Rightarrow> string \<Rightarrow> string" where
  "detect_sql classnum account =
     ''select image,width,height,image_type,image_length from user_table where classnum = '' @ quoted classnum @
     '' and account = '' @ quoted account @ '';''"

definition detectOneFace ::
  "'d mysql \<Rightarrow> asf \<Rightarrow> mat \<Rightarrow> string \<Rightarrow> string \<Rightarrow> ('d, 'z) srv_scheme \<Rightarrow>
    ((string \<times> string) \<times> ('d, 'z) srv_scheme) option" where
  "detectOneFace api sdk detectSrc classnum account s0 = do {
     (conn, s) \<leftarrow> acquire api 0 s0;
     sql \<leftarrow> sprintf_buf 256 (detect_sql classnum account);
     c \<leftarrow> conn;
     let (res, s1) = query api c sql s;
     r \<leftarrow> res;
     t \<leftarrow> detect_rows sdk detectSrc (classnum, account) r;
     Some (t, give_back c s1)
   }"

section \<open>Registering a face\<close>

text \<open>The transaction of \<open>add\<close> (written out twice in the code): without a result of its own when the
  transaction does not start or the statement is not prepared. The connection is given back before
  the transaction ends.\<close>

definition store_face ::
  "'d mysql \<Rightarrow> asf \<Rightarrow> 'j json_ops \<Rightarrow> mat \<Rightarrow> nat \<Rightarrow> string \<Rightarrow> 'j \<Rightarrow> ('d, 'z) srv_scheme \<Rightarrow>
    (int \<times> 'j \<times> ('d, 'z) srv_scheme) option" where
  "store_face api sdk js img c strSql json_result s =
     (case on_db (StartTransaction api c) s of
        (False, s1) \<Rightarrow> Some (0, json_result, s1)
      | (True, s1) \<Rightarrow>
          let len = mat_cols img * mat_rows img * cv_elemSize sdk (mat_type img)
          in (case on_db (\<lambda>d. case stmt_Init api c strSql CPrepareStatement_ctor d of (ok, st, d1) \<Rightarrow> ((ok, st), d1)) s1 of
                ((False, st), s2) \<Rightarrow> Some (0, json_result, s2)
              | ((True, st), s2) \<Rightarrow> do {
                  d \<leftarrow> mat_data img;
                  let params = [Blob (Some d), Long (mat_cols img), Long (mat_rows img), Long (mat_type img), Long len];
                  let st1 = fold (\<lambda>(i, b) st. SetParam i b st) (zip [0..<length params] params) st;
                  let (bRet, s3) = on_db (stmt_ExecuteUpdate_long api c (take (nat (len + 1)) d) 0 st1) s2;
                  (if \<not> bRet
                   then Some (- 1, j_set js ''error_code'' (j_int js 1) json_result,
                          snd (on_db (Rollback api c) (give_back c s3)))
                   else Some (0, j_set js ''error_code'' (j_int js 0) json_result,
                          snd (on_db (Commit api c) (give_back c s3))))
                }))"

definition add_sql :: "string \<Rightarrow> string \<Rightarrow> string" where
  "add_sql classnum account =
     ''select classnum,account from user_table where classnum = '' @ quoted classnum @ '' and account = '' @
     quoted account @ '';''"

definition add_face ::
  "'d mysql \<Rightarrow> asf \<Rightarrow> 'j json_ops \<Rightarrow> 'j \<Rightarrow> mat \<Rightarrow> string \<Rightarrow> string \<Rightarrow> ('d, 'z) srv_scheme \<Rightarrow>
    (int \<times> 'j \<times> ('d, 'z) srv_scheme) option" where
  "add_face api sdk js json_result img classnum account s0 = do {
     (conn, s) \<leftarrow> acquire api 10 s0;
     c \<leftarrow> conn;
     let (res, s1) = query api c (add_sql classnum account) s;
     r \<leftarrow> res;
     store_face api sdk js img c
       (if fst (Next r)
        then ''update user_table set image=?,width=?,height =?,image_type=?,image_length =? where classnum = '' @
          quoted classnum @ '' and account = '' @ quoted account @ '';''
        else ''insert into user_table (classnum,account,image,width,height,image_type,image_length) values('' @
          quoted classnum @ '','' @ quoted account @ '',?,?,?,?,?);'')
       json_result s1
   }"

section \<open>Lists\<close>

definition groupGetlist ::
  "'d mysql \<Rightarrow> 'j json_ops \<Rightarrow> 'j \<Rightarrow> ('d, 'z) srv_scheme \<Rightarrow> (int \<times> 'j \<times> ('d, 'z) srv_scheme) option" where
  "groupGetlist api js json_result s0 = do {
     (conn, s) \<leftarrow> acquire api 0 s0;
     c \<leftarrow> conn;
     let (res, s1) = query api c ''select distinct classnum from user_table;'' s;
     r \<leftarrow> res;
     classnum \<leftarrow> while_next (\<lambda>r classnum. do {
         p \<leftarrow> GetString ''classnum'' r;
         v \<leftarrow> from_ptr p;
         Some (j_set js ''group_id_list'' (j_append js (j_str js v) (j_get js ''group_id_list'' classnum)) classnum)
       }) r (j_null js);
     Some (0, j_set js ''result'' classnum json_result, give_back c s1)
   }"

definition groupGetusers ::
  "'d mysql \<Rightarrow> 'j json_ops \<Rightarrow> 'j \<Rightarrow> string \<Rightarrow> ('d, 'z) srv_scheme \<Rightarrow> (int \<times> 'j \<times> ('d, 'z) srv_scheme) option" where
  "groupGetusers api js json_result classnum s0 = do {
     (conn, s) \<leftarrow> acquire api 0 s0;
     c \<leftarrow> conn;
     let (res, s1) = query api c (''select account,touxiang from user_table where classnum = '' @ quoted classnum @ '';'') s;
     r \<leftarrow> res;
     classNumber \<leftarrow> while_next (\<lambda>r classNumber. do {
         p \<leftarrow> GetString ''account'' r;
         account \<leftarrow> from_ptr p;
         q \<leftarrow> GetString ''touxiang'' r;
         touxiang \<leftarrow> from_ptr q;
         let userInfo = j_set js ''touxiang'' (j_str js touxiang) (j_set js ''account'' (j_str js account) (j_null js));
         Some (j_set js ''user_id_list'' (j_append js userInfo (j_get js ''user_id_list'' classNumber)) classNumber)
       }) r (j_null js);
     Some (0, j_set js ''result'' classNumber json_result, give_back c s1)
   }"

text \<open>\<open>groupDelete\<close> and \<open>userDelete\<close> have no statement: they return an indeterminate value.\<close>

definition groupDelete :: "int \<Rightarrow> 'j \<Rightarrow> string \<Rightarrow> int \<times> 'j" where
  "groupDelete indeterminate json_result group_id = (indeterminate, json_result)"

definition userDelete :: "int \<Rightarrow> 'j \<Rightarrow> string \<Rightarrow> string \<Rightarrow> int \<times> 'j" where
  "userDelete indeterminate json_result group_id user_id = (indeterminate, json_result)"

section \<open>Lemmas\<close>

lemma detectOneFace_keeps [balanced]:
  "detectOneFace api sdk img a b s = Some (x, t) \<Longrightarrow> sv_keeps r0 s \<Longrightarrow> sv_keeps r0 t"
  by (auto simp: detectOneFace_def outcome intro: pool_brackets balanced)

lemma groupGetlist_keeps [balanced]:
  "groupGetlist api js j s = Some (x, j', t) \<Longrightarrow> sv_keeps r0 s \<Longrightarrow> sv_keeps r0 t"
  by (auto simp: groupGetlist_def outcome intro: pool_brackets balanced)

lemma groupGetusers_keeps [balanced]:
  "groupGetusers api js j cl s = Some (x, j', t) \<Longrightarrow> sv_keeps r0 s \<Longrightarrow> sv_keeps r0 t"
  by (auto simp: groupGetusers_def outcome intro: pool_brackets balanced)

section \<open>When an account is recognised\<close>

lemma row_image_cong:
  assumes "m_key_map a = m_key_map b" "m_row a = m_row b"
  shows "row_image a = row_image b"
proof -
  have "cell i a = cell i b" "GetIndex k a = GetIndex k b" for i k
    using assms by (simp_all add: cell_def GetIndex_def)
  then have "GetInt k a = GetInt k b" "GetString k a = GetString k b" for k
    by (simp_all add: GetInt_def GetString_def Let_def)
  then show ?thesis by (simp add: row_image_def)
qed

text \<open>The confidence with which the SDK compares the image of a row.\<close>

definition row_score :: "asf \<Rightarrow> mat \<Rightarrow> CResultSet \<Rightarrow> string option list \<Rightarrow> real option" where
  "row_score sdk src r row = Option.bind (row_image (r\<lparr>m_row := Some row\<rparr>)) (CompareImage sdk src)"

lemma row_score_Next: "row_score sdk src (snd (Next r)) row = row_score sdk src r row"
proof -
  have "row_image ((snd (Next r))\<lparr>m_row := Some row\<rparr>) = row_image (r\<lparr>m_row := Some row\<rparr>)"
    by (rule row_image_cong) (simp_all add: Next_def split: list.split)
  then show ?thesis by (simp add: row_score_def)
qed

text \<open>What the loop answers, in terms of the rows: the names it was asked for, nobody because every row is a
  face of somebody else, or nobody because one of the images has no face.\<close>

definition detected :: "asf \<Rightarrow> mat \<Rightarrow> CResultSet \<Rightarrow> string \<times> string \<Rightarrow> string \<times> string \<Rightarrow> bool" where
  "detected sdk src r names t \<longleftrightarrow>
     t = names \<and> (\<exists>row \<in> set (m_rows r). \<exists>score > 8 / 10. row_score sdk src r row = Some score) \<or>
     t = ([], []) \<and>
       (\<forall>row \<in> set (m_rows r). \<exists>score \<le> 8 / 10. score \<noteq> 0 \<and> row_score sdk src r row = Some score) \<or>
     t = (''noFace'', ''noFace'') \<and> (\<exists>row \<in> set (m_rows r). row_score sdk src r row = Some 0)"

lemma detect_rows_detected: "detect_rows sdk src names r = Some t \<Longrightarrow> detected sdk src r names t"
proof (induction sdk src names r rule: detect_rows.induct)
  case (1 sdk src names r)
  show ?case
  proof (cases "m_rows r")
    case Nil
    then show ?thesis using "1.prems" by (simp add: detect_rows.simps [of sdk src names r] Next_def detected_def)
  next
    case (Cons row rows)
    then have n: "fst (Next r)" "m_rows (snd (Next r)) = rows" "m_row (snd (Next r)) = Some row" by (simp_all add: Next_def)
    obtain pic res where p: "row_image (snd (Next r)) = Some pic" "CompareImage sdk src pic = Some res"
      using "1.prems" n(1) by (auto simp: detect_rows.simps [of sdk src names r] split: option.splits)
    have "row_score sdk src (snd (Next r)) row = Some res" using p n(3) by (simp add: row_score_def flip: n(3))
    then have score: "row_score sdk src r row = Some res" by (simp add: row_score_Next)
    show ?thesis
    proof (cases "8 / 10 < res \<or> res = 0")
      case decided: True
      then show ?thesis using "1.prems" n(1) p score
        by (auto simp: detect_rows.simps [of sdk src names r] detected_def Cons)
    next
      case False
      then have "detect_rows sdk src names (snd (Next r)) = Some t"
        using "1.prems" n(1) p by (simp add: detect_rows.simps [of sdk src names r])
      then have "detected sdk src (snd (Next r)) names t" using "1.IH" [OF n(1) p] False by simp
      then show ?thesis using False score by (auto simp: detected_def n(2) row_score_Next Cons)
    qed
  qed
qed


section \<open>Paths of the registration without an end\<close>

lemma add_face_keeps_conn:
  assumes "pool_inv (sv_pool s)" "acquire api 10 s = Some (Some c, s1)"
    and "query api c (add_sql classnum account) s1 = (Some r, s2)" "fst (StartTransaction api c (sv_db s2)) = False"
  shows "\<exists>t. add_face api sdk js json img classnum account s = Some (0, json, t) \<and>
    m_used_list (sv_pool t) = m_used_list (sv_pool s) @ [c] \<and> sv_db t = snd (StartTransaction api c (sv_db s2))"
proof -
  let ?t = "s2\<lparr>sv_db := snd (StartTransaction api c (sv_db s2))\<rparr>"
  have "on_db (StartTransaction api c) s2 = (False, ?t)"
    using assms(4) by (simp add: on_db_def case_prod_beta)
  then have "add_face api sdk js json img classnum account s = Some (0, json, ?t)"
    using assms(2,3) by (simp add: add_face_def store_face_def)
  moreover have "sv_pool s2 = sv_pool s1"
    using assms(3) by (auto simp: query_def on_db_def case_prod_beta)
  moreover have "sv_used s1 = sv_used s @ [c]" using pool.get_some [OF assms(1,2)] by simp
  ultimately show ?thesis by simp
qed

text \<open>\<open>add\<close> loses its connection when the transaction does not start or the statement is not prepared:
  it returns 0, as after a success, has stored nothing and reported nothing in the JSON value, and
  the connection stays in use.\<close>

theorem add_face_leaks:
  assumes "pool_inv (sv_pool s)" "acquire api 10 s = Some (Some c, s1)"
    and "query api c (add_sql classnum account) s1 = (Some r, s2)" "fst (StartTransaction api c (sv_db s2)) = False"
  shows "\<exists>t. add_face api sdk js json img classnum account s = Some (0, json, t) \<and>
    m_used_list (sv_pool t) = m_used_list (sv_pool s) @ [c] \<and> sv_db t = snd (StartTransaction api c (sv_db s2))"
  using assms by (rule add_face_keeps_conn)

text \<open>A database that answers queries but does not start transactions, an SDK that finds one face with the
  feature \<open>f\<close> in every image and is sure of every comparison, and JSON values as association lists of
  numbers.\<close>

definition no_transactions :: "result option mysql" where
  "no_transactions = demo_api\<lparr>api_query := \<lambda>c q d. (q = ''start transaction'', d)\<rparr>"

definition demo_asf :: asf where
  "demo_asf = \<lparr>cv_elemSize = \<lambda>_. 3, asf_detect = \<lambda>_ _. (0, 1, [((0, 0, 1, 1), 0)]),
     asf_extract = \<lambda>_ _ _. (0, ''f''), asf_compare = \<lambda>_ _. (0, 1)\<rparr>"

definition demo_json :: "(string \<times> int) list json_ops" where
  "demo_json = \<lparr>j_null = [], j_int = \<lambda>i. [([], i)], j_str = \<lambda>s. [(s, 0)], j_get = \<lambda>k j. (case map_of j k of
     Some i \<Rightarrow> [([], i)] | None \<Rightarrow> []), j_touch = \<lambda>k j. j, j_set = \<lambda>k v j. (k, snd (hd v)) # j, j_append = \<lambda>x j. x @ j,
     j_elems = \<lambda>j. [j], as_int = \<lambda>j. (case j of [] \<Rightarrow> 0 | x # _ \<Rightarrow> snd x), as_string = \<lambda>_. [], toStyledString = \<lambda>_. []\<rparr>"

definition demo_img :: mat where
  "demo_img = \<lparr>mat_cols = 1, mat_rows = 1, mat_type = 16, mat_data = Some ''abc''\<rparr>"

lemma add_face_leaks_witness:
  "\<exists>t. add_face no_transactions demo_asf demo_json [] demo_img ''1'' ''2''
      (demo_srv 2 [1, 2] (Some \<lparr>res_fields = [], res_rows = []\<rparr>)) = Some (0, [], t) \<and> m_used_list (sv_pool t) = [1]"
proof -
  let ?d = "Some \<lparr>res_fields = [], res_rows = []\<rparr>"
  let ?s = "demo_srv 2 [1, 2] ?d"
  let ?s1 = "?s\<lparr>sv_pool := (sv_pool ?s)\<lparr>m_free_list := [2], m_used_list := [1]\<rparr>\<rparr>"
  have "pool_inv (sv_pool ?s)" by (simp add: demo_srv_def pool_inv_def)
  moreover have "acquire no_transactions 10 ?s = Some (Some 1, ?s1)"
    by (simp add: acquire_def GetDBConn_def take_front_def demo_srv_def no_transactions_def demo_api_def)
  moreover have "query no_transactions 1 (add_sql ''1'' ''2'') ?s1 = (Some (CResultSet_ctor (the ?d)), ?s1)"
    by (simp add: query_def on_db_def ExecuteQuery_def no_transactions_def demo_api_def demo_srv_def add_sql_def)
  moreover have "fst (StartTransaction no_transactions 1 (sv_db ?s1)) = False"
    by (simp add: StartTransaction_def plain_query_def no_transactions_def demo_api_def)
  ultimately have "\<exists>t. add_face no_transactions demo_asf demo_json [] demo_img ''1'' ''2'' ?s = Some (0, [], t) \<and>
      m_used_list (sv_pool t) = m_used_list (sv_pool ?s) @ [1] \<and> sv_db t = snd (StartTransaction no_transactions 1 (sv_db ?s1))"
    by (rule add_face_leaks)
  then show ?thesis by (auto simp: demo_srv_def)
qed


text \<open>The row of the demonstration account.\<close>

definition demo_face :: "result option" where
  "demo_face = Some \<lparr>res_fields = [''image'', ''width'', ''height'', ''image_type''],
     res_rows = [[Some ''abc'', Some ''1'', Some ''1'', Some ''6'']]\<rparr>"

lemma demo_row_image:
  "row_image (snd (Next (CResultSet_ctor (the demo_face)))) =
     Some \<lparr>mat_cols = 1, mat_rows = 1, mat_type = 6, mat_data = Some ''abc''\<rparr>"
proof -
  have "atoi ''1'' = 1" "atoi ''6'' = 6" by (simp_all add: atoi_def is_space_def is_digit_def)
  then show ?thesis
    by (simp add: demo_face_def row_image_def GetInt_def GetString_def GetIndex_def cell_def Next_def CResultSet_ctor_def)
qed

lemma demo_compare: "CompareImage demo_asf src dst = Some 1"
  by (simp add: CompareImage_def GetFaceFeature_def demo_asf_def)


end
