(* ===== verification/Db_Frame.thy ===== *)
theory Db_Frame
  imports Detect
begin

text \<open>
  What the operations on the tables and on the faces leave alone: everything of the server's state
  beyond the pool and the database. One lemma per operation, for the handlers to build on.
\<close>

named_theorems rest

section \<open>The steps\<close>

lemma acquire_rest [rest]: "acquire api tm s = Some (c, t) \<Longrightarrow> srv.more t = srv.more s"
  by (auto simp: acquire_def Let_def split: prod.splits option.splits reply.splits if_splits)

lemma give_back_rest [simp]: "srv.more (give_back c s) = srv.more s"
  by (simp add: give_back_def)

lemma on_db_rest [simp]: "srv.more (snd (on_db f s)) = srv.more s"
  by (simp add: on_db_def case_prod_beta)

lemma query_rest [simp]: "srv.more (snd (query api c sql s)) = srv.more s"
  by (simp add: query_def)

lemma update_rest [simp]: "srv.more (snd (update api c sql s)) = srv.more s"
  by (simp add: update_def)

lemma run_prepared_rest [simp]: "srv.more (snd (run_prepared api c sql params s)) = srv.more s"
  by (simp add: run_prepared_def Let_def case_prod_beta split: bool.split)

lemma while_next_rest:
  assumes "\<And>r a b. f r a = Some b \<Longrightarrow> srv.more (snd b) = srv.more (snd a)"
    "while_next f r a = Some b"
  shows "srv.more (snd b) = srv.more (snd a)"
  using assms
proof (induction f r a rule: while_next.induct)
  case (1 f r a)
  show ?case
  proof (cases "fst (Next r)")
    case True
    with 1(3) obtain a1 where a1: "f (snd (Next r)) a = Some a1" "while_next f (snd (Next r)) a1 = Some b"
      by (subst (asm) while_next.simps) (auto simp: bind_eq_Some_conv)
    show ?thesis using 1(1) [OF True a1(1) 1(2) a1(2)] 1(2) [OF a1(1)] by simp
  next
    case False
    with 1(3) show ?thesis by (subst (asm) while_next.simps) simp
  qed
qed

section \<open>The tables\<close>

lemma getUserId_rest [rest]: "getUserId api a b s = Some (x, t) \<Longrightarrow> srv.more t = srv.more s"
  by (auto simp: getUserId_def outcome dest!: rest)

lemma getUserFromId_rest [rest]: "getUserFromId api i x0 s = Some (x, t) \<Longrightarrow> srv.more t = srv.more s"
  by (auto simp: getUserFromId_def outcome dest!: rest)

lemma getTouXiang_rest [rest]: "getTouXiang api a b x0 s = Some (x, t) \<Longrightarrow> srv.more t = srv.more s"
  by (auto simp: getTouXiang_def outcome dest!: rest)

lemma userExist_rest [rest]: "userExist api a b p s = Some (x, t) \<Longrightarrow> srv.more t = srv.more s"
  by (auto simp: userExist_def outcome dest!: rest)

lemma addUserInfo_rest [rest]: "addUserInfo api a b p i s = Some (x, t) \<Longrightarrow> srv.more t = srv.more s"
  by (auto simp: addUserInfo_def outcome dest!: rest)

lemma changeTouXiang_rest [rest]: "changeTouXiang api a b p s = Some (x, t) \<Longrightarrow> srv.more t = srv.more s"
  by (auto simp: changeTouXiang_def outcome dest!: rest)

lemma addRelation_rest [rest]: "addRelation api a b s = Some (x, t) \<Longrightarrow> srv.more t = srv.more s"
  by (auto simp: addRelation_def outcome dest!: rest)

lemma getRelationId_rest [rest]: "getRelationId api a b add s = Some (x, t) \<Longrightarrow> srv.more t = srv.more s"
  by (auto simp: getRelationId_def outcome dest!: rest)

lemma run_update_rest [rest]: "run_update api sql s = Some (x, t) \<Longrightarrow> srv.more t = srv.more s"
  by (auto simp: run_update_def outcome dest!: rest)

lemma inserMessage_rest [rest]: "inserMessage api i a b m k st s = Some (x, t) \<Longrightarrow> srv.more t = srv.more s"
  by (auto simp: inserMessage_def outcome dest!: rest)

lemma message_of_row_rest: "message_of_row api junk r a = Some b \<Longrightarrow> srv.more (snd b) = srv.more (snd a)"
  by (auto simp: message_of_row_def outcome dest!: rest)

lemma getMessage_rest [rest]: "getMessage api junk i l n s = Some (x, t) \<Longrightarrow> srv.more t = srv.more s"
  by (auto simp: getMessage_def outcome dest!: rest while_next_rest [OF message_of_row_rest, rotated])

lemma getLastMsg_rest [rest]: "getLastMsg api a b x0 s = Some (x, t) \<Longrightarrow> srv.more t = srv.more s"
  by (auto simp: getLastMsg_def outcome dest!: rest)

lemma recent_of_row_rest: "recent_of_row api junk k u r a = Some b \<Longrightarrow> srv.more (snd b) = srv.more (snd a)"
  by (auto simp: recent_of_row_def outcome dest!: rest)

lemma getRecentSession_rest [rest]:
  "getRecentSession api junk k u l s = Some (x, t) \<Longrightarrow> srv.more t = srv.more s"
  by (auto simp: getRecentSession_def outcome dest!: rest while_next_rest [OF recent_of_row_rest, rotated])

lemma getSessionId_rest [rest]: "getSessionId api a b k al s = Some (x, t) \<Longrightarrow> srv.more t = srv.more s"
  by (auto simp: getSessionId_def outcome dest!: rest)

lemma updateSession_rest [rest]: "updateSession api i tm s = Some (x, t) \<Longrightarrow> srv.more t = srv.more s"
  unfolding updateSession_def by (rule run_update_rest)

lemma addSession_rest [rest]: "addSession api a b k p s = Some (x, t) \<Longrightarrow> srv.more t = srv.more s"
  by (auto simp: addSession_def outcome dest!: rest)

section \<open>The faces\<close>

lemma detectOneFace_rest [rest]: "detectOneFace api sdk img a b s = Some (x, t) \<Longrightarrow> srv.more t = srv.more s"
  by (auto simp: detectOneFace_def outcome dest!: rest)

lemma groupGetlist_rest [rest]: "groupGetlist api js j s = Some (x, j', t) \<Longrightarrow> srv.more t = srv.more s"
  by (auto simp: groupGetlist_def outcome dest!: rest)

lemma groupGetusers_rest [rest]: "groupGetusers api js j cl s = Some (x, j', t) \<Longrightarrow> srv.more t = srv.more s"
  by (auto simp: groupGetusers_def outcome dest!: rest)

lemma store_face_rest: "store_face api sdk js img c sql j s = Some (x, j', t) \<Longrightarrow> srv.more t = srv.more s"
  by (auto simp: store_face_def outcome split: bool.splits prod.splits dest!: arg_cong [where f = snd])

lemma add_face_rest [rest]: "add_face api sdk js j img a b s = Some (x, j', t) \<Longrightarrow> srv.more t = srv.more s"
  by (auto simp: add_face_def outcome dest!: rest store_face_rest)

end
