(* ===== verification/Handlers.thy ===== *)
theory Handlers
  imports Db_Frame "HOL-Library.List_Lexorder" "HOL-Library.Char_ord" "HOL-Library.Product_Lexorder"
begin

text \<open>
  The handlers of the client's messages: the \<open>doEvent\<close> functions of \<open>src/env/co_env.cpp\<close> and their
  dispatch in \<open>myServer::co_work\<close> of \<open>src/myserver.cpp\<close>. A handler reads the fields of its message out of
  the message buffer, calls the tables and the face model, keeps the map of the users that are online,
  and writes its reply. The lemmas show what is replied when, that the handlers keep the map sorted and
  the connections of the pool balanced, and where a handler answers wrongly or not at all.
\<close>

section \<open>State\<close>

text \<open>Besides the tables: the map of the online users in the order of its keys, what has been passed to the
  write calls of each descriptor, and for each descriptor the bytes from its client that a handler can read
  itself: those that have arrived and that \<open>co_recvData\<close> has not read.\<close>

type_synonym user_map = "((string \<times> string) \<times> int) list"

record 'd server = "'d srv" +
  m_userMap :: user_map
  sv_out :: "(int \<times> byte list) list"
  sv_in :: "int \<Rightarrow> byte list"

text \<open>What the handlers call: the client library of the database, the face SDK, the JSON library, the
  contents of the memory a message object is made in, the address of a peer, the round trip of an
  image through a JPEG file, and the value of a variable that is not set.\<close>

record ('d, 'j) world =
  w_api :: "'d mysql"
  w_sdk :: asf
  w_js :: "'j json_ops"
  w_junk :: "msg_class \<Rightarrow> byte list"
  w_peer_ip :: "int \<Rightarrow> string"
  w_jpeg :: "mat \<Rightarrow> mat"
  w_indeterminate :: int

type_synonym ('d, 'j) handler = "('d, 'j) world \<Rightarrow> int \<Rightarrow> byte list \<Rightarrow> 'd server \<Rightarrow> 'd server option"

text \<open>An assignment through \<open>[]\<close> of a \<open>std::map\<close>.\<close>

fun map_set :: "'k::linorder \<Rightarrow> 'v \<Rightarrow> ('k \<times> 'v) list \<Rightarrow> ('k \<times> 'v) list" where
  "map_set k v [] = [(k, v)]"
| "map_set k v ((a, b) # ps) =
     (if k < a then (k, v) # (a, b) # ps
      else if k = a then (k, v) # ps
      else (a, b) # map_set k v ps)"

definition set_user :: "string \<Rightarrow> string \<Rightarrow> int \<Rightarrow> 'd server \<Rightarrow> 'd server" where
  "set_user classnum account v s = s\<lparr>m_userMap := map_set (classnum, account) v (m_userMap s)\<rparr>"

definition write_to :: "int \<Rightarrow> byte list \<Rightarrow> 'd server \<Rightarrow> 'd server" where
  "write_to fildes bs s = s\<lparr>sv_out := sv_out s @ [(fildes, bs)]\<rparr>"

text \<open>A message object is written with the length its header announces.\<close>

definition send_obj :: "int \<Rightarrow> byte list \<Rightarrow> 'd server \<Rightarrow> 'd server" where
  "send_obj fildes obj = write_to fildes (take (nat (get_int m_dataLength_off obj)) obj)"

text \<open>A string field of the message at the start of the buffer, and an integer field.\<close>

definition str_field :: "msg_class \<Rightarrow> string \<Rightarrow> byte list \<Rightarrow> string option" where
  "str_field cls f buf = map_option to_str (c_string (offset cls f) buf)"

definition int_field :: "msg_class \<Rightarrow> string \<Rightarrow> byte list \<Rightarrow> int" where
  "int_field cls f buf = get_int (offset cls f) buf"

text \<open>A reply with one result code.\<close>

definition result_obj :: "('d, 'j) world \<Rightarrow> msg_class \<Rightarrow> string \<Rightarrow> command \<Rightarrow> byte list" where
  "result_obj w cls f code = put_int (offset cls f) (cmd_code code) (construct cls (w_junk w cls))"

section \<open>Groups and users\<close>

definition getGroupListEvent :: "('d, 'j) handler" where
  "getGroupListEvent w fildes buf s = do {
     (ret, json_result, s1) \<leftarrow> groupGetlist (w_api w) (w_js w) (j_null (w_js w)) s;
     Some (if ret < 0 then s1 else write_to fildes (of_str (toStyledString (w_js w) json_result)) s1)
   }"

definition user_status :: "('d, 'j) world \<Rightarrow> string \<Rightarrow> 'j \<Rightarrow> 'd server \<Rightarrow> 'd server option" where
  "user_status w group_id user s = do {
     let account = as_string (w_js w) (j_get (w_js w) ''account'' user);
     let s0 = (if map_of (m_userMap s) (group_id, account) = None then set_user group_id account 0 s else s);
     (conn, s1) \<leftarrow> acquire (w_api w) 0 s0;
     sql \<leftarrow> sprintf_buf 200 (''select islogin from user_table where classnum = '' @ quoted group_id @
       '' and account = '' @ quoted account @ '';'');
     c \<leftarrow> conn;
     let (res, s2) = query (w_api w) c sql s1;
     r \<leftarrow> res;
     s3 \<leftarrow> (if fst (Next r)
            then map_option (\<lambda>islogin. set_user group_id account islogin s2) (GetInt ''islogin'' (snd (Next r)))
            else Some s2);
     Some (give_back c s3)
   }"

definition getuserListEvent :: "('d, 'j) handler" where
  "getuserListEvent w fildes buf s = do {
     group_id \<leftarrow> str_field getUserData ''m_group_id'' buf;
     (ret, json_result, s1) \<leftarrow> groupGetusers (w_api w) (w_js w) (j_null (w_js w)) group_id s;
     (if ret < 0 then Some s1
      else do {
        let result = j_get (w_js w) ''result'' json_result;
        s2 \<leftarrow> fold_opt (user_status w group_id) (j_elems (w_js w) (j_get (w_js w) ''user_id_list'' result)) s1;
        let json1 = j_set (w_js w) ''result'' (j_touch (w_js w) ''user_id_list'' result) json_result;
        Some (write_to fildes (of_str (toStyledString (w_js w) json1)) s2)
      })
   }"

definition delGroupEvent :: "('d, 'j) handler" where
  "delGroupEvent w fildes buf s = do {
     group_id \<leftarrow> str_field delGroupData ''m_group_id'' buf;
     let (ret, json_result) = groupDelete (w_indeterminate w) (j_null (w_js w)) group_id;
     Some (if ret = 0 then s else write_to fildes (of_str (toStyledString (w_js w) json_result)) s)
   }"

definition delUserEvent :: "('d, 'j) handler" where
  "delUserEvent w fildes buf s = do {
     group_id \<leftarrow> str_field delUserData ''m_group_id'' buf;
     user_id \<leftarrow> str_field delUserData ''m_user_id'' buf;
     let (ret, json_result) = userDelete (w_indeterminate w) (j_null (w_js w)) group_id user_id;
     Some (if ret = 0 then s else write_to fildes (of_str (toStyledString (w_js w) json_result)) s)
   }"

section \<open>Faces\<close>

text \<open>\<open>Mat\<close> on the picture inside the message: the memory from the field on.\<close>

definition face_image :: "msg_class \<Rightarrow> byte list \<Rightarrow> mat" where
  "face_image cls buf =
     \<lparr>mat_cols = int_field cls ''m_cols'' buf, mat_rows = int_field cls ''m_rows'' buf,
      mat_type = int_field cls ''m_type'' buf, mat_data = Some (to_str (drop (offset cls ''m_facedata'') buf))\<rparr>"

definition detectFaceEvent :: "('d, 'j) handler" where
  "detectFaceEvent w fildes buf s = do {
     classnum \<leftarrow> str_field detectFaceData ''m_classnum'' buf;
     account \<leftarrow> str_field detectFaceData ''m_account'' buf;
     ((group_id, user_id), s1) \<leftarrow>
       detectOneFace (w_api w) (w_sdk w) (w_jpeg w (face_image detectFaceData buf)) classnum account s;
     let code = (if user_id \<noteq> account \<or> group_id \<noteq> classnum then DETECT_NOUSER else DETECT_SUCCESS);
     Some (send_obj fildes (result_obj w detectFaceResData ''res'' code) s1)
   }"

definition LoginAddFaceEvent :: "('d, 'j) handler" where
  "LoginAddFaceEvent w fildes buf s = do {
     classnum \<leftarrow> str_field addFaceData ''m_classnum'' buf;
     account \<leftarrow> str_field addFaceData ''m_account'' buf;
     password \<leftarrow> str_field addFaceData ''m_password'' buf;
     (isExist, s1) \<leftarrow> userExist (w_api w) classnum account password s;
     (if isExist
      then Some (send_obj fildes (result_obj w registerResData ''m_res'' REGISTER_USER_ALREADY_EXIST) s1)
      else do {
        touxiang \<leftarrow> str_field addFaceData ''m_touxiang'' buf;
        (_, s2) \<leftarrow> addUserInfo (w_api w) classnum account password touxiang s1;
        (_, json_res, s3) \<leftarrow> add_face (w_api w) (w_sdk w) (w_js w) (j_null (w_js w)) (face_image addFaceData buf)
          classnum account s2;
        Some (if as_int (w_js w) (j_get (w_js w) ''error_code'' json_res) \<noteq> 0 then s3
              else send_obj fildes (result_obj w registerResData ''m_res'' REGISTER_SUCCESS) s3)
      })
   }"

section \<open>Logging in and being online\<close>

definition user_json :: "'j json_ops \<Rightarrow> (string \<times> string) \<times> int \<Rightarrow> 'j" where
  "user_json js u =
     (case u of ((classnum, account), islogin) \<Rightarrow>
        j_set js ''islogin'' (j_int js islogin) (j_set js ''account'' (j_str js account)
          (j_set js ''classnum'' (j_str js classnum) (j_null js))))"

definition checkOnlineEvent :: "('d, 'j) handler" where
  "checkOnlineEvent w fildes buf s =
     (let root = fold (\<lambda>u root. j_append (w_js w) (user_json (w_js w) u) root) (m_userMap s) (j_null (w_js w))
      in Some (write_to fildes (of_str (toStyledString (w_js w) root)) s))"

definition login_sql :: "string \<Rightarrow> string \<Rightarrow> string \<Rightarrow> string" where
  "login_sql classnum username password =
     ''select classnum,account,password from user_table where classnum = '' @ quoted classnum @
     '' and account = '' @ quoted username @ '' and password = '' @ quoted password @ '';''"

definition LoginUserEvent :: "('d, 'j) handler" where
  "LoginUserEvent w fildes buf s = do {
     classnum \<leftarrow> str_field loginData ''m_classnum'' buf;
     username \<leftarrow> str_field loginData ''m_username'' buf;
     password \<leftarrow> str_field loginData ''m_password'' buf;
     (conn, s1) \<leftarrow> acquire (w_api w) 0 s;
     sql \<leftarrow> sprintf_buf 256 (login_sql classnum username password);
     c \<leftarrow> conn;
     let (res, s2) = query (w_api w) c sql s1;
     r \<leftarrow> res;
     let code = (if fst (Next r) then LOGIN_SUCCESS else LOGIN_NOUSER);
     Some (give_back c (send_obj fildes (result_obj w loginResData ''m_res'' code) s2))
   }"

definition LoginOnlineEvent :: "('d, 'j) handler" where
  "LoginOnlineEvent w fildes buf s = do {
     (conn, s1) \<leftarrow> acquire (w_api w) 0 s;
     classnum \<leftarrow> str_field onlineData ''m_classnum'' buf;
     account \<leftarrow> str_field onlineData ''m_account'' buf;
     sql \<leftarrow> sprintf_buf 200 (''update user_table set ip = '' @ quoted (w_peer_ip w fildes) @
       '', islogin = 1 where classnum = '' @ quoted classnum @ '' and account = '' @ quoted account @ '';'');
     c \<leftarrow> conn;
     let (res, s2) = query (w_api w) c sql (set_user classnum account 1 s1);
     Some (give_back c (send_obj fildes (result_obj w onlineResData ''res'' ONLINE_SUCCESS) s2))
   }"

text \<open>The answer to a client that goes offline is made as an \<open>onlineResData\<close>.\<close>

definition LoginOfflineEvent :: "('d, 'j) handler" where
  "LoginOfflineEvent w fildes buf s = do {
     (conn, s1) \<leftarrow> acquire (w_api w) 0 s;
     classnum \<leftarrow> str_field offlineData ''m_classnum'' buf;
     account \<leftarrow> str_field offlineData ''m_account'' buf;
     sql \<leftarrow> sprintf_buf 200 (''update user_table set islogin = 0 where classnum = '' @ quoted classnum @
       '' and account = '' @ quoted account @ '';'');
     c \<leftarrow> conn;
     let (res, s2) = query (w_api w) c sql (set_user classnum account 0 s1);
     Some (give_back c (send_obj fildes (result_obj w onlineResData ''res'' OFFLINE_SUCCESS) s2))
   }"

section \<open>Messages and sessions\<close>

definition MessageCreateEvent :: "('d, 'j) handler" where
  "MessageCreateEvent w fildes buf s = do {
     fromclassnum \<leftarrow> str_field messageCreateData ''m_fromclassnum'' buf;
     fromaccount \<leftarrow> str_field messageCreateData ''m_fromaccount'' buf;
     toclassnum \<leftarrow> str_field messageCreateData ''m_toclassnum'' buf;
     toaccount \<leftarrow> str_field messageCreateData ''m_toaccount'' buf;
     peertouxiang \<leftarrow> str_field messageCreateData ''m_peertouxiang'' buf;
     (fromId, s1) \<leftarrow> getUserId (w_api w) fromclassnum fromaccount s;
     (toId, s2) \<leftarrow> getUserId (w_api w) toclassnum toaccount s1;
     (sessionId, s3) \<leftarrow> addSession (w_api w) fromId toId 0 peertouxiang s2;
     let code = (if sessionId = - 1 then MESSAGE_CREATE_FAILED else MESSAGE_CREATE_SUCCESS);
     Some (send_obj fildes (result_obj w messageCreateResData ''res'' code) s3)
   }"

text \<open>A message is stored and gets no answer.\<close>

definition MessageSendEvent :: "('d, 'j) handler" where
  "MessageSendEvent w fildes buf s = do {
     fromClassNum \<leftarrow> str_field messageSendData ''fromClassNum'' buf;
     fromAccount \<leftarrow> str_field messageSendData ''fromAccount'' buf;
     toClassNum \<leftarrow> str_field messageSendData ''toClassNum'' buf;
     toAccount \<leftarrow> str_field messageSendData ''toAccount'' buf;
     messageContent \<leftarrow> str_field messageSendData ''messageContent'' buf;
     let updateTime = int_field messageSendData ''updatetime'' buf;
     (fromId, s1) \<leftarrow> getUserId (w_api w) fromClassNum fromAccount s;
     (toId, s2) \<leftarrow> getUserId (w_api w) toClassNum toAccount s1;
     (relationId, s3) \<leftarrow> getRelationId (w_api w) fromId toId True s2;
     (sessionId, s4) \<leftarrow> getSessionId (w_api w) fromId toId 0 False s3;
     (_, s5) \<leftarrow> updateSession (w_api w) sessionId updateTime s4;
     (_, s6) \<leftarrow> inserMessage (w_api w) relationId fromId toId messageContent 1 1 s5;
     Some s6
   }"

text \<open>A reply that announces \<open>count\<close> objects.\<close>

definition count_obj :: "('d, 'j) world \<Rightarrow> msg_class \<Rightarrow> int \<Rightarrow> command \<Rightarrow> byte list" where
  "count_obj w cls count code =
     put_int (offset cls ''res'') (cmd_code code)
       (put_int (offset cls ''m_count'') count (construct cls (w_junk w cls)))"

definition MessageHistoryEvent :: "('d, 'j) handler" where
  "MessageHistoryEvent w fildes buf s = do {
     fromClassNum \<leftarrow> str_field messageHistoryData ''fromClassNum'' buf;
     fromAccount \<leftarrow> str_field messageHistoryData ''fromAccount'' buf;
     toClassNum \<leftarrow> str_field messageHistoryData ''toClassNum'' buf;
     toAccount \<leftarrow> str_field messageHistoryData ''toAccount'' buf;
     let lastUpdateTime = int_field messageHistoryData ''lastupdatetime'' buf;
     (fromId, s1) \<leftarrow> getUserId (w_api w) fromClassNum fromAccount s;
     (toId, s2) \<leftarrow> getUserId (w_api w) toClassNum toAccount s1;
     (relationId, s3) \<leftarrow> getRelationId (w_api w) fromId toId True s2;
     (messageList, s4) \<leftarrow> getMessage (w_api w) (w_junk w messageSendData) relationId lastUpdateTime
       (api_time (w_api w) (sv_db s3)) s3;
     let count = int (length messageList);
     (if count = 0
      then Some (send_obj fildes (count_obj w messageHistoryCountResData count MESSAGE_HISTORY_FAILED) s4)
      else Some (fold (send_obj fildes) messageList
             (send_obj fildes (count_obj w messageHistoryCountResData count MESSAGE_HISTORY_SUCCESS) s4)))
   }"

text \<open>After each session the handler reads an answer of at most 16 bytes from the descriptor of its client,
  which it does not use: the next bytes of the client, whatever they are, do not reach \<open>co_recvData\<close>.\<close>

definition skip_answer :: "int \<Rightarrow> 'd server \<Rightarrow> 'd server" where
  "skip_answer fildes s =
     s\<lparr>sv_in := (sv_in s)(fildes := drop (cls_len messageRecentSessionResData) (sv_in s fildes))\<rparr>"

definition RescentSessionEvent :: "('d, 'j) handler" where
  "RescentSessionEvent w fildes buf s = do {
     fromClassNum \<leftarrow> str_field messageRecentSessionData ''classNum'' buf;
     fromAccount \<leftarrow> str_field messageRecentSessionData ''account'' buf;
     let lastUpdateTime = int_field messageRecentSessionData ''lastupdatetime'' buf;
     (fromId, s1) \<leftarrow> getUserId (w_api w) fromClassNum fromAccount s;
     (recentList, s2) \<leftarrow> getRecentSession (w_api w) (w_junk w messageRecentSessionData) (w_indeterminate w)
       fromId lastUpdateTime s1;
     let count = int (length recentList);
     (if count \<le> 0
      then Some (send_obj fildes (count_obj w messageRecentSessionResData 0 MESSAGR_RECENT_SESSION_FAILED) s2)
      else Some (fold (\<lambda>obj s. skip_answer fildes (send_obj fildes obj s)) recentList
             (send_obj fildes (count_obj w messageRecentSessionResData count MESSAGR_RECENT_SESSION_SUCCESS) s2)))
   }"

section \<open>Pictures\<close>

text \<open>The result code is stored before the picture, which may run over it.\<close>

definition LoginTouXiang :: "('d, 'j) handler" where
  "LoginTouXiang w fildes buf s = do {
     classnum \<leftarrow> str_field loginTouXiang ''m_classNum'' buf;
     account \<leftarrow> str_field loginTouXiang ''m_account'' buf;
     (pic, s1) \<leftarrow> getTouXiang (w_api w) classnum account [] s;
     obj \<leftarrow> (if pic \<noteq> []
            then memcpy_field loginTouXiangRes ''m_touxiang'' pic
                   (result_obj w loginTouXiangRes ''res'' LOGIN_TOUXIANG_SUCCESS)
            else Some (result_obj w loginTouXiangRes ''res'' LOGIN_TOUXIANG_FAILED));
     Some (send_obj fildes obj s1)
   }"

definition ChangeTouXiang :: "('d, 'j) handler" where
  "ChangeTouXiang w fildes buf s = do {
     classNum \<leftarrow> str_field changeTouXiangData ''m_classNum'' buf;
     account \<leftarrow> str_field changeTouXiangData ''m_account'' buf;
     touxiangPath \<leftarrow> str_field changeTouXiangData ''m_touxiang'' buf;
     (_, s1) \<leftarrow> changeTouXiang (w_api w) classNum account touxiangPath s;
     Some (send_obj fildes (result_obj w changeTouXiangRes ''m_res'' CHANGE_TOUXIANG_SUCCESS) s1)
   }"

definition GetTouXiang :: "('d, 'j) handler" where
  "GetTouXiang w fildes buf s = do {
     classNum \<leftarrow> str_field getTouXiangData ''m_classNum'' buf;
     account \<leftarrow> str_field getTouXiangData ''m_account'' buf;
     (touXiangPath, s1) \<leftarrow> getTouXiang (w_api w) classNum account [] s;
     obj \<leftarrow> memcpy_field getTouXiangRes ''m_touxiang'' touXiangPath (construct getTouXiangRes (w_junk w getTouXiangRes));
     let code = (if touXiangPath \<noteq> [] then GET_TOUXIANG_SUCCESS else GET_TOUXIANG_FAILED);
     Some (send_obj fildes (put_int (offset getTouXiangRes ''m_res'') (cmd_code code) obj) s1)
   }"

section \<open>Dispatch\<close>

text \<open>The handler of a command, and \<open>co_work\<close> on the message at the start of the buffer.\<close>

definition handler_of :: "int \<Rightarrow> ('d, 'j) handler option" where
  "handler_of m_cmd =
     map_of [(cmd_code ADDFACE, LoginAddFaceEvent), (cmd_code GETGROUP, getGroupListEvent),
       (cmd_code GETUSER, getuserListEvent), (cmd_code DELUSER, delUserEvent), (cmd_code DELGROUP, delGroupEvent),
       (cmd_code LOGIN, LoginUserEvent), (cmd_code DETECT, detectFaceEvent),
       (cmd_code MESSAGE_CREATE, MessageCreateEvent), (cmd_code MESSAGE_SEND, MessageSendEvent),
       (cmd_code MESSAGE_HISTORY, MessageHistoryEvent), (cmd_code MESSAGR_RECENT_SESSION, RescentSessionEvent),
       (cmd_code ONLINE, LoginOnlineEvent), (cmd_code OFFLINE, LoginOfflineEvent),
       (cmd_code CHECK_ISONLINE, checkOnlineEvent), (cmd_code LOGIN_TOUXIANG, LoginTouXiang),
       (cmd_code CHANGE_TOUXIANG, ChangeTouXiang), (cmd_code GET_TOUXIANG, GetTouXiang)] m_cmd"

definition co_work :: "('d, 'j) handler" where
  "co_work w fildes buf s =
     (case handler_of (get_int m_cmd_off buf) of None \<Rightarrow> Some s | Some doEvent \<Rightarrow> doEvent w fildes buf s)"

section \<open>Frames\<close>

lemma rest_fields:
  "srv.more t = srv.more s \<Longrightarrow> m_userMap t = m_userMap s \<and> sv_out t = sv_out s \<and> sv_in t = sv_in s"
  for s t :: "'d server"
  by (cases s, cases t) simp

lemmas server_rest = rest [THEN rest_fields]

lemma server_frame [simp]:
  fixes s :: "'d server"
  shows "m_userMap (give_back c s) = m_userMap s" "sv_out (give_back c s) = sv_out s" "sv_in (give_back c s) = sv_in s"
    "m_userMap (snd (query api c sql s)) = m_userMap s" "sv_out (snd (query api c sql s)) = sv_out s"
    "sv_in (snd (query api c sql s)) = sv_in s"
  using rest_fields [OF give_back_rest [of c s]] rest_fields [OF query_rest [of api c sql s]] by simp_all

lemma send_frame [simp]:
  "m_userMap (write_to fildes bs s) = m_userMap s" "sv_out (write_to fildes bs s) = sv_out s @ [(fildes, bs)]"
  "sv_pool (write_to fildes bs s) = sv_pool s" "sv_db (write_to fildes bs s) = sv_db s"
  "m_userMap (send_obj fildes obj s) = m_userMap s" "sv_pool (send_obj fildes obj s) = sv_pool s"
  "sv_db (send_obj fildes obj s) = sv_db s"
  "sv_out (send_obj fildes obj s) = sv_out s @ [(fildes, take (nat (get_int m_dataLength_off obj)) obj)]"
  "m_userMap (set_user cl ac v s) = map_set (cl, ac) v (m_userMap s)" "sv_out (set_user cl ac v s) = sv_out s"
  "sv_pool (set_user cl ac v s) = sv_pool s" "sv_db (set_user cl ac v s) = sv_db s"
  "sv_in (write_to fildes bs s) = sv_in s" "sv_in (send_obj fildes obj s) = sv_in s"
  "sv_in (set_user cl ac v s) = sv_in s"
  "m_userMap (skip_answer fildes s) = m_userMap s" "sv_out (skip_answer fildes s) = sv_out s" "sv_pool (skip_answer fildes s) = sv_pool s"
  by (simp_all add: write_to_def send_obj_def set_user_def skip_answer_def)

section \<open>The map of the users\<close>

definition map_ok :: "('k::linorder \<times> 'v) list \<Rightarrow> bool" where
  "map_ok m \<longleftrightarrow> sorted_wrt (<) (map fst m)"

lemma map_set_keys: "set (map fst (map_set k v m)) = insert k (set (map fst m))"
  by (induction k v m rule: map_set.induct) auto

lemma map_set_ok [simp]: "map_ok m \<Longrightarrow> map_ok (map_set k v m)"
proof (induction k v m rule: map_set.induct)
  case (2 k v a b ps)
  have "map_ok ps" using 2 by (simp add: map_ok_def)
  then show ?case using 2 map_set_keys [of k v ps] by (auto simp: map_ok_def)
qed (simp add: map_ok_def)

lemma map_of_map_set: "map_ok m \<Longrightarrow> map_of (map_set k v m) = (map_of m)(k \<mapsto> v)"
proof (induction k v m rule: map_set.induct)
  case (2 k v a b ps)
  then show ?case by (auto simp: map_ok_def fun_eq_iff)
qed simp

section \<open>Who gets an answer\<close>

definition serves :: "int \<Rightarrow> 'd server \<Rightarrow> 'd server \<Rightarrow> bool" where
  "serves fildes s t \<longleftrightarrow>
     (map_ok (m_userMap s) \<longrightarrow> map_ok (m_userMap t)) \<and>
     (\<exists>ys. sv_out t = sv_out s @ ys \<and> (\<forall>p \<in> set ys. fst p = fildes))"

lemma serves_refl [simp]: "serves fildes s s"
  by (simp add: serves_def)

lemma serves_trans: "serves fildes s t \<Longrightarrow> serves fildes t u \<Longrightarrow> serves fildes s u"
  by (auto simp: serves_def)

lemma serves_send: "serves fildes s (send_obj fildes obj s)"
  by (simp add: serves_def)

lemma serves_fold:
  assumes "\<And>x s. serves fildes s (f x s)"
  shows "serves fildes s (fold f xs s)"
proof (induction xs arbitrary: s)
  case (Cons x xs)
  show ?case using serves_trans [OF assms Cons.IH] by simp
qed simp

named_theorems handler_serves

lemma getGroupListEvent_serves [handler_serves]: "getGroupListEvent w fildes buf s = Some t \<Longrightarrow> serves fildes s t"
  by (auto simp: getGroupListEvent_def outcome serves_def dest!: server_rest)

lemma user_status_serves: "user_status w g u s = Some t \<Longrightarrow> serves fildes s t"
  by (auto simp: user_status_def outcome serves_def dest!: server_rest split: if_splits)

lemma fold_opt_serves:
  assumes "\<And>x s t. f x s = Some t \<Longrightarrow> serves fildes s t"
  shows "fold_opt f xs s = Some t \<Longrightarrow> serves fildes s t"
proof (induction xs arbitrary: s)
  case (Cons x xs)
  then show ?case using assms serves_trans by (fastforce split: option.splits)
qed simp

lemma user_statuses_serve: "fold_opt (user_status w g) xs s = Some t \<Longrightarrow> serves fildes s t"
  by (rule fold_opt_serves [OF user_status_serves])

lemma getuserListEvent_serves [handler_serves]: "getuserListEvent w fildes buf s = Some t \<Longrightarrow> serves fildes s t"
  by (auto simp: getuserListEvent_def outcome serves_def
      dest!: server_rest user_statuses_serve [where fildes = fildes])

lemma delGroupEvent_serves [handler_serves]: "delGroupEvent w fildes buf s = Some t \<Longrightarrow> serves fildes s t"
  by (auto simp: delGroupEvent_def outcome serves_def)

lemma delUserEvent_serves [handler_serves]: "delUserEvent w fildes buf s = Some t \<Longrightarrow> serves fildes s t"
  by (auto simp: delUserEvent_def outcome serves_def)

lemma detectFaceEvent_serves [handler_serves]: "detectFaceEvent w fildes buf s = Some t \<Longrightarrow> serves fildes s t"
  by (auto simp: detectFaceEvent_def outcome serves_def dest!: server_rest)

lemma LoginAddFaceEvent_serves [handler_serves]: "LoginAddFaceEvent w fildes buf s = Some t \<Longrightarrow> serves fildes s t"
  by (auto simp: LoginAddFaceEvent_def outcome serves_def dest!: server_rest)

lemma checkOnlineEvent_serves [handler_serves]: "checkOnlineEvent w fildes buf s = Some t \<Longrightarrow> serves fildes s t"
  by (auto simp: checkOnlineEvent_def Let_def serves_def)

lemma LoginUserEvent_serves [handler_serves]: "LoginUserEvent w fildes buf s = Some t \<Longrightarrow> serves fildes s t"
  by (auto simp: LoginUserEvent_def outcome serves_def dest!: server_rest)

lemma LoginOnlineEvent_serves [handler_serves]: "LoginOnlineEvent w fildes buf s = Some t \<Longrightarrow> serves fildes s t"
  by (auto simp: LoginOnlineEvent_def outcome serves_def dest!: server_rest)

lemma LoginOfflineEvent_serves [handler_serves]: "LoginOfflineEvent w fildes buf s = Some t \<Longrightarrow> serves fildes s t"
  by (auto simp: LoginOfflineEvent_def outcome serves_def dest!: server_rest)

lemma MessageCreateEvent_serves [handler_serves]: "MessageCreateEvent w fildes buf s = Some t \<Longrightarrow> serves fildes s t"
  by (auto simp: MessageCreateEvent_def outcome serves_def dest!: server_rest)

lemma MessageSendEvent_serves [handler_serves]: "MessageSendEvent w fildes buf s = Some t \<Longrightarrow> serves fildes s t"
  by (auto simp: MessageSendEvent_def outcome serves_def dest!: server_rest)

lemma serves_rest:
  "serves fildes s0 t \<Longrightarrow> m_userMap s0 = m_userMap s \<Longrightarrow> sv_out s0 = sv_out s \<Longrightarrow> serves fildes s t"
  by (simp add: serves_def)

lemma MessageHistoryEvent_serves [handler_serves]: "MessageHistoryEvent w fildes buf s = Some t \<Longrightarrow> serves fildes s t"
  by (auto simp: MessageHistoryEvent_def outcome dest!: server_rest
      intro: serves_rest [OF serves_send] serves_rest [OF serves_trans [OF serves_send serves_fold [OF serves_send]]])

lemma RescentSessionEvent_serves [handler_serves]: "RescentSessionEvent w fildes buf s = Some t \<Longrightarrow> serves fildes s t"
proof -
  have f: "serves fildes u (fold (\<lambda>obj s. skip_answer fildes (send_obj fildes obj s)) objs u)" for objs and u :: "'a server"
    by (rule serves_fold) (simp add: serves_def)
  assume "RescentSessionEvent w fildes buf s = Some t"
  then show ?thesis
    by (auto simp: RescentSessionEvent_def outcome dest!: server_rest
        intro: serves_rest [OF serves_send] serves_rest [OF serves_trans [OF serves_send f]])
qed

lemma LoginTouXiang_serves [handler_serves]: "LoginTouXiang w fildes buf s = Some t \<Longrightarrow> serves fildes s t"
  by (auto simp: LoginTouXiang_def outcome serves_def dest!: server_rest)

lemma ChangeTouXiang_serves [handler_serves]: "ChangeTouXiang w fildes buf s = Some t \<Longrightarrow> serves fildes s t"
  by (auto simp: ChangeTouXiang_def outcome serves_def dest!: server_rest)

lemma GetTouXiang_serves [handler_serves]: "GetTouXiang w fildes buf s = Some t \<Longrightarrow> serves fildes s t"
  by (auto simp: GetTouXiang_def outcome serves_def dest!: server_rest)

lemma co_work_serve:
  assumes "co_work w fildes buf s = Some t"
  shows "serves fildes s t"
proof -
  have h: "serves fildes s t" if "handler_of m = Some doEvent" "doEvent w fildes buf s = Some t" for m doEvent
    using that by (auto simp: handler_of_def split: if_splits dest: handler_serves)
  show ?thesis using assms h by (auto simp: co_work_def split: option.splits)
qed

text \<open>C15: whatever a client sends and whatever the database and the SDK answer, its message keeps the map of
  the online users sorted without repetition, and what is written goes to this client only: no
  message of one client produces output on the connection of another.\<close>

theorem co_work_serves:
  assumes "co_work w fildes buf s = Some t" "map_ok (m_userMap s)"
  shows "map_ok (m_userMap t) \<and> (\<exists>ys. sv_out t = sv_out s @ ys \<and> (\<forall>p \<in> set ys. fst p = fildes))"
  using co_work_serve [OF assms(1)] assms(2) by (simp add: serves_def)

section \<open>Who reads\<close>

named_theorems handler_reads

lemma fold_send_in [simp]: "sv_in (fold (send_obj fildes) objs s) = sv_in s"
  by (induction objs arbitrary: s) simp_all

lemma fold_skip_in:
  "sv_in (fold (\<lambda>obj s. skip_answer fildes (send_obj fildes obj s)) objs s) =
     (sv_in s)(fildes := drop (16 * length objs) (sv_in s fildes))"
proof (induction objs arbitrary: s)
  case (Cons obj objs)
  have "cls_len messageRecentSessionResData = 16" by (simp add: class_defs mk_class_def align_up_def)
  then have "sv_in (skip_answer fildes (send_obj fildes obj s)) = (sv_in s)(fildes := drop 16 (sv_in s fildes))"
    by (simp add: skip_answer_def)
  then show ?case by (simp add: Cons fun_eq_iff add.commute)
qed simp

lemma user_statuses_in: "fold_opt (user_status w g) xs s = Some t \<Longrightarrow> sv_in t = sv_in s"
proof (induction xs arbitrary: s)
  case (Cons u xs)
  then obtain v where v: "user_status w g u s = Some v" "fold_opt (user_status w g) xs v = Some t"
    by (auto split: option.splits)
  then have "sv_in v = sv_in s" by (auto simp: user_status_def outcome dest!: server_rest split: if_splits)
  then show ?case using Cons.IH [OF v(2)] by simp
qed simp

lemma getGroupListEvent_reads [handler_reads]: "getGroupListEvent w fildes buf s = Some t \<Longrightarrow> sv_in t = sv_in s"
  by (auto simp: getGroupListEvent_def outcome dest!: server_rest)

lemma delGroupEvent_reads [handler_reads]: "delGroupEvent w fildes buf s = Some t \<Longrightarrow> sv_in t = sv_in s"
  by (auto simp: delGroupEvent_def outcome dest!: server_rest)

lemma delUserEvent_reads [handler_reads]: "delUserEvent w fildes buf s = Some t \<Longrightarrow> sv_in t = sv_in s"
  by (auto simp: delUserEvent_def outcome dest!: server_rest)

lemma detectFaceEvent_reads [handler_reads]: "detectFaceEvent w fildes buf s = Some t \<Longrightarrow> sv_in t = sv_in s"
  by (auto simp: detectFaceEvent_def outcome dest!: server_rest)

lemma LoginAddFaceEvent_reads [handler_reads]: "LoginAddFaceEvent w fildes buf s = Some t \<Longrightarrow> sv_in t = sv_in s"
  by (auto simp: LoginAddFaceEvent_def outcome dest!: server_rest)

lemma LoginUserEvent_reads [handler_reads]: "LoginUserEvent w fildes buf s = Some t \<Longrightarrow> sv_in t = sv_in s"
  by (auto simp: LoginUserEvent_def outcome dest!: server_rest)

lemma LoginOnlineEvent_reads [handler_reads]: "LoginOnlineEvent w fildes buf s = Some t \<Longrightarrow> sv_in t = sv_in s"
  by (auto simp: LoginOnlineEvent_def outcome dest!: server_rest)

lemma LoginOfflineEvent_reads [handler_reads]: "LoginOfflineEvent w fildes buf s = Some t \<Longrightarrow> sv_in t = sv_in s"
  by (auto simp: LoginOfflineEvent_def outcome dest!: server_rest)

lemma MessageCreateEvent_reads [handler_reads]: "MessageCreateEvent w fildes buf s = Some t \<Longrightarrow> sv_in t = sv_in s"
  by (auto simp: MessageCreateEvent_def outcome dest!: server_rest)

lemma MessageSendEvent_reads [handler_reads]: "MessageSendEvent w fildes buf s = Some t \<Longrightarrow> sv_in t = sv_in s"
  by (auto simp: MessageSendEvent_def outcome dest!: server_rest)

lemma MessageHistoryEvent_reads [handler_reads]: "MessageHistoryEvent w fildes buf s = Some t \<Longrightarrow> sv_in t = sv_in s"
  by (auto simp: MessageHistoryEvent_def outcome dest!: server_rest)

lemma LoginTouXiang_reads [handler_reads]: "LoginTouXiang w fildes buf s = Some t \<Longrightarrow> sv_in t = sv_in s"
  by (auto simp: LoginTouXiang_def outcome dest!: server_rest)

lemma ChangeTouXiang_reads [handler_reads]: "ChangeTouXiang w fildes buf s = Some t \<Longrightarrow> sv_in t = sv_in s"
  by (auto simp: ChangeTouXiang_def outcome dest!: server_rest)

lemma GetTouXiang_reads [handler_reads]: "GetTouXiang w fildes buf s = Some t \<Longrightarrow> sv_in t = sv_in s"
  by (auto simp: GetTouXiang_def outcome dest!: server_rest)

lemma checkOnlineEvent_reads [handler_reads]: "checkOnlineEvent w fildes buf s = Some t \<Longrightarrow> sv_in t = sv_in s"
  by (auto simp: checkOnlineEvent_def Let_def)

lemma getuserListEvent_reads [handler_reads]: "getuserListEvent w fildes buf s = Some t \<Longrightarrow> sv_in t = sv_in s"
  by (auto simp: getuserListEvent_def outcome dest!: server_rest user_statuses_in)

text \<open>A handler reads from its own client only, and only the one of the recent sessions does: it takes 16 bytes for
  every session, which are lost to \<open>co_recvData\<close>.\<close>

lemma RescentSessionEvent_reads:
  "RescentSessionEvent w fildes buf s = Some t \<Longrightarrow> \<exists>k. sv_in t = (sv_in s)(fildes := drop (16 * k) (sv_in s fildes))"
  by (auto simp: RescentSessionEvent_def outcome fold_skip_in fun_upd_idem dest!: server_rest
      intro: exI [of _ 0])

lemma co_work_reads:
  assumes "co_work w fildes buf s = Some t"
  shows "\<exists>k. sv_in t = (sv_in s)(fildes := drop (16 * k) (sv_in s fildes))"
    "get_int m_cmd_off buf \<noteq> cmd_code MESSAGR_RECENT_SESSION \<Longrightarrow> sv_in t = sv_in s"
proof -
  have h: "sv_in t = sv_in s \<or> doEvent = RescentSessionEvent \<and> m = cmd_code MESSAGR_RECENT_SESSION"
    if "handler_of m = Some doEvent" "doEvent w fildes buf s = Some t" for m doEvent
    using that by (auto simp: handler_of_def split: if_splits dest: handler_reads)
  show "\<exists>k. sv_in t = (sv_in s)(fildes := drop (16 * k) (sv_in s fildes))"
  proof (cases "sv_in t = sv_in s")
    case True
    then show ?thesis by (intro exI [of _ 0]) simp
  next
    case False
    then have "RescentSessionEvent w fildes buf s = Some t"
      using assms h by (auto simp: co_work_def split: option.splits)
    then show ?thesis by (rule RescentSessionEvent_reads)
  qed
  show "get_int m_cmd_off buf \<noteq> cmd_code MESSAGR_RECENT_SESSION \<Longrightarrow> sv_in t = sv_in s"
    using assms h by (auto simp: co_work_def split: option.splits)
qed

section \<open>Connections\<close>

text \<open>The handlers on the pool, as the operations they call.\<close>

named_theorems handler_balanced

lemma sv_keeps_pool: "sv_pool t = sv_pool s \<Longrightarrow> sv_keeps r s \<Longrightarrow> sv_keeps r t" for s t :: "('d, 'z) srv_scheme"
  by (simp add: keeps_def)

lemma sv_keeps_send [balanced]:
  "sv_keeps r s \<Longrightarrow> sv_keeps r (send_obj fildes obj s)" "sv_keeps r s \<Longrightarrow> sv_keeps r (write_to fildes bs s)"
  "sv_keeps r s \<Longrightarrow> sv_keeps r (set_user cl ac v s)" "sv_keeps r s \<Longrightarrow> sv_keeps r (skip_answer fildes s)"
  by (erule sv_keeps_pool [rotated], simp)+

lemma sv_keeps_if: "sv_keeps r s \<Longrightarrow> sv_keeps r t \<Longrightarrow> sv_keeps r (if b then s else t)"
  by simp

lemma updateSession_keeps [balanced]: "updateSession api i tm s = Some (x, t) \<Longrightarrow> sv_keeps r s \<Longrightarrow> sv_keeps r t"
  unfolding updateSession_def by (rule run_update_keeps)

lemma getGroupListEvent_balanced [handler_balanced]:
  "getGroupListEvent w fildes buf s = Some t \<Longrightarrow> sv_keeps r s \<Longrightarrow> sv_keeps r t"
  by (auto simp: getGroupListEvent_def outcome)
    (assumption | rule sv_keeps_send query_keeps keeps_refl | erule pool.bracket | erule balanced)+

lemma detectFaceEvent_balanced [handler_balanced]:
  "detectFaceEvent w fildes buf s = Some t \<Longrightarrow> sv_keeps r s \<Longrightarrow> sv_keeps r t"
  by (auto simp: detectFaceEvent_def outcome)
    (assumption | rule sv_keeps_send query_keeps keeps_refl | erule pool.bracket | erule balanced)+

lemma LoginUserEvent_balanced [handler_balanced]:
  "LoginUserEvent w fildes buf s = Some t \<Longrightarrow> sv_keeps r s \<Longrightarrow> sv_keeps r t"
  by (auto simp: LoginUserEvent_def outcome)
    (assumption | rule sv_keeps_send query_keeps keeps_refl | erule pool.bracket | erule balanced)+

lemma LoginOnlineEvent_balanced [handler_balanced]:
  "LoginOnlineEvent w fildes buf s = Some t \<Longrightarrow> sv_keeps r s \<Longrightarrow> sv_keeps r t"
  by (auto simp: LoginOnlineEvent_def outcome)
    (assumption | rule sv_keeps_send query_keeps keeps_refl | erule pool.bracket | erule balanced)+

lemma LoginOfflineEvent_balanced [handler_balanced]:
  "LoginOfflineEvent w fildes buf s = Some t \<Longrightarrow> sv_keeps r s \<Longrightarrow> sv_keeps r t"
  by (auto simp: LoginOfflineEvent_def outcome)
    (assumption | rule sv_keeps_send query_keeps keeps_refl | erule pool.bracket | erule balanced)+

lemma MessageCreateEvent_balanced [handler_balanced]:
  "MessageCreateEvent w fildes buf s = Some t \<Longrightarrow> sv_keeps r s \<Longrightarrow> sv_keeps r t"
  by (auto simp: MessageCreateEvent_def outcome)
    (assumption | rule sv_keeps_send query_keeps keeps_refl | erule pool.bracket | erule balanced)+

lemma MessageSendEvent_balanced [handler_balanced]:
  "MessageSendEvent w fildes buf s = Some t \<Longrightarrow> sv_keeps r s \<Longrightarrow> sv_keeps r t"
  by (auto simp: MessageSendEvent_def outcome)
    (assumption | rule sv_keeps_send query_keeps keeps_refl | erule pool.bracket | erule balanced)+

lemma LoginTouXiang_balanced [handler_balanced]:
  "LoginTouXiang w fildes buf s = Some t \<Longrightarrow> sv_keeps r s \<Longrightarrow> sv_keeps r t"
  by (auto simp: LoginTouXiang_def outcome)
    (assumption | rule sv_keeps_send query_keeps keeps_refl | erule pool.bracket | erule balanced)+

lemma ChangeTouXiang_balanced [handler_balanced]:
  "ChangeTouXiang w fildes buf s = Some t \<Longrightarrow> sv_keeps r s \<Longrightarrow> sv_keeps r t"
  by (auto simp: ChangeTouXiang_def outcome)
    (assumption | rule sv_keeps_send query_keeps keeps_refl | erule pool.bracket | erule balanced)+

lemma GetTouXiang_balanced [handler_balanced]:
  "GetTouXiang w fildes buf s = Some t \<Longrightarrow> sv_keeps r s \<Longrightarrow> sv_keeps r t"
  by (auto simp: GetTouXiang_def outcome)
    (assumption | rule sv_keeps_send query_keeps keeps_refl | erule pool.bracket | erule balanced)+

lemma checkOnlineEvent_balanced [handler_balanced]:
  "checkOnlineEvent w fildes buf s = Some t \<Longrightarrow> sv_keeps r s \<Longrightarrow> sv_keeps r t"
  by (auto simp: checkOnlineEvent_def outcome)
    (assumption | rule sv_keeps_send query_keeps keeps_refl | erule pool.bracket | erule balanced)+

lemma delGroupEvent_balanced [handler_balanced]:
  "delGroupEvent w fildes buf s = Some t \<Longrightarrow> sv_keeps r s \<Longrightarrow> sv_keeps r t"
  by (auto simp: delGroupEvent_def outcome)
    (assumption | rule sv_keeps_send query_keeps keeps_refl | erule pool.bracket | erule balanced)+

lemma delUserEvent_balanced [handler_balanced]:
  "delUserEvent w fildes buf s = Some t \<Longrightarrow> sv_keeps r s \<Longrightarrow> sv_keeps r t"
  by (auto simp: delUserEvent_def outcome)
    (assumption | rule sv_keeps_send query_keeps keeps_refl | erule pool.bracket | erule balanced)+

lemma user_status_balanced:
  "user_status w g u s = Some t \<Longrightarrow> sv_keeps r s \<Longrightarrow> sv_keeps r t"
  by (auto simp: user_status_def outcome split del: if_split)
    (assumption | rule sv_keeps_send query_keeps keeps_refl sv_keeps_if | erule pool.bracket | erule balanced)+

lemma user_statuses_balanced:
  "fold_opt (user_status w g) xs s = Some t \<Longrightarrow> sv_keeps r s \<Longrightarrow> sv_keeps r t"
  by (induction xs arbitrary: s) (auto split: option.splits dest: user_status_balanced)

lemma getuserListEvent_balanced [handler_balanced]:
  "getuserListEvent w fildes buf s = Some t \<Longrightarrow> sv_keeps r s \<Longrightarrow> sv_keeps r t"
  by (auto simp: getuserListEvent_def outcome)
    (assumption | rule sv_keeps_send | erule user_statuses_balanced | erule balanced)+

lemma sv_keeps_fold:
  assumes "\<And>x s. sv_keeps r s \<Longrightarrow> sv_keeps r (f x s)"
  shows "sv_keeps r s \<Longrightarrow> sv_keeps r (fold f xs s)"
  using assms by (induction xs arbitrary: s) auto

lemma MessageHistoryEvent_balanced [handler_balanced]:
  "MessageHistoryEvent w fildes buf s = Some t \<Longrightarrow> sv_keeps r s \<Longrightarrow> sv_keeps r t"
  by (auto simp: MessageHistoryEvent_def outcome)
    (assumption | rule sv_keeps_fold | rule sv_keeps_send | erule balanced)+

lemma RescentSessionEvent_balanced [handler_balanced]:
  "RescentSessionEvent w fildes buf s = Some t \<Longrightarrow> sv_keeps r s \<Longrightarrow> sv_keeps r t"
  by (auto simp: RescentSessionEvent_def outcome)
    (assumption | rule sv_keeps_fold | rule sv_keeps_send | erule balanced)+

lemma co_work_keeps:
  assumes "co_work w fildes buf s = Some t" "get_int m_cmd_off buf \<noteq> cmd_code ADDFACE" "sv_keeps r s"
  shows "sv_keeps r t"
proof -
  have h: "sv_keeps r t" if "handler_of m = Some doEvent" "m \<noteq> cmd_code ADDFACE" "doEvent w fildes buf s = Some t" for m doEvent
    using that assms(3) by (auto simp: handler_of_def split: if_splits) (erule handler_balanced, assumption)+
  show ?thesis using assms h by (auto simp: co_work_def split: option.splits)
qed

text \<open>C6: a message other than the registration of a face leaves the pool as it found it: when \<open>co_work\<close>
  returns, the pool is well formed and the same connections are in use as before, whatever the client
  sends and whatever the database and the SDK answer.\<close>

theorem co_work_balanced:
  assumes "co_work w fildes buf s = Some t" "get_int m_cmd_off buf \<noteq> cmd_code ADDFACE" "pool_inv (sv_pool s)"
  shows "pool_inv (sv_pool t) \<and> m_used_list (sv_pool t) = m_used_list (sv_pool s)"
  using co_work_keeps [OF assms(1,2) keeps_refl] assms(3) by (simp add: keeps_def)

section \<open>Answers\<close>

text \<open>A reply object carries its result code behind the header of its class.\<close>

definition answer :: "nat \<Rightarrow> byte list \<Rightarrow> int \<times> int \<times> int" where
  "answer off obj = (get_int m_cmd_off obj, get_int m_dataLength_off obj, get_int off obj)"

lemma result_obj_answer:
  assumes "c \<in> set classes" "length (w_junk w c) = class_size c" "has_field c f off Int32" "cls_len c = class_size c"
  shows "answer off (take (nat (get_int m_dataLength_off (result_obj w c f code))) (result_obj w c f code)) =
    (cmd_code (cls_cmd c), int (class_size c), cmd_code code)"
proof -
  let ?o = "construct c (w_junk w c)"
  have wf: "well_formed c" using assms(1) by (rule classes_well_formed)
  note p = construct_props [OF wf assms(2)]
  note b = has_field_bounds [OF assms(3)]
  have off: "offset c f = off" using offset_field [OF _ assms(3)] wf by (simp add: well_formed_def)
  have o: "result_obj w c f code = put_int off (cmd_code code) ?o" using off by (simp add: result_obj_def)
  have len: "length (result_obj w c f code) = class_size c" using b p(1) by (simp add: o)
  have hd: "get_int m_cmd_off (result_obj w c f code) = cmd_code (cls_cmd c)"
    "get_int m_dataLength_off (result_obj w c f code) = int (cls_len c)"
    using p b by (simp_all add: o get_int_def put_int_def peek_poke_other)
  have "get_int off (result_obj w c f code) = cmd_code code"
    using b p(1) cmd_code_bounds [of code] unfolding o by (intro get_put_int) auto
  then show ?thesis using hd len assms(4) by (simp add: answer_def)
qed

text \<open>C16: the answer to a login: the client gets one reply on its own connection, with the command
  \<open>LOGIN_RES\<close>, and the result is \<open>LOGIN_SUCCESS\<close> exactly when the query for the class number, the name
  and the password of the message has returned a row.\<close>

theorem login_answer:
  assumes "LoginUserEvent w fildes buf s = Some t" "length (w_junk w loginResData) = class_size loginResData"
    and "str_field loginData ''m_classnum'' buf = Some classnum" "str_field loginData ''m_username'' buf = Some username"
    and "str_field loginData ''m_password'' buf = Some password"
  shows "\<exists>c s1 r bs. acquire (w_api w) 0 s = Some (Some c, s1) \<and>
    fst (query (w_api w) c (login_sql classnum username password) s1) = Some r \<and>
    sv_out t = sv_out s @ [(fildes, bs)] \<and> m_userMap t = m_userMap s \<and>
    answer 8 bs = (cmd_code LOGIN_RES, 12, cmd_code (if m_rows r \<noteq> [] then LOGIN_SUCCESS else LOGIN_NOUSER))"
proof -
  obtain c s1 r where a: "acquire (w_api w) 0 s = Some (Some c, s1)"
    and q: "fst (query (w_api w) c (login_sql classnum username password) s1) = Some r"
    and t: "t = give_back c (send_obj fildes (result_obj w loginResData ''m_res''
        (if fst (Next r) then LOGIN_SUCCESS else LOGIN_NOUSER))
        (snd (query (w_api w) c (login_sql classnum username password) s1)))"
    using assms by (auto simp: LoginUserEvent_def outcome sprintf_buf_def)
  have "loginResData \<in> set classes" by (simp add: classes_def)
  moreover have "has_field loginResData ''m_res'' 8 Int32" "cls_len loginResData = class_size loginResData"
    "class_size loginResData = 12" "cls_cmd loginResData = LOGIN_RES"
    by (simp_all add: has_field_def loginResData_def mk_class_def class_size_def align_up_def)
  ultimately have ans: "answer 8 (take (nat (get_int m_dataLength_off (result_obj w loginResData ''m_res'' code)))
      (result_obj w loginResData ''m_res'' code)) = (cmd_code LOGIN_RES, 12, cmd_code code)" for code
    using result_obj_answer [OF _ assms(2)] by simp
  have n: "fst (Next r) \<longleftrightarrow> m_rows r \<noteq> []" by (cases "m_rows r") (simp_all add: Next_def)
  show ?thesis using a q t ans rest_fields [OF acquire_rest [OF a]] by (auto simp: n)
qed

lemma code_answer:
  assumes "c \<in> {registerResData, detectFaceResData, onlineResData}" "length (w_junk w c) = 12"
    and "f = (if c = registerResData then ''m_res'' else ''res'')"
  shows "answer 8 (take (nat (get_int m_dataLength_off (result_obj w c f code))) (result_obj w c f code)) =
    (cmd_code (cls_cmd c), 12, cmd_code code)"
proof -
  have ne: "detectFaceResData \<noteq> registerResData" "onlineResData \<noteq> registerResData"
    by (simp_all add: class_defs mk_class_def)
  have c: "c \<in> set classes" using assms(1) by (auto simp: classes_def)
  have sz: "class_size c = 12" "cls_len c = 12"
    using assms(1) by (auto simp: class_defs mk_class_def class_size_def align_up_def)
  have "has_field c f 8 Int32"
    using assms(1,3) ne by (auto simp: has_field_def class_defs mk_class_def align_up_def split: if_splits)
  then show ?thesis using result_obj_answer [OF c, of w f 8 code] assms(2) sz by simp
qed

text \<open>The status of a user: \<open>ONLINE\<close> sets the entry of the user in the map to 1 and \<open>OFFLINE\<close> to 0, adding
  it if needed, and no other entry changes. Both are answered with a message of the command
  \<open>ONLINE_RES\<close>, also the one that goes offline, whose result code is \<open>OFFLINE_SUCCESS\<close>.\<close>

theorem status_answers:
  assumes "length (w_junk w onlineResData) = 12" "map_ok (m_userMap s)"
  shows "(LoginOnlineEvent w fildes buf s = Some t \<longrightarrow>
      (\<exists>classnum account bs. str_field onlineData ''m_classnum'' buf = Some classnum \<and>
         str_field onlineData ''m_account'' buf = Some account \<and>
         map_of (m_userMap t) = (map_of (m_userMap s))((classnum, account) \<mapsto> 1) \<and>
         sv_out t = sv_out s @ [(fildes, bs)] \<and> answer 8 bs = (cmd_code ONLINE_RES, 12, cmd_code ONLINE_SUCCESS))) \<and>
    (LoginOfflineEvent w fildes buf s = Some t \<longrightarrow>
      (\<exists>classnum account bs. str_field offlineData ''m_classnum'' buf = Some classnum \<and>
         str_field offlineData ''m_account'' buf = Some account \<and>
         map_of (m_userMap t) = (map_of (m_userMap s))((classnum, account) \<mapsto> 0) \<and>
         sv_out t = sv_out s @ [(fildes, bs)] \<and> answer 8 bs = (cmd_code ONLINE_RES, 12, cmd_code OFFLINE_SUCCESS)))"
proof -
  have "cls_cmd onlineResData = ONLINE_RES" by (simp add: onlineResData_def mk_class_def)
  then have ans: "answer 8 (take (nat (get_int m_dataLength_off (result_obj w onlineResData ''res'' code)))
      (result_obj w onlineResData ''res'' code)) = (cmd_code ONLINE_RES, 12, cmd_code code)" for code
    using code_answer [OF _ assms(1), of "''res''" code] by (simp add: class_defs mk_class_def)
  have m: "map_of (map_set k v (m_userMap s)) = (map_of (m_userMap s))(k \<mapsto> v)" for k v
    by (rule map_of_map_set [OF assms(2)])
  show ?thesis
    using ans m by (auto simp: LoginOnlineEvent_def LoginOfflineEvent_def outcome dest!: server_rest)
qed

section \<open>Wrong answers\<close>

text \<open>A face check for the empty class number and the empty account succeeds without a face: when the
  query returns no row, \<open>detectOneFace\<close> answers with two empty strings, which are the names the
  message asked for, and the client gets \<open>DETECT_SUCCESS\<close>.\<close>

theorem empty_names_detected:
  assumes "str_field detectFaceData ''m_classnum'' buf = Some []" "str_field detectFaceData ''m_account'' buf = Some []"
    and "acquire (w_api w) 0 s = Some (Some c, s1)" "query (w_api w) c (detect_sql [] []) s1 = (Some r, s2)" "m_rows r = []"
    and "length (w_junk w detectFaceResData) = 12"
  shows "\<exists>t bs. detectFaceEvent w fildes buf s = Some t \<and> sv_out t = sv_out s @ [(fildes, bs)] \<and>
    answer 8 bs = (cmd_code DETECT_RES, 12, cmd_code DETECT_SUCCESS)"
proof -
  have sql: "sprintf_buf 256 (detect_sql [] []) = Some (detect_sql [] [])"
    by (simp add: sprintf_buf_def detect_sql_def quoted_def)
  have "detect_rows sdk src names r = Some ([], [])" for sdk src names
    using assms(5) by (simp add: detect_rows.simps Next_def)
  then have d: "detectOneFace (w_api w) (w_sdk w) img [] [] s = Some (([], []), give_back c s2)" for img
    using assms(3,4) sql by (simp add: detectOneFace_def)
  let ?o = "result_obj w detectFaceResData ''res'' DETECT_SUCCESS"
  have e: "detectFaceEvent w fildes buf s = Some (send_obj fildes ?o (give_back c s2))"
    using assms(1,2) d by (simp add: detectFaceEvent_def)
  have "sv_out s2 = sv_out s"
    using rest_fields [OF acquire_rest [OF assms(3)]] assms(4) server_frame(5) [of "w_api w" c "detect_sql [] []" s1] by simp
  moreover have "cls_cmd detectFaceResData = DETECT_RES" "detectFaceResData \<noteq> registerResData"
    by (simp_all add: class_defs mk_class_def)
  then have "answer 8 (take (nat (get_int m_dataLength_off ?o)) ?o) = (cmd_code DETECT_RES, 12, cmd_code DETECT_SUCCESS)"
    using code_answer [OF _ assms(6), of "''res''" DETECT_SUCCESS] by simp
  ultimately show ?thesis using e by simp
qed

text \<open>The JSON value of a registration without an error code reads as 0.\<close>

definition json_defaults :: "'j json_ops \<Rightarrow> bool" where
  "json_defaults js \<longleftrightarrow> as_int js (j_get js ''error_code'' (j_null js)) = 0"

text \<open>C36: a registration is reported as a success although no face is stored: when the transaction of \<open>add\<close>
  does not start, the client gets \<open>REGISTER_SUCCESS\<close>. The refused start is the last thing the database sees
  of this message: no statement with the picture is prepared or executed, and the database is in the state
  in which the refusal has left it. The connection stays in use.\<close>

theorem register_false_success:
  assumes "json_defaults (w_js w)" "length (w_junk w registerResData) = 12"
    and "str_field addFaceData ''m_classnum'' buf = Some classnum" "str_field addFaceData ''m_account'' buf = Some account"
    and "str_field addFaceData ''m_password'' buf = Some password" "str_field addFaceData ''m_touxiang'' buf = Some touxiang"
    and "userExist (w_api w) classnum account password s = Some (False, s1)"
    and "addUserInfo (w_api w) classnum account password touxiang s1 = Some ((), s2)" "pool_inv (sv_pool s2)"
    and "acquire (w_api w) 10 s2 = Some (Some c, s3)" "query (w_api w) c (add_sql classnum account) s3 = (Some r, s4)"
    and "fst (StartTransaction (w_api w) c (sv_db s4)) = False"
  shows "\<exists>t bs. LoginAddFaceEvent w fildes buf s = Some t \<and> sv_out t = sv_out s @ [(fildes, bs)] \<and>
    answer 8 bs = (cmd_code REGISTER_RES, 12, cmd_code REGISTER_SUCCESS) \<and>
    sv_db t = snd (StartTransaction (w_api w) c (sv_db s4)) \<and>
    m_used_list (sv_pool t) = m_used_list (sv_pool s2) @ [c]"
proof -
  let ?o = "result_obj w registerResData ''m_res'' REGISTER_SUCCESS"
  obtain t where t: "add_face (w_api w) (w_sdk w) (w_js w) (j_null (w_js w)) (face_image addFaceData buf) classnum account s2 =
      Some (0, j_null (w_js w), t)" "m_used_list (sv_pool t) = m_used_list (sv_pool s2) @ [c]"
    "sv_db t = snd (StartTransaction (w_api w) c (sv_db s4))"
    using add_face_keeps_conn [OF assms(9-12), where sdk = "w_sdk w" and js = "w_js w" and json = "j_null (w_js w)"
        and img = "face_image addFaceData buf"] by (elim exE conjE)
  have e: "LoginAddFaceEvent w fildes buf s = Some (send_obj fildes ?o t)"
    using assms(1,3-8) t(1) by (simp add: LoginAddFaceEvent_def json_defaults_def)
  have "sv_out t = sv_out s"
    using rest_fields [OF userExist_rest [OF assms(7)]] rest_fields [OF addUserInfo_rest [OF assms(8)]]
      rest_fields [OF add_face_rest [OF t(1)]] by simp
  moreover have "cls_cmd registerResData = REGISTER_RES" by (simp add: class_defs mk_class_def)
  then have "answer 8 (take (nat (get_int m_dataLength_off ?o)) ?o) = (cmd_code REGISTER_RES, 12, cmd_code REGISTER_SUCCESS)"
    using code_answer [OF _ assms(2), of "''m_res''" REGISTER_SUCCESS] by simp
  ultimately show ?thesis using e t(2,3) by simp
qed

text \<open>A picture of more than 56 characters does not fit into the reply of \<open>LoginTouXiang\<close>, which is made
  on the stack.\<close>

lemma touxiang_overflow:
  assumes "str_field loginTouXiang ''m_classNum'' buf = Some classnum" "str_field loginTouXiang ''m_account'' buf = Some account"
    and "getTouXiang (w_api w) classnum account [] s = Some (pic, s1)" "56 < length pic"
    and "length (w_junk w loginTouXiangRes) = 64"
  shows "LoginTouXiang w fildes buf s = None"
proof -
  have "class_size loginTouXiangRes = 64" "offset loginTouXiangRes ''m_touxiang'' = 8" "offset loginTouXiangRes ''res'' = 60"
    by (simp_all add: class_defs mk_class_def class_size_def align_up_def offset_def)
  moreover have "loginTouXiangRes \<in> set classes" by (simp add: classes_def)
  ultimately have "length (result_obj w loginTouXiangRes ''res'' LOGIN_TOUXIANG_SUCCESS) = 64"
    "offset loginTouXiangRes ''m_touxiang'' = 8"
    using construct_props(1) [OF classes_well_formed, of loginTouXiangRes "w_junk w loginTouXiangRes"] assms(5)
    by (simp_all add: result_obj_def)
  moreover have "pic \<noteq> []" using assms(4) by auto
  ultimately show ?thesis using assms by (simp add: LoginTouXiang_def memcpy_field_def)
qed

text \<open>A command that is none of the 17 requests has no effect.\<close>

lemma co_work_ignores:
  fixes w :: "('d, 'j) world"
  assumes "handler_of (get_int m_cmd_off buf) = (None :: ('d, 'j) handler option)"
  shows "co_work w fildes buf s = Some s"
  using assms by (simp add: co_work_def)

section \<open>A concrete server\<close>

text \<open>The database of \<open>Db_Models\<close> that answers every query with the same result, the SDK and the JSON values
  of \<open>Detect\<close>, and messages whose fields are empty strings.\<close>

definition demo_world :: "result option mysql \<Rightarrow> (result option, (string \<times> int) list) world" where
  "demo_world api = \<lparr>w_api = api, w_sdk = demo_asf, w_js = demo_json, w_junk = \<lambda>c. replicate (class_size c) 7,
     w_peer_ip = \<lambda>_. ''127.0.0.1'', w_jpeg = \<lambda>img. img, w_indeterminate = 0\<rparr>"

definition demo_server :: "nat list \<Rightarrow> nat list \<Rightarrow> result option \<Rightarrow> result option server" where
  "demo_server free used d = \<lparr>sv_pool = \<lparr>m_free_list = free, m_used_list = used, m_db_cur_conn_cnt = 2,
     m_db_max_conn_cnt = 2, m_abort_request = False\<rparr>, sv_db = d, m_userMap = [], sv_out = [], sv_in = \<lambda>_. []\<rparr>"

definition demo_msg :: "command \<Rightarrow> nat \<Rightarrow> byte list" where
  "demo_msg k n = put_int m_cmd_off (cmd_code k) (replicate n 0)"

lemma demo_msg_cmd [simp]: "4 \<le> n \<Longrightarrow> get_int m_cmd_off (demo_msg k n) = cmd_code k"
  using cmd_code_bounds [of k] unfolding demo_msg_def by (intro get_put_int) auto

lemma demo_msg_field:
  "4 \<le> offset cls f \<Longrightarrow> offset cls f < n \<Longrightarrow> str_field cls f (demo_msg k n) = Some []"
  by (simp add: str_field_def c_string_def demo_msg_def put_int_def poke_def to_str_def takeWhile_eq_Nil_iff)

lemmas demo_offsets = offset_def class_defs mk_class_def align_up_def

abbreviation "no_rows \<equiv> Some \<lparr>res_fields = [], res_rows = []\<rparr>"

lemma demo_acquire:
  "acquire demo_api tm (demo_server (c # free) used d) = Some (Some c, demo_server free (used @ [c]) d)"
  "acquire no_transactions tm (demo_server (c # free) used d) = Some (Some c, demo_server free (used @ [c]) d)"
  by (simp_all add: acquire_def GetDBConn_def take_front_def demo_server_def no_transactions_def demo_api_def)

lemma demo_query:
  "query demo_api c sql (demo_server free used d) = (map_option CResultSet_ctor d, demo_server free used d)"
  "sql \<noteq> ''start transaction'' \<Longrightarrow>
     query no_transactions c sql (demo_server free used d) = (map_option CResultSet_ctor d, demo_server free used d)"
  by (auto simp: query_def on_db_def ExecuteQuery_def demo_server_def no_transactions_def demo_api_def split: option.split)

lemma demo_give_back:
  "c \<notin> set free \<Longrightarrow> give_back c (demo_server free used d) = demo_server (free @ [c]) (removeAll c used) d"
  by (simp add: give_back_def RelDBConn_def demo_server_def)

lemma demo_select [simp]:
  "fst (Next (CResultSet_ctor \<lparr>res_fields = [], res_rows = []\<rparr>)) = False"
  "m_rows (CResultSet_ctor \<lparr>res_fields = [], res_rows = []\<rparr>) = []"
  by (simp_all add: CResultSet_ctor_def Next_def)

lemma demo_login:
  "LoginUserEvent (demo_world demo_api) 7 (demo_msg LOGIN 88) (demo_server [1, 2] [] no_rows) =
     Some (give_back 1 (send_obj 7 (result_obj (demo_world demo_api) loginResData ''m_res'' LOGIN_NOUSER)
       (demo_server [2] [1] no_rows)))"
proof -
  have "str_field loginData ''m_classnum'' (demo_msg LOGIN 88) = Some []"
    "str_field loginData ''m_username'' (demo_msg LOGIN 88) = Some []"
    "str_field loginData ''m_password'' (demo_msg LOGIN 88) = Some []"
    by (rule demo_msg_field; simp add: demo_offsets)+
  then show ?thesis
    by (simp add: LoginUserEvent_def demo_world_def demo_acquire demo_query sprintf_buf_def login_sql_def quoted_def)
qed

lemma login_answer_witness:
  "\<exists>t bs. LoginUserEvent (demo_world demo_api) 7 (demo_msg LOGIN 88) (demo_server [1, 2] [] no_rows) = Some t \<and>
     sv_out t = [(7, bs)] \<and> answer 8 bs = (7, 12, 9)"
proof -
  have f: "str_field loginData ''m_classnum'' (demo_msg LOGIN 88) = Some []"
    "str_field loginData ''m_username'' (demo_msg LOGIN 88) = Some []"
    "str_field loginData ''m_password'' (demo_msg LOGIN 88) = Some []"
    by (rule demo_msg_field; simp add: demo_offsets)+
  have "length (w_junk (demo_world demo_api) loginResData) = class_size loginResData" by (simp add: demo_world_def)
  from login_answer [OF demo_login this f] show ?thesis
    using demo_login by (auto simp: demo_world_def demo_acquire demo_query) (simp add: demo_server_def)
qed

lemma co_work_serves_witness:
  "\<exists>t ys. co_work (demo_world demo_api) 7 (demo_msg LOGIN 88) (demo_server [1, 2] [] no_rows) = Some t \<and>
     map_ok (m_userMap t) \<and> sv_out t = ys \<and> list_all (\<lambda>p. fst p = 7) ys"
proof -
  let ?s = "demo_server [1, 2] [] no_rows"
  have "co_work (demo_world demo_api) 7 (demo_msg LOGIN 88) ?s =
      LoginUserEvent (demo_world demo_api) 7 (demo_msg LOGIN 88) ?s"
    by (simp add: co_work_def handler_of_def)
  then obtain t where t: "co_work (demo_world demo_api) 7 (demo_msg LOGIN 88) ?s = Some t" using demo_login by simp
  have "map_ok (m_userMap ?s)" by (simp add: demo_server_def map_ok_def)
  from co_work_serves [OF t this] show ?thesis using t by (auto simp: demo_server_def list_all_iff)
qed

lemma co_work_balanced_witness:
  "\<exists>t. co_work (demo_world demo_api) 7 (demo_msg LOGIN 88) (demo_server [1, 2] [] no_rows) = Some t \<and>
     m_used_list (sv_pool t) = []"
proof -
  let ?s = "demo_server [1, 2] [] no_rows"
  have "co_work (demo_world demo_api) 7 (demo_msg LOGIN 88) ?s =
      LoginUserEvent (demo_world demo_api) 7 (demo_msg LOGIN 88) ?s"
    by (simp add: co_work_def handler_of_def)
  then obtain t where t: "co_work (demo_world demo_api) 7 (demo_msg LOGIN 88) ?s = Some t" using demo_login by simp
  have "get_int m_cmd_off (demo_msg LOGIN 88) \<noteq> cmd_code ADDFACE" "pool_inv (sv_pool ?s)"
    by (simp_all add: demo_server_def pool_inv_def)
  from co_work_balanced [OF t this] show ?thesis using t by (simp add: demo_server_def)
qed

lemma status_answers_witness:
  "\<exists>t bs. LoginOnlineEvent (demo_world demo_api) 7 (demo_msg ONLINE 48) (demo_server [1, 2] [] no_rows) = Some t \<and>
     map_of (m_userMap t) ([], []) = Some 1 \<and> sv_out t = [(7, bs)]"
proof -
  let ?s = "demo_server [1, 2] [] no_rows"
  have f: "str_field onlineData ''m_classnum'' (demo_msg ONLINE 48) = Some []"
    "str_field onlineData ''m_account'' (demo_msg ONLINE 48) = Some []"
    by (rule demo_msg_field; simp add: demo_offsets)+
  then obtain t where t: "LoginOnlineEvent (demo_world demo_api) 7 (demo_msg ONLINE 48) ?s = Some t"
    by (simp add: LoginOnlineEvent_def demo_world_def demo_acquire sprintf_buf_def quoted_def case_prod_beta)
  have "length (w_junk (demo_world demo_api) onlineResData) = 12" "map_ok (m_userMap ?s)"
    by (simp_all add: demo_world_def class_size_def demo_offsets demo_server_def map_ok_def)
  from status_answers [OF this, of 7 "demo_msg ONLINE 48" t] show ?thesis
    using t f by (auto simp: demo_server_def)
qed

lemma empty_names_detected_witness:
  "\<exists>t bs. detectFaceEvent (demo_world demo_api) 7 (demo_msg DETECT 1048636) (demo_server [1, 2] [] no_rows) = Some t \<and>
     sv_out t = [(7, bs)] \<and> answer 8 bs = (15, 12, 16)"
proof -
  let ?w = "demo_world demo_api" let ?s = "demo_server [1, 2] [] no_rows"
  have 1: "str_field detectFaceData ''m_classnum'' (demo_msg DETECT 1048636) = Some []"
    "str_field detectFaceData ''m_account'' (demo_msg DETECT 1048636) = Some []"
    by (rule demo_msg_field; simp add: demo_offsets)+
  have 2: "acquire (w_api ?w) 0 ?s = Some (Some 1, demo_server [2] [1] no_rows)"
    by (simp add: demo_world_def demo_acquire)
  have 3: "query (w_api ?w) 1 (detect_sql [] []) (demo_server [2] [1] no_rows) =
      (Some (CResultSet_ctor \<lparr>res_fields = [], res_rows = []\<rparr>), demo_server [2] [1] no_rows)"
    by (simp add: demo_world_def demo_query)
  have 4: "length (w_junk ?w detectFaceResData) = 12"
    by (simp add: demo_world_def class_size_def demo_offsets)
  from empty_names_detected [OF 1 2 3 demo_select(2) 4] show ?thesis by (simp add: demo_server_def)
qed

lemma register_false_success_witness:
  "\<exists>t bs. LoginAddFaceEvent (demo_world no_transactions) 7 (demo_msg ADDFACE 1048708) (demo_server [1, 2] [] no_rows) = Some t \<and>
     sv_out t = [(7, bs)] \<and> answer 8 bs = (11, 12, 12) \<and> m_used_list (sv_pool t) = [1]"
proof -
  let ?w = "demo_world no_transactions" let ?s = "demo_server [1, 2] [] no_rows" let ?m = "demo_msg ADDFACE 1048708"
  have f: "str_field addFaceData ''m_classnum'' ?m = Some []" "str_field addFaceData ''m_account'' ?m = Some []"
    "str_field addFaceData ''m_password'' ?m = Some []" "str_field addFaceData ''m_touxiang'' ?m = Some []"
    by (rule demo_msg_field; simp add: demo_offsets)+
  have w: "json_defaults (w_js ?w)" "length (w_junk ?w registerResData) = 12"
    by (simp_all add: json_defaults_def demo_world_def demo_json_def class_size_def demo_offsets)
  have u: "userExist (w_api ?w) [] [] [] ?s = Some (False, demo_server [2, 1] [] no_rows)"
    by (simp add: userExist_def demo_world_def demo_acquire sprintf_buf_def user_exist_sql_def quoted_def demo_query demo_give_back)
  have a: "addUserInfo (w_api ?w) [] [] [] [] (demo_server [2, 1] [] no_rows) = Some ((), demo_server [1, 2] [] no_rows)"
    by (simp add: addUserInfo_def demo_world_def demo_acquire sprintf_buf_def quoted_def demo_query demo_give_back)
  have p: "pool_inv (sv_pool ?s)" by (simp add: demo_server_def pool_inv_def)
  have g: "acquire (w_api ?w) 10 ?s = Some (Some 1, demo_server [2] [1] no_rows)"
    by (simp add: demo_world_def demo_acquire)
  have q: "query (w_api ?w) 1 (add_sql [] []) (demo_server [2] [1] no_rows) =
      (Some (CResultSet_ctor \<lparr>res_fields = [], res_rows = []\<rparr>), demo_server [2] [1] no_rows)"
    by (simp add: demo_world_def demo_query add_sql_def)
  have t: "fst (StartTransaction (w_api ?w) 1 (sv_db (demo_server [2] [1] no_rows))) = False"
    by (simp add: StartTransaction_def plain_query_def demo_world_def no_transactions_def demo_api_def)
  from register_false_success [OF w f u a p g q t, of 7] show ?thesis by (auto simp: demo_server_def)
qed

end
