(* ===== verification/Startup.thy ===== *)
theory Startup
  imports Hook_Loop
begin

text \<open>
  The start of the server: the parameters read from \<open>params.json\<close> (\<open>src/params/co_params.cpp\<close>), the
  connections of the pool made with them (\<open>CDBConn\<close> in \<open>src/dbpool/DBPool.cpp\<close>), and \<open>main\<close> of
  \<open>src/main.cpp\<close> with the rounds of its accepting coroutine. The JSON library, the MySQL client library
  and the kernel are parameters. The lemmas show which connections the pool has after the start, and
  what becomes of a missing configuration and of a listening socket that could not be opened.
\<close>

section \<open>Parameters\<close>

record arcSoftParams =
  appID :: string
  SDKKey :: string
  NScale :: int
  FaceNum :: int

record mysqlParams =
  HostIp :: string
  HostPort :: int
  DataBaseName :: string
  UserName :: string
  PassWord :: string
  DBPoolName :: string
  DBPoolMaxNum :: int

record initParams =
  m_arcSoftParams :: arcSoftParams
  m_mysqlParams :: mysqlParams

text \<open>The JSON library: \<open>Reader::parse\<close> on the contents of the file (\<open>None\<close> when it returns false), and
  \<open>[]\<close>, \<open>asString\<close> and \<open>asInt\<close> of a value, which throw on a value of another type (\<open>None\<close>).\<close>

record 'j json_reader =
  js_parse :: "string \<Rightarrow> 'j option"
  js_member :: "'j \<Rightarrow> string \<Rightarrow> 'j option"
  js_asString :: "'j \<Rightarrow> string option"
  js_asInt :: "'j \<Rightarrow> int option"

definition json_string :: "'j json_reader \<Rightarrow> 'j \<Rightarrow> string \<Rightarrow> string \<Rightarrow> string option" where
  "json_string js root sec key = do { s \<leftarrow> js_member js root sec; v \<leftarrow> js_member js s key; js_asString js v }"

definition json_int :: "'j json_reader \<Rightarrow> 'j \<Rightarrow> string \<Rightarrow> string \<Rightarrow> int option" where
  "json_int js root sec key = do { s \<leftarrow> js_member js root sec; v \<leftarrow> js_member js s key; js_asInt js v }"

text \<open>\<open>make_shared\<close> zeroes the numbers of the two structures.\<close>

definition empty_params :: initParams where
  "empty_params =
     \<lparr>m_arcSoftParams = \<lparr>appID = [], SDKKey = [], NScale = 0, FaceNum = 0\<rparr>,
      m_mysqlParams = \<lparr>HostIp = [], HostPort = 0, DataBaseName = [], UserName = [], PassWord = [],
        DBPoolName = [], DBPoolMaxNum = 0\<rparr>\<rparr>"

text \<open>\<open>init\<close> on the contents of the file (\<open>None\<close> when it cannot be opened). Its result is \<open>Some 0\<close> on a
  failure; after a success the function ends without a \<open>return\<close> (\<open>None\<close>). The outer \<open>None\<close> is an
  exception of the JSON library, which the constructor does not catch.\<close>

definition initParams_init ::
  "'j json_reader \<Rightarrow> string option \<Rightarrow> initParams \<Rightarrow> (int option \<times> initParams) option" where
  "initParams_init js ifs s =
     (case Option.bind ifs (js_parse js) of
        None \<Rightarrow> Some (Some 0, s)
      | Some root \<Rightarrow> do {
          app \<leftarrow> json_string js root ''arcsoft'' ''AppID'';
          sdk \<leftarrow> json_string js root ''arcsoft'' ''SDKKey'';
          nscale \<leftarrow> json_int js root ''arcsoft'' ''NScale'';
          faces \<leftarrow> json_int js root ''arcsoft'' ''FaceNum'';
          ip \<leftarrow> json_string js root ''mysql'' ''HostIp'';
          port \<leftarrow> json_int js root ''mysql'' ''HostPort'';
          pass \<leftarrow> json_string js root ''mysql'' ''PassWord'';
          user \<leftarrow> json_string js root ''mysql'' ''UserName'';
          pool \<leftarrow> json_string js root ''mysql'' ''DBPoolName'';
          maxnum \<leftarrow> json_int js root ''mysql'' ''DBPoolMaxNum'';
          db \<leftarrow> json_string js root ''mysql'' ''DataBaseName'';
          Some (None, s\<lparr>m_arcSoftParams := \<lparr>appID = app, SDKKey = sdk, NScale = nscale, FaceNum = faces\<rparr>,
            m_mysqlParams := \<lparr>HostIp = ip, HostPort = port, DataBaseName = db, UserName = user,
              PassWord = pass, DBPoolName = pool, DBPoolMaxNum = maxnum\<rparr>\<rparr>)
        })"

definition initParams_ctor :: "'j json_reader \<Rightarrow> string option \<Rightarrow> initParams option" where
  "initParams_ctor js ifs = map_option snd (initParams_init js ifs empty_params)"

section \<open>The face engine\<close>

text \<open>The calls of the face SDK at the start, with their results: the information about the activation,
  the activation itself, and the engine with its handle (\<open>None\<close> for a null handle).\<close>

record 'a asf_start =
  ASFGetActiveFileInfo :: "'a \<Rightarrow> int \<times> 'a"
  ASFOnlineActivation :: "string \<Rightarrow> string \<Rightarrow> 'a \<Rightarrow> int \<times> 'a"
  ASFInitEngine :: "int \<Rightarrow> int \<Rightarrow> int \<Rightarrow> int \<Rightarrow> int \<Rightarrow> 'a \<Rightarrow> (int \<times> nat option) \<times> 'a"

abbreviation (input) "ASF_DETECT_MODE_IMAGE \<equiv> (0xFFFFFFFF :: int)"
abbreviation (input) "ASF_OP_0_ONLY \<equiv> (1 :: int)"
abbreviation (input) "ASF_FACE_DETECT \<equiv> (1 :: int)"
abbreviation (input) "ASF_FACERECOGNITION \<equiv> (4 :: int)"
abbreviation (input) "ASF_LIVENESS \<equiv> (0x80 :: int)"

text \<open>The results are printed and not looked at; \<open>m_handle\<close> is what the engine stores.\<close>

definition CDetectModel_ctor :: "'a asf_start \<Rightarrow> initParams \<Rightarrow> 'a \<Rightarrow> nat option \<times> 'a" where
  "CDetectModel_ctor sdk params a =
     (let (res, a1) = ASFGetActiveFileInfo sdk a;
          arcSoft = m_arcSoftParams params;
          (res, a2) = ASFOnlineActivation sdk (appID arcSoft) (SDKKey arcSoft) a1;
          mask = ASF_FACE_DETECT OR ASF_FACERECOGNITION OR ASF_LIVENESS;
          ((res, m_handle), a3) =
            ASFInitEngine sdk ASF_DETECT_MODE_IMAGE ASF_OP_0_ONLY (NScale arcSoft) (FaceNum arcSoft) mask a2
      in (m_handle, a3))"

section \<open>The connections of the pool\<close>

text \<open>What \<open>_SetCDBPoolParams\<close> keeps for the connections: the port is an \<open>uint16_t\<close>.\<close>

record db_server =
  m_pool_name :: string
  m_db_server_ip :: string
  m_db_server_port :: "16 word"
  m_username :: string
  m_password :: string
  m_db_name :: string

definition db_server_of :: "mysqlParams \<Rightarrow> db_server" where
  "db_server_of p =
     \<lparr>m_pool_name = DBPoolName p, m_db_server_ip = HostIp p, m_db_server_port = of_int (HostPort p),
      m_username = UserName p, m_password = PassWord p, m_db_name = DataBaseName p\<rparr>"

text \<open>The client library: \<open>mysql_init\<close> gives a handle or fails, \<open>mysql_real_connect\<close> says whether it is
  connected. A connection of the pool is its handle.\<close>

record ('h, 'd) client =
  mysql_init :: "'d \<Rightarrow> 'h option \<times> 'd"
  mysql_options :: "'h \<Rightarrow> string \<Rightarrow> 'd \<Rightarrow> 'd"
  mysql_real_connect :: "'h \<Rightarrow> string \<Rightarrow> string \<Rightarrow> string \<Rightarrow> string \<Rightarrow> 16 word \<Rightarrow> 'd \<Rightarrow> bool \<times> 'd"
  mysql_close :: "'h \<Rightarrow> 'd \<Rightarrow> 'd"

text \<open>\<open>CDBConn::Init\<close>: the result, the handle in \<open>m_mysql\<close>, and the library.\<close>

definition CDBConn_Init :: "('h, 'd) client \<Rightarrow> db_server \<Rightarrow> 'd \<Rightarrow> int \<times> 'h option \<times> 'd" where
  "CDBConn_Init lib srv d =
     (case mysql_init lib d of
        (None, d1) \<Rightarrow> (1, None, d1)
      | (Some h, d1) \<Rightarrow>
          (let d2 = mysql_options lib h ''reconnect'' d1;
               d3 = mysql_options lib h ''utf8mb4'' d2;
               (ok, d4) = mysql_real_connect lib h (m_db_server_ip srv) (m_username srv) (m_password srv)
                 (m_db_name srv) (m_db_server_port srv) d3
           in if \<not> ok then (2, Some h, d4) else (0, Some h, d4)))"

definition CDBConn_dtor :: "('h, 'd) client \<Rightarrow> 'h option \<Rightarrow> 'd \<Rightarrow> 'd" where
  "CDBConn_dtor lib m_mysql d = (case m_mysql of None \<Rightarrow> d | Some h \<Rightarrow> mysql_close lib h d)"

text \<open>The loop of \<open>CDBPool::_Init\<close> with the connections it makes: \<open>new_conn\<close> is the \<open>Init\<close> of a new
  connection, \<open>drop\<close> its destructor.\<close>

fun pool_init ::
  "('d \<Rightarrow> int \<times> 'h option \<times> 'd) \<Rightarrow> ('h option \<Rightarrow> 'd \<Rightarrow> 'd) \<Rightarrow> nat \<Rightarrow> 'h pool \<Rightarrow> 'd \<Rightarrow> int \<times> 'h pool \<times> 'd" where
  "pool_init new_conn drop_conn 0 s d = (0, s, d)"
| "pool_init new_conn drop_conn (Suc n) s d =
     (case new_conn d of
        (ret, m, d1) \<Rightarrow>
          if ret \<noteq> 0 then (ret, s, drop_conn m d1)
          else pool_init new_conn drop_conn n (s\<lparr>m_free_list := m_free_list s @ [the m]\<rparr>) d1)"

text \<open>The constructor of the pool with the parameters of the program.\<close>

definition start_pool :: "('h, 'd) client \<Rightarrow> initParams \<Rightarrow> 'd \<Rightarrow> 'h pool \<times> 'd" where
  "start_pool lib params d =
     (let p = m_mysqlParams params; s = SetCDBPoolParams (DBPoolMaxNum p)
      in case pool_init (CDBConn_Init lib (db_server_of p)) (CDBConn_dtor lib) (nat (m_db_cur_conn_cnt s)) s d of
           (ret, s', d') \<Rightarrow> (s', d'))"

section \<open>The contract of a connection\<close>

text \<open>
  What the loop relies on: a connection that is made is a new one that stands, a failure leaves nothing
  open behind the destructor, and neither disturbs the connections that stand. \<open>law\<close> is what is asked
  of the client library.
\<close>

locale connection_maker =
  fixes new_conn :: "'d \<Rightarrow> int \<times> 'h option \<times> 'd" and drop_conn :: "'h option \<Rightarrow> 'd \<Rightarrow> 'd"
    and opened :: "'d \<Rightarrow> 'h set" and stands :: "'d \<Rightarrow> 'h \<Rightarrow> bool" and law :: bool
  assumes made: "law \<Longrightarrow> new_conn d = (0, m, d') \<Longrightarrow>
      \<exists>h. m = Some h \<and> h \<notin> opened d \<and> opened d' = insert h (opened d) \<and> stands d' h"
    and failed: "law \<Longrightarrow> new_conn d = (ret, m, d') \<Longrightarrow> ret \<noteq> 0 \<Longrightarrow> opened (drop_conn m d') = opened d"
    and kept: "law \<Longrightarrow> new_conn d = (ret, m, d') \<Longrightarrow> h \<in> opened d \<Longrightarrow> stands d h \<Longrightarrow>
      stands d' h \<and> (ret \<noteq> 0 \<longrightarrow> stands (drop_conn m d') h)"
begin

lemma pool_init_spec:
  assumes "law" "pool_init new_conn drop_conn n s d = (ret, t, d')"
  shows "\<exists>cs. t = s\<lparr>m_free_list := m_free_list s @ cs\<rparr> \<and> length cs \<le> n \<and> (ret = 0 \<longleftrightarrow> length cs = n) \<and>
    distinct cs \<and> set cs \<inter> opened d = {} \<and> opened d' = opened d \<union> set cs \<and> (\<forall>c \<in> set cs. stands d' c) \<and>
    (\<forall>h \<in> opened d. stands d h \<longrightarrow> stands d' h)"
  using assms(2)
proof (induction n arbitrary: s d)
  case 0
  then show ?case by (intro exI [of _ "[]"]) auto
next
  case (Suc n)
  obtain r m d1 where m: "new_conn d = (r, m, d1)" by (metis prod_cases3)
  show ?case
  proof (cases "r = 0")
    case False
    then show ?thesis using Suc.prems m failed [OF assms(1) m] kept [OF assms(1) m]
      by (intro exI [of _ "[]"]) auto
  next
    case True
    obtain h where h: "m = Some h" "h \<notin> opened d" "opened d1 = insert h (opened d)" "stands d1 h"
      using made [OF assms(1)] m True by metis
    have "pool_init new_conn drop_conn n (s\<lparr>m_free_list := m_free_list s @ [h]\<rparr>) d1 = (ret, t, d')"
      using Suc.prems m True h(1) by simp
    from Suc.IH [OF this] obtain cs where cs: "t = s\<lparr>m_free_list := m_free_list s @ h # cs\<rparr>" "length cs \<le> n"
      "ret = 0 \<longleftrightarrow> length cs = n" "distinct cs" "set cs \<inter> opened d1 = {}" "opened d' = opened d1 \<union> set cs"
      "\<forall>c \<in> set cs. stands d' c" "\<forall>g \<in> opened d1. stands d1 g \<longrightarrow> stands d' g" by auto
    then show ?thesis using h kept [OF assms(1) m] by (intro exI [of _ "h # cs"]) auto
  qed
qed

end

text \<open>
  The documented behaviour of the client library: \<open>opened\<close> are its open handles and \<open>peer\<close> what each of
  them is connected to (address, user, password, database, port).
\<close>

type_synonym peer = "string \<times> string \<times> string \<times> string \<times> 16 word"

definition client_laws ::
  "('h, 'd) client \<Rightarrow> ('d \<Rightarrow> 'h set) \<Rightarrow> ('d \<Rightarrow> 'h \<Rightarrow> peer option) \<Rightarrow> bool" where
  "client_laws lib opened peer \<longleftrightarrow>
     (\<forall>d d'. mysql_init lib d = (None, d') \<longrightarrow> opened d' = opened d \<and> peer d' = peer d) \<and>
     (\<forall>d h d'. mysql_init lib d = (Some h, d') \<longrightarrow>
        h \<notin> opened d \<and> opened d' = insert h (opened d) \<and> peer d' = (peer d)(h := None)) \<and>
     (\<forall>h v d. opened (mysql_options lib h v d) = opened d \<and> peer (mysql_options lib h v d) = peer d) \<and>
     (\<forall>h ip usr pwd db port d ok d'. mysql_real_connect lib h ip usr pwd db port d = (ok, d') \<longrightarrow>
        opened d' = opened d \<and> peer d' = (if ok then (peer d)(h \<mapsto> (ip, usr, pwd, db, port)) else peer d)) \<and>
     (\<forall>h d. opened (mysql_close lib h d) = opened d - {h} \<and> peer (mysql_close lib h d) = (peer d)(h := None))"

lemma client_lawsD:
  assumes "client_laws lib opened peer"
  shows "mysql_init lib d = (None, d') \<Longrightarrow> opened d' = opened d \<and> peer d' = peer d"
    "mysql_init lib d = (Some h, d') \<Longrightarrow>
      h \<notin> opened d \<and> opened d' = insert h (opened d) \<and> peer d' = (peer d)(h := None)"
    "opened (mysql_options lib h v d) = opened d" "peer (mysql_options lib h v d) = peer d"
    "mysql_real_connect lib h ip usr pwd db port d = (ok, d') \<Longrightarrow>
      opened d' = opened d \<and> peer d' = (if ok then (peer d)(h \<mapsto> (ip, usr, pwd, db, port)) else peer d)"
    "opened (mysql_close lib h d) = opened d - {h}" "peer (mysql_close lib h d) = (peer d)(h := None)"
proof -
  note l = assms [unfolded client_laws_def]
  note l2 = l [THEN conjunct2] note l3 = l2 [THEN conjunct2] note l4 = l3 [THEN conjunct2] note l5 = l4 [THEN conjunct2]
  show "mysql_init lib d = (None, d') \<Longrightarrow> opened d' = opened d \<and> peer d' = peer d"
    by (rule l [THEN conjunct1, rule_format])
  show "mysql_init lib d = (Some h, d') \<Longrightarrow>
      h \<notin> opened d \<and> opened d' = insert h (opened d) \<and> peer d' = (peer d)(h := None)"
    by (rule l2 [THEN conjunct1, rule_format])
  show "opened (mysql_options lib h v d) = opened d" "peer (mysql_options lib h v d) = peer d"
    using l3 [THEN conjunct1] by simp_all
  show "mysql_real_connect lib h ip usr pwd db port d = (ok, d') \<Longrightarrow>
      opened d' = opened d \<and> peer d' = (if ok then (peer d)(h \<mapsto> (ip, usr, pwd, db, port)) else peer d)"
    by (rule l4 [THEN conjunct1, rule_format])
  show "opened (mysql_close lib h d) = opened d - {h}" "peer (mysql_close lib h d) = (peer d)(h := None)"
    using l5 by simp_all
qed

definition peer_of :: "db_server \<Rightarrow> peer" where
  "peer_of srv = (m_db_server_ip srv, m_username srv, m_password srv, m_db_name srv, m_db_server_port srv)"

lemma CDBConn_Init_cases:
  assumes "client_laws lib opened peer" "CDBConn_Init lib srv d = (ret, m, d')"
  shows "m = None \<and> ret \<noteq> 0 \<and> opened d' = opened d \<and> peer d' = peer d \<or>
    (\<exists>h. m = Some h \<and> h \<notin> opened d \<and> opened d' = insert h (opened d) \<and>
      peer d' = (peer d)(h := if ret = 0 then Some (peer_of srv) else None))"
proof (cases "mysql_init lib d")
  case (Pair i d1)
  show ?thesis
  proof (cases i)
    case None
    then show ?thesis using assms(2) Pair client_lawsD(1) [OF assms(1), of d d1] by (auto simp: CDBConn_Init_def)
  next
    case (Some h)
    let ?d3 = "mysql_options lib h ''utf8mb4'' (mysql_options lib h ''reconnect'' d1)"
    obtain ok d4 where c: "mysql_real_connect lib h (m_db_server_ip srv) (m_username srv) (m_password srv)
        (m_db_name srv) (m_db_server_port srv) ?d3 = (ok, d4)" by fastforce
    note i = client_lawsD(2) [OF assms(1) Pair [unfolded Some]] and o = client_lawsD(3,4) [OF assms(1)]
    show ?thesis using assms(2) Pair Some c i o client_lawsD(5) [OF assms(1) c]
      by (auto simp: CDBConn_Init_def Let_def peer_of_def split: if_splits)
  qed
qed

interpretation maker: connection_maker "CDBConn_Init lib srv" "CDBConn_dtor lib" opened
  "\<lambda>d h. peer d h = Some (peer_of srv)" "client_laws lib opened peer"
  for lib :: "('h, 'd) client" and srv opened and peer :: "'d \<Rightarrow> 'h \<Rightarrow> peer option"
proof unfold_locales
  fix d :: 'd and m d' assume l: "client_laws lib opened peer" and i: "CDBConn_Init lib srv d = (0, m, d')"
  show "\<exists>h. m = Some h \<and> h \<notin> opened d \<and> opened d' = insert h (opened d) \<and> peer d' h = Some (peer_of srv)"
    using CDBConn_Init_cases [OF l i] by auto
next
  fix d :: 'd and ret m d' assume l: "client_laws lib opened peer" and i: "CDBConn_Init lib srv d = (ret, m, d')"
    and "ret \<noteq> 0"
  then show "opened (CDBConn_dtor lib m d') = opened d"
    using CDBConn_Init_cases [OF l i] client_lawsD(6) [OF l] by (auto simp: CDBConn_dtor_def)
next
  fix d :: 'd and ret m d' h assume l: "client_laws lib opened peer" and i: "CDBConn_Init lib srv d = (ret, m, d')"
    and "h \<in> opened d" "peer d h = Some (peer_of srv)"
  then show "peer d' h = Some (peer_of srv) \<and> (ret \<noteq> 0 \<longrightarrow> peer (CDBConn_dtor lib m d') h = Some (peer_of srv))"
    using CDBConn_Init_cases [OF l i] client_lawsD(7) [OF l] by (auto simp: CDBConn_dtor_def)
qed

lemma pool_init_failed: "pool_init new_conn drop_conn n s d = (ret, t, d') \<Longrightarrow> ret \<noteq> 0 \<Longrightarrow> \<exists>d. fst (new_conn d) \<noteq> 0"
  by (induction new_conn drop_conn n s d rule: pool_init.induct) (auto split: prod.splits if_splits, metis fst_conv)

lemma start_pool_spec:
  assumes "client_laws lib opened peer"
  shows "\<exists>cs d'. start_pool lib params d =
      (\<lparr>m_free_list = cs, m_used_list = [], m_db_cur_conn_cnt = 2,
        m_db_max_conn_cnt = DBPoolMaxNum (m_mysqlParams params), m_abort_request = False\<rparr>, d') \<and>
    distinct cs \<and> length cs \<le> 2 \<and> set cs \<inter> opened d = {} \<and> opened d' = opened d \<union> set cs \<and>
    (\<forall>c \<in> set cs. peer d' c = Some (peer_of (db_server_of (m_mysqlParams params)))) \<and>
    (length cs \<noteq> 2 \<longrightarrow> (\<exists>d. fst (CDBConn_Init lib (db_server_of (m_mysqlParams params)) d) \<noteq> 0))"
proof -
  let ?s = "SetCDBPoolParams (DBPoolMaxNum (m_mysqlParams params))"
  let ?mk = "CDBConn_Init lib (db_server_of (m_mysqlParams params))"
  obtain ret t d' where p: "pool_init ?mk (CDBConn_dtor lib) 2 ?s d = (ret, t, d')" by (metis prod_cases3)
  obtain cs where cs: "t = ?s\<lparr>m_free_list := m_free_list ?s @ cs\<rparr>" "length cs \<le> 2" "ret = 0 \<longleftrightarrow> length cs = 2"
    "distinct cs" "set cs \<inter> opened d = {}" "opened d' = opened d \<union> set cs"
    "\<forall>c \<in> set cs. peer d' c = Some (peer_of (db_server_of (m_mysqlParams params)))"
    using maker.pool_init_spec [OF assms p] by blast
  have "start_pool lib params d = (t, d')" using p by (simp add: start_pool_def SetCDBPoolParams_def)
  with cs pool_init_failed [OF p] show ?thesis
    by (intro exI [of _ cs] exI [of _ d']) (simp add: SetCDBPoolParams_def)
qed

section \<open>\<open>main\<close>\<close>

text \<open>The rounds of the accepting coroutine; \<open>wait\<close> is its poll of the listening descriptor.\<close>

fun accept_rounds ::
  "'k sys \<Rightarrow> (int \<Rightarrow> 'k proc \<Rightarrow> 'k proc option) \<Rightarrow> (int \<Rightarrow> 'k proc \<Rightarrow> 'k proc option) \<Rightarrow> int \<Rightarrow> nat \<Rightarrow>
   'k proc \<Rightarrow> 'k proc option" where
  "accept_rounds api wait start_client g_listen_fd 0 s = Some s"
| "accept_rounds api wait start_client g_listen_fd (Suc n) s =
     Option.bind (accept_round api (wait g_listen_fd) start_client g_listen_fd s)
       (accept_rounds api wait start_client g_listen_fd n)"

text \<open>The result of \<open>co_listen\<close> is printed and not looked at. The thread has no coroutine before the first
  \<open>co_create\<close>, so the hooks are off while it listens.\<close>

definition server_main ::
  "'k sys \<Rightarrow> 'k netsys \<Rightarrow> (int \<Rightarrow> 'k proc \<Rightarrow> 'k proc option) \<Rightarrow> (int \<Rightarrow> 'k proc \<Rightarrow> 'k proc option) \<Rightarrow> nat \<Rightarrow>
   'k proc \<Rightarrow> 'k proc option" where
  "server_main api net wait start_client n s = do {
     (g_listen_fd, s1) \<leftarrow> co_listen (\<lambda>s. s) api net 8888 ''127.0.0.1'' 1024 s;
     accept_rounds api wait start_client g_listen_fd n (enable_hook s1)
   }"

lemma accept_round_refused:
  assumes "\<And>e k. fst (sys_accept api fildes e k) < 0"
  shows "accept_round api wait start_client fildes s = wait (snd (kcall (sys_accept api fildes) s))"
proof -
  obtain r s1 where a: "kcall (sys_accept api fildes) s = (r, s1)" by fastforce
  then have "r < 0" using assms kcall_parts(1) [of "sys_accept api fildes" s] by simp
  then show ?thesis using a by (simp add: accept_round_def co_accept_def)
qed

text \<open>The rounds of a coroutine that accepts on -1: a failing \<open>accept\<close> and a wait each.\<close>

fun deaf_rounds :: "'k sys \<Rightarrow> ('k proc \<Rightarrow> 'k proc option) \<Rightarrow> nat \<Rightarrow> 'k proc \<Rightarrow> 'k proc option" where
  "deaf_rounds api wait 0 s = Some s"
| "deaf_rounds api wait (Suc n) s =
     Option.bind (wait (snd (kcall (sys_accept api (- 1)) s))) (deaf_rounds api wait n)"

lemma accept_rounds_refused:
  assumes "\<And>e k. fst (sys_accept api (- 1) e k) < 0"
  shows "accept_rounds api wait start_client (- 1) n s = deaf_rounds api (wait (- 1)) n s"
  by (induction n arbitrary: s) (simp_all add: accept_round_refused [OF assms] cong: Option.bind_cong)

lemma set_int_opt_Some:
  "name \<noteq> SO_RCVTIMEO \<Longrightarrow> name \<noteq> SO_SNDTIMEO \<Longrightarrow> \<exists>r s'. set_int_opt api fildes lev name v s = Some (r, s')"
  by (auto simp: set_int_opt_def setsockopt_def Let_def split: option.split)

lemma co_listen_refused:
  assumes "\<not> cEnableSysHook s" and "\<And>fildes e k. fst (sys_bind net fildes ip port e k) = - 1"
  shows "\<exists>s'. co_listen (\<lambda>s. s) api net port ip back_log s = Some (- 1, s')"
proof -
  obtain fildes s1 where s1: "socket api AF_INET 1 IPPROTO_TCP s = Some (fildes, s1)"
    using assms(1) by (cases "kcall (sys_socket api AF_INET 1 IPPROTO_TCP) s") (auto simp: socket_def)
  show ?thesis
  proof (cases "fildes = - 1")
    case False
    have "\<exists>r s2. setReuseable (\<lambda>s. s) api fildes True False s1 = Some (r, s2)"
      using set_int_opt_Some [of SO_REUSEADDR api fildes SOL_SOCKET 1 s1]
      by (auto simp: setReuseable_def)
    then obtain r s2 where s2: "setReuseable (\<lambda>s. s) api fildes True False s1 = Some (r, s2)" by blast
    have "bindSock net fildes ip port t = (- 1, snd (kcall (sys_bind net fildes ip port) t))" for t
      using assms(2) [of fildes] by (simp add: bindSock_def kcall_def split: prod.split) (metis fst_conv)
    then show ?thesis using s1 s2 False by (simp add: co_listen_def Let_def)
  qed (use s1 in \<open>simp add: co_listen_def\<close>)
qed

lemma server_deaf:
  assumes "\<not> cEnableSysHook s" "\<And>fildes e k. fst (sys_bind net fildes ''127.0.0.1'' 8888 e k) = - 1"
    and "\<And>e k. fst (sys_accept api (- 1) e k) < 0"
  shows "\<exists>s1. co_listen (\<lambda>s. s) api net 8888 ''127.0.0.1'' 1024 s = Some (- 1, s1) \<and>
    server_main api net wait start_client n s = deaf_rounds api (wait (- 1)) n (enable_hook s1)"
proof -
  obtain s' where "co_listen (\<lambda>s. s) api net 8888 ''127.0.0.1'' 1024 s = Some (- 1, s')"
    using co_listen_refused [OF assms(1,2)] by blast
  then show ?thesis using accept_rounds_refused [OF assms(3)] by (auto simp: server_main_def)
qed

section \<open>The loop at the start\<close>

text \<open>\<open>AllocEpoll\<close>: no item exists yet, so the fields of the items are those of zeroed memory (\<open>nil\<close> and
  \<open>co0\<close> stand for the null pointers).\<close>

definition AllocEpoll :: "'n \<Rightarrow> 'co \<Rightarrow> u64 \<Rightarrow> ('n, 'co) stCoEpoll" where
  "AllocEpoll nil co0 now =
     \<lparr>lnk = empty_links, iItemSize = 60 * 1000, ullStart = now, llStartIdx = 0, ullExpireTime = \<lambda>_. 0,
      pfnPrepare = \<lambda>_. False, pfnProcess = \<lambda>_. False, pArg = \<lambda>_. co0, bTimeout = \<lambda>_. False,
      pPoll = \<lambda>_. nil, revents = \<lambda>_. 0, iRaiseCnt = \<lambda>_. 0, iAllEventDetach = \<lambda>_. False, proc_log = []\<rparr>"

lemma AllocEpoll_inv: "uint now < 2 ^ 62 \<Longrightarrow> ring_inv (AllocEpoll nil co0 now) (\<lambda>_. [])"
  by (simp add: ring_inv_def AllocEpoll_def represents_empty)

lemma start_scene:
  assumes "removes ctl watched" "others pot self arg {item} {item} resume" "arg \<noteq> item"
    and "0 < uint t0" "t0 \<le> now" "uint now - uint t0 + 1 < 2 ^ 31" "uint now + INT_MAX < 2 ^ 62"
    and "clock_runs t0 (ws @ [(es, later)])" "epoll_reports {item} (ws @ [(es, later)])"
    and "0 < timeout" "timeout \<le> INT_MAX" "quiet {item} (uint now + timeout) ws"
  shows "poll_scene ctl watched pot resume self arg [item] {item} (\<lambda>_. []) now timeout ws es later (AllocEpoll nil co0 t0)"
proof -
  have le: "uint t0 \<le> uint now" using assms(5) by (simp add: word_le_def)
  have st: "started now (AllocEpoll nil co0 t0) = AllocEpoll nil co0 t0" "ullStart (AllocEpoll nil co0 t0) = t0"
    using assms(4) by (auto simp: started_def AllocEpoll_def)
  have "ring_inv (AllocEpoll nil co0 t0) (\<lambda>_. [])" using le assms(7) by (intro AllocEpoll_inv) simp
  moreover have "clock_ok now (AllocEpoll nil co0 t0)" using assms(5-7) by (simp add: clock_ok_def st)
  moreover have "now \<noteq> 0" using le assms(4) by auto
  moreover have "before_poll self arg (set [item]) {item} (AllocEpoll nil co0 t0)"
    using assms(3) by (simp add: before_poll_def AllocEpoll_def)
  moreover have "poll_expiry now timeout = uint now + timeout" using assms(10) by (simp add: poll_expiry_def)
  ultimately show ?thesis using assms by (simp add: poll_scene_def st)
qed

section \<open>Properties\<close>

text \<open>C25
  The connections of the pool at the start: up to two new connections, each connected to the server the
  parameters name (the port modulo 65536); they are all the handles the start leaves open, also when a
  connection fails, and they are two when none fails. The pool may grow to the configured number.\<close>

theorem start_pool_exact:
  assumes "client_laws lib opened peer"
  shows "\<exists>cs d'. start_pool lib params d =
      (\<lparr>m_free_list = cs, m_used_list = [], m_db_cur_conn_cnt = 2,
        m_db_max_conn_cnt = DBPoolMaxNum (m_mysqlParams params), m_abort_request = False\<rparr>, d') \<and>
    distinct cs \<and> length cs \<le> 2 \<and> set cs \<inter> opened d = {} \<and> opened d' = opened d \<union> set cs \<and>
    (\<forall>c \<in> set cs. peer d' c = Some (let p = m_mysqlParams params in
       (HostIp p, UserName p, PassWord p, DataBaseName p, of_int (HostPort p)))) \<and>
    (length cs \<noteq> 2 \<longrightarrow> (\<exists>d. fst (CDBConn_Init lib (db_server_of (m_mysqlParams params)) d) \<noteq> 0))"
  using start_pool_spec [OF assms, of params d] by (simp add: peer_of_def db_server_of_def Let_def)

text \<open>A configuration that is missing or is not JSON does not stop the server: it goes on with empty
  parameters, tries its connections on no host, without a user and on port 0, and a request that finds
  them in use always waits, because the pool may not grow.\<close>

theorem unconfigured_pool:
  assumes "client_laws lib opened peer" "Option.bind ifs (js_parse js) = None"
  shows "\<exists>p cs t d'. initParams_ctor js ifs = Some p \<and> start_pool lib p d = (t, d') \<and> m_free_list t = cs \<and>
    length cs \<le> 2 \<and> (\<forall>c \<in> set cs. peer d' c = Some ([], [], [], [], 0)) \<and>
    (\<forall>fresh ret used. GetDBConn fresh ret (t\<lparr>m_free_list := [], m_used_list := used\<rparr>) =
      Some (Wait, t\<lparr>m_free_list := [], m_used_list := used\<rparr>))"
proof -
  have p: "initParams_ctor js ifs = Some empty_params"
    using assms(2) by (simp add: initParams_ctor_def initParams_init_def)
  obtain cs d' where "start_pool lib empty_params d =
      (\<lparr>m_free_list = cs, m_used_list = [], m_db_cur_conn_cnt = 2, m_db_max_conn_cnt = 0, m_abort_request = False\<rparr>, d')"
    "length cs \<le> 2" "\<forall>c \<in> set cs. peer d' c = Some ([], [], [], [], 0)"
    using start_pool_spec [OF assms(1), of empty_params d]
    by (auto simp: peer_of_def db_server_of_def empty_params_def)
  with p show ?thesis by (auto simp: GetDBConn_def)
qed

text \<open>C37
  A server whose listening socket could not be bound goes on as if nothing had happened: it accepts on
  the descriptor -1 and waits, round after round, and never starts a client.\<close>

theorem listen_failure_deaf:
  assumes "\<not> cEnableSysHook s" "\<And>fildes e k. fst (sys_bind net fildes ''127.0.0.1'' 8888 e k) = - 1"
    and "\<And>e k. fst (sys_accept api (- 1) e k) < 0"
  shows "\<exists>s1. co_listen (\<lambda>s. s) api net 8888 ''127.0.0.1'' 1024 s = Some (- 1, s1) \<and>
    server_main api net wait start_client n s = deaf_rounds api (wait (- 1)) n (enable_hook s1)"
  by (rule server_deaf [OF assms])

text \<open>C26
  From the start of the server: the accepting coroutine that finds no client is suspended in the empty
  event loop, and goes into its next round in the first iteration that reports the listening descriptor,
  at the latest in the first one after a second.\<close>

theorem accept_waits_at_start:
  assumes "fst (sys_accept api listen_fd (errno s) (kern s)) < 0"
    and "removes ctl watched" "others pot self arg {item} {item} resume" "arg \<noteq> item"
    and "0 < uint t0" "t0 \<le> now" "uint now - uint t0 + 1 < 2 ^ 31" "uint now + INT_MAX < 2 ^ 62"
    and "clock_runs t0 (ws @ [(es, later)])" "epoll_reports {item} (ws @ [(es, later)])"
    and "quiet {item} (uint now + 1000) ws" "hits {item} es \<noteq> [] \<or> uint now + 1000 \<le> uint later"
  shows "accept_round api (accept_wait (loop_inner ctl resume arg item self now (AllocEpoll nil co0 t0) during meanwhile ws) listen_fd)
      start_client listen_fd s = None \<and>
    (\<exists>k. accept_round api (accept_wait
        (loop_inner ctl resume arg item self now (AllocEpoll nil co0 t0) during meanwhile (ws @ (es, later) # rest)) listen_fd)
        start_client listen_fd s =
       Some ((meanwhile (snd (kcall (sys_accept api listen_fd) s)))\<lparr>kern := k\<rparr>))"
  by (rule accept_waits [where P = "{item}" and L = "\<lambda>_. []" and pot = pot and watched = watched])
    (use assms start_scene [OF assms(2-10), of 1000] in simp_all)

section \<open>Concrete runs\<close>

text \<open>A client library that keeps the number of handles given out and the open ones with their peer.\<close>

definition demo_client :: "(nat, nat \<times> (nat \<Rightarrow> peer option option)) client" where
  "demo_client =
     \<lparr>mysql_init = \<lambda>(n, m). (Some n, (Suc n, m(n := Some None))),
      mysql_options = \<lambda>h v d. d,
      mysql_real_connect = \<lambda>h ip usr pwd db port (n, m).
        if h < n \<and> m h \<noteq> None then (True, (n, m(h := Some (Some (ip, usr, pwd, db, port))))) else (False, (n, m)),
      mysql_close = \<lambda>h (n, m). (n, m(h := None))\<rparr>"

definition demo_opened :: "nat \<times> (nat \<Rightarrow> peer option option) \<Rightarrow> nat set" where
  "demo_opened d = {h. h < fst d \<and> snd d h \<noteq> None}"

definition demo_peer :: "nat \<times> (nat \<Rightarrow> peer option option) \<Rightarrow> nat \<Rightarrow> peer option" where
  "demo_peer d h = (case snd d h of None \<Rightarrow> None | Some p \<Rightarrow> p)"

lemma demo_client_laws: "client_laws demo_client demo_opened demo_peer"
  by (auto simp: client_laws_def demo_client_def demo_opened_def demo_peer_def less_Suc_eq
      split: if_splits intro!: ext)

definition demo_params :: initParams where
  "demo_params = empty_params\<lparr>m_mysqlParams := \<lparr>HostIp = ''127.0.0.1'', HostPort = 68842, DataBaseName = ''db'',
     UserName = ''u'', PassWord = ''p'', DBPoolName = ''wzx'', DBPoolMaxNum = 4\<rparr>\<rparr>"

theorem start_pool_exact_witness:
  "\<exists>c1 c2 d'. start_pool demo_client demo_params (0, \<lambda>_. None) =
      (\<lparr>m_free_list = [c1, c2], m_used_list = [], m_db_cur_conn_cnt = 2, m_db_max_conn_cnt = 4, m_abort_request = False\<rparr>, d') \<and>
    demo_opened d' = {c1, c2} \<and> demo_peer d' c1 = Some (''127.0.0.1'', ''u'', ''p'', ''db'', 3306)"
proof -
  have "fst (CDBConn_Init demo_client srv d) = 0" for srv d
    by (simp add: CDBConn_Init_def demo_client_def case_prod_beta)
  moreover have "demo_opened (0, \<lambda>_. None) = {}" by (simp add: demo_opened_def)
  ultimately obtain cs d' where cs: "start_pool demo_client demo_params (0, \<lambda>_. None) =
      (\<lparr>m_free_list = cs, m_used_list = [], m_db_cur_conn_cnt = 2, m_db_max_conn_cnt = 4, m_abort_request = False\<rparr>, d')"
    "length cs = 2" "demo_opened d' = set cs"
    "\<forall>c \<in> set cs. demo_peer d' c = Some (''127.0.0.1'', ''u'', ''p'', ''db'', 3306)"
    using start_pool_exact [OF demo_client_laws, of demo_params "(0, \<lambda>_. None)"] by (auto simp: demo_params_def)
  obtain c1 c2 where "cs = [c1, c2]" using cs(2) by (auto simp: numeral_2_eq_2 length_Suc_conv)
  with cs show ?thesis by auto
qed

definition no_json :: "unit json_reader" where
  "no_json = \<lparr>js_parse = \<lambda>_. None, js_member = \<lambda>_ _. None, js_asString = \<lambda>_. None, js_asInt = \<lambda>_. None\<rparr>"

theorem unconfigured_pool_witness:
  "\<exists>p t d'. initParams_ctor no_json (Some ''{'') = Some p \<and> start_pool demo_client p (0, \<lambda>_. None) = (t, d') \<and>
     GetDBConn 9 0 (t\<lparr>m_free_list := [], m_used_list := m_free_list t\<rparr>) =
       Some (Wait, t\<lparr>m_free_list := [], m_used_list := m_free_list t\<rparr>)"
proof -
  have "Option.bind (Some ''{'') (js_parse no_json) = None" by (simp add: no_json_def)
  from unconfigured_pool [OF demo_client_laws this, of "(0, \<lambda>_. None)"] show ?thesis by blast
qed

text \<open>The port is taken.\<close>

definition demo_busy :: "int set netsys" where
  "demo_busy = \<lparr>sys_bind = \<lambda>_ _ _ e k. (- 1, 98, k), sys_listen = \<lambda>_ _ e k. (0, e, k), inet_addr = \<lambda>_. [0, 0, 0, 0]\<rparr>"

definition demo_main :: "int set proc" where
  "demo_main = demo_blocking\<lparr>cEnableSysHook := False\<rparr>"

theorem listen_failure_deaf_witness:
  "\<exists>s1 s2. co_listen (\<lambda>s. s) demo_reader demo_busy 8888 ''127.0.0.1'' 1024 demo_main = Some (- 1, s1) \<and>
     server_main demo_reader demo_busy (\<lambda>_. Some) (\<lambda>_ _. None) 2 demo_main = Some s2"
proof -
  have "\<exists>s1. co_listen (\<lambda>s. s) demo_reader demo_busy 8888 ''127.0.0.1'' 1024 demo_main = Some (- 1, s1) \<and>
     server_main demo_reader demo_busy (\<lambda>_. Some) (\<lambda>_ _. None) 2 demo_main =
       deaf_rounds demo_reader Some 2 (enable_hook s1)"
    by (rule listen_failure_deaf) (simp_all add: demo_reader_def demo_busy_def demo_main_def)
  then show ?thesis by (auto simp: numeral_2_eq_2)
qed

lemma first_others: "others (\<lambda>_. 0) 7 7 {8} {8} (\<lambda>_ :: nat. Some :: (nat, nat) stCoEpoll \<Rightarrow> _)"
  using links.rep_fun trivial_yields by (fastforce simp: others_def)

theorem accept_waits_at_start_witness:
  "accept_round demo_reader (accept_wait (loop_inner demo_ctl (\<lambda>_. Some) 7 8 (7 :: nat) 1002 (AllocEpoll 0 0 1000) id id
     [([], 1500)]) 3) (\<lambda>_ _. None) 3 demo_blocking = None \<and>
   (\<exists>s'. accept_round demo_reader (accept_wait (loop_inner demo_ctl (\<lambda>_. Some) 7 8 (7 :: nat) 1002 (AllocEpoll 0 0 1000) id id
     [([], 1500), ([(8, 1)], 1600)]) 3) (\<lambda>_ _. None) 3 demo_blocking = Some s')"
proof -
  have "fst (sys_accept demo_reader 3 (errno demo_blocking) (kern demo_blocking)) < 0" by (simp add: demo_reader_def)
  moreover have "clock_runs 1000 ([([] :: (nat \<times> u32) list, 1500)] @ [([(8, 1)], 1600)])" by (simp add: word_le_def)
  moreover have "epoll_reports {8 :: nat} ([([], 1500)] @ [([(8, 1)], 1600)])" by (simp add: epoll_reports_def)
  moreover have "quiet {8 :: nat} (uint (1002 :: u64) + 1000) [([], 1500)]" by (simp add: quiet_def hits_def)
  moreover have "hits {8 :: nat} [(8, 1)] \<noteq> [] \<or> uint (1002 :: u64) + 1000 \<le> uint (1600 :: u64)" by (simp add: hits_def)
  ultimately show ?thesis
    using accept_waits_at_start [OF _ demo_removes first_others, where nil = 0 and ?co0.0 = 0 and during = id and meanwhile = id and rest = "[]"
      and start_client = "\<lambda>_ _. None" and api = demo_reader and s = demo_blocking and now = 1002 and ws = "[([], 1500)]" and listen_fd = 3
      and ?t0.0 = 1000 and es = "[(8, 1)]" and later = 1600]
    by (auto simp: word_le_def)
qed

end
