(* ===== verification/File_Util.thy ===== *)
theory File_Util
  imports Wire
begin

text \<open>
  The file helpers of the server: \<open>read_binary\<close> of \<open>src/env/co_env.cpp\<close>, \<open>write_binary\<close> of
  \<open>src/dbpool/DBPool.cpp\<close>, their twins \<open>_readBinary\<close> and \<open>_WriteBinary\<close> of
  \<open>src/detectmodel/CDetectModel.cpp\<close>, and \<open>DataToMat\<close>, which makes an image of raw bytes. The lemmas
  show the round trip through a file, the stream that a short transfer leaves open, and when the image
  is large enough for the bytes.
\<close>

section \<open>Files\<close>

text \<open>The file system: the contents of the files, the files that may be created or truncated, and the
  number of bytes a transfer manages before the device fails; \<open>open_streams\<close> counts the open \<open>FILE\<close>s.\<close>

record fsys =
  files :: "string \<Rightarrow> byte list option"
  writable :: "string \<Rightarrow> bool"
  io_limit :: nat
  open_streams :: nat

text \<open>An \<open>int\<close> passed as a \<open>size_t\<close>.\<close>

definition size_t_of :: "int \<Rightarrow> nat" where
  "size_t_of n = nat (n mod 2 ^ 64)"

text \<open>The result is the return value and the caller's buffer. Reading over its end has no result
  (\<open>None\<close>). The stream is closed only at the end.\<close>

definition read_binary :: "string \<Rightarrow> byte list \<Rightarrow> fsys \<Rightarrow> (int \<times> byte list \<times> fsys) option" where
  "read_binary filename buffer s =
     (case files s filename of
        None \<Rightarrow> Some (- 1, buffer, s)
      | Some content \<Rightarrow>
          (let s1 = s\<lparr>open_streams := open_streams s + 1\<rparr>;
               len = to_int32 (of_nat (length content));
               n = min (min (size_t_of len) (length content)) (io_limit s);
               size = to_int32 (of_nat n)
           in if length buffer < n then None
              else
                let buffer1 = poke 0 (take n content) buffer
                in if size \<noteq> len then Some (size, buffer1, s1)
                   else Some (size, buffer1, s1\<lparr>open_streams := open_streams s1 - 1\<rparr>)))"

definition write_binary :: "string \<Rightarrow> byte list \<Rightarrow> int \<Rightarrow> fsys \<Rightarrow> (int \<times> fsys) option" where
  "write_binary filename buffer len s =
     (if \<not> writable s filename then Some (- 1, s)
      else
        (let s1 = s\<lparr>files := (files s)(filename \<mapsto> []), open_streams := open_streams s + 1\<rparr>;
             n = min (size_t_of len) (io_limit s);
             size = to_int32 (of_nat n)
         in if length buffer < n then None
            else
              let s2 = s1\<lparr>files := (files s1)(filename \<mapsto> take n buffer)\<rparr>
              in if size \<noteq> len then Some (size, s2)
                 else Some (size, s2\<lparr>open_streams := open_streams s2 - 1\<rparr>)))"

lemma size_t_of_nat [simp]: "n < 2 ^ 31 \<Longrightarrow> size_t_of (int n) = n"
  by (simp add: size_t_of_def)

lemma to_int32_of_nat: "n < 2 ^ 31 \<Longrightarrow> to_int32 (of_nat n) = int n"
proof -
  assume "n < 2 ^ 31"
  moreover from this have "uint (of_nat n :: u64) = int n"
    using uint_of_int_u64 [of "int n"] by simp
  ultimately show ?thesis by (simp add: to_int32_def Let_def)
qed

lemma write_binary_result:
  assumes "writable s f" "length buf < 2 ^ 31"
  shows "write_binary f buf (int (length buf)) s =
    (let n = min (length buf) (io_limit s) in
     Some (int n, s\<lparr>files := (files s)(f \<mapsto> take n buf),
       open_streams := open_streams s + (if n = length buf then 0 else 1)\<rparr>))"
  using assms by (auto simp: write_binary_def Let_def to_int32_of_nat min_def)

lemma read_binary_result:
  assumes "files s f = Some content" "length content < 2 ^ 31" "length content \<le> length buf"
  shows "read_binary f buf s =
    (let n = min (length content) (io_limit s) in
     Some (int n, take n content @ drop n buf,
       s\<lparr>open_streams := open_streams s + (if n = length content then 0 else 1)\<rparr>))"
  using assms by (auto simp: read_binary_def Let_def to_int32_of_nat min_def poke_def)

text \<open>What \<open>write_binary\<close> stores is what \<open>read_binary\<close> reads back: when the device takes the whole buffer,
  both return its length, the front of the reader's buffer is the data and the rest of it is
  untouched, and no stream stays open.\<close>

theorem file_roundtrip:
  assumes "writable s f" "length buf < 2 ^ 31" "length buf \<le> io_limit s" "length buf \<le> length dst"
  shows "\<exists>s1 s2. write_binary f buf (int (length buf)) s = Some (int (length buf), s1) \<and>
    read_binary f dst s1 = Some (int (length buf), buf @ drop (length buf) dst, s2) \<and>
    open_streams s2 = open_streams s \<and> files s2 = (files s)(f \<mapsto> buf)"
proof -
  let ?s = "s\<lparr>files := (files s)(f \<mapsto> buf)\<rparr>"
  have "write_binary f buf (int (length buf)) s = Some (int (length buf), ?s)"
    using write_binary_result [OF assms(1,2)] assms(3) by (simp add: Let_def min_def)
  moreover have "read_binary f dst ?s = Some (int (length buf), buf @ drop (length buf) dst, ?s)"
    using read_binary_result [of ?s f buf dst] assms(2-4) by (simp add: Let_def min_def)
  ultimately show ?thesis by simp
qed

text \<open>A transfer that ends early returns the short count and leaves its stream open: every such call
  costs a descriptor for good.\<close>

lemma short_transfer_leaks:
  assumes "writable s f" "length buf < 2 ^ 31" "io_limit s < length buf" "length buf \<le> length dst"
  shows "\<exists>s1. write_binary f buf (int (length buf)) s = Some (int (io_limit s), s1) \<and>
      open_streams s1 = open_streams s + 1"
    "files s f = Some buf \<Longrightarrow> \<exists>dst' s1. read_binary f dst s = Some (int (io_limit s), dst', s1) \<and>
      open_streams s1 = open_streams s + 1"
  using write_binary_result [OF assms(1,2)] read_binary_result [of s f buf dst] assms(2-4)
  by (simp_all add: Let_def min_def)

section \<open>Images of raw bytes\<close>

text \<open>\<open>DataToMat\<close>: \<open>nFlag\<close> is used as the number of bits of a pixel; the image has one channel for 8 and
  three otherwise. The copy has no result when it leaves the bytes or the image.\<close>

definition DataToMat :: "byte list option \<Rightarrow> nat \<Rightarrow> nat \<Rightarrow> nat \<Rightarrow> (bool \<times> byte list) option" where
  "DataToMat bytes nH nW nFlag =
     (case bytes of
        None \<Rightarrow> Some (False, [])
      | Some bs \<Rightarrow>
          (let nByte = nH * nW * nFlag div 8;
               channels = (if nFlag = 8 then 1 else 3);
               outImg = replicate (nH * nW * channels) 0
           in if length bs < nByte \<or> length outImg < nByte then None
              else Some (True, poke 0 (take nByte bs) outImg)))"

text \<open>Pixels of 24 bits and less fit; the 32 bits of a picture with an alpha channel overflow the image.\<close>

lemma DataToMat_bounds:
  assumes "0 < nH * nW" "nH * nW * nFlag div 8 \<le> length bs"
  shows "nFlag \<le> 24 \<Longrightarrow> \<exists>img. DataToMat (Some bs) nH nW nFlag = Some (True, img)"
    and "32 \<le> nFlag \<Longrightarrow> DataToMat (Some bs) nH nW nFlag = None"
proof -
  have "nH * nW * nFlag div 8 \<le> nH * nW * 3" if "nFlag \<le> 24"
  proof -
    have "nH * nW * nFlag \<le> nH * nW * 24" using that by simp
    then show ?thesis by linarith
  qed
  moreover have "nH * nW * nFlag div 8 = nH * nW" if "nFlag = 8" using that by simp
  ultimately show "nFlag \<le> 24 \<Longrightarrow> \<exists>img. DataToMat (Some bs) nH nW nFlag = Some (True, img)"
    using assms(2) by (auto simp: DataToMat_def Let_def not_less)
  have "nH * nW * 3 < nH * nW * nFlag div 8" if "32 \<le> nFlag"
  proof -
    have "nH * nW * 32 \<le> nH * nW * nFlag" using that by (intro mult_le_mono2)
    then show ?thesis using assms(1) by linarith
  qed
  then show "32 \<le> nFlag \<Longrightarrow> DataToMat (Some bs) nH nW nFlag = None"
    by (auto simp: DataToMat_def Let_def)
qed

text \<open>A file of three bytes.\<close>

definition demo_fsys :: fsys where
  "demo_fsys = \<lparr>files = \<lambda>_. None, writable = \<lambda>_. True, io_limit = 100, open_streams = 0\<rparr>"

theorem file_roundtrip_witness:
  "\<exists>s1 s2. write_binary ''f'' [1, 2, 3] 3 demo_fsys = Some (3, s1) \<and>
     read_binary ''f'' [0, 0, 0, 9] s1 = Some (3, [1, 2, 3, 9], s2) \<and> open_streams s2 = 0"
  using file_roundtrip [of demo_fsys "''f''" "[1, 2, 3]" "[0, 0, 0, 9]"] by (auto simp: demo_fsys_def)

end
