(* ===== verification/Spec2Isabelle.thy ===== *)
theory Spec2Isabelle
  imports Clients Pool_Thread Poll_Loop Epoll_Run Coroutine Context_Switch Timewheel Framing Hook_Loop Hook_Env Dns_Lock Handlers
    Startup File_Util
begin

text \<open>
  A verification development for the coroutine chat server under \<open>src/\<close>: a C++ server that speaks a
  binary protocol with its clients, keeps users, relations, sessions, messages and face pictures in
  a MySQL database, recognises faces with a third-party SDK, and runs every client in a coroutine of
  a copy of libco.

  \<^bold>\<open>The program and its theories.\<close> From the bottom up; every definition keeps the name of the
  function, class or field it models as far as Isabelle allows it.

  \<^item> \<open>Prelude\<close>: generic lemmas on lists, options, words and folds with errors.
  \<^item> \<open>Intrusive_List\<close>: \<open>RemoveFromLink\<close>, \<open>AddTail\<close>, \<open>PopHead\<close> and \<open>Join\<close> of \<open>coroutine/co_routine.cpp\<close> on an
    explicit store of next, previous and list pointers, many lists sharing the nodes. The locale
    \<open>fifo_links\<close> is the interface of a queue of nodes; the pointer lists are its interpretation.
  \<^item> \<open>Timeout_Ring\<close>: \<open>stTimeout_t\<close>, \<open>AllocTimeout\<close>, \<open>AddTimeout\<close> and \<open>TakeAllTimeout\<close>, with the 64-bit times
    and the narrowing of the count to \<open>int\<close> of the code.
  \<^item> \<open>Event_Loop\<close>: an iteration of \<open>co_eventloop\<close>, split into its marking and its processing loop, and the translation
    between the events of poll and of epoll.
  \<^item> \<open>Epoll_Run\<close>: the loop around it, with the buffer of \<open>coroutine/co_epoll.cpp\<close> and the callback.
  \<^item> \<open>Co_Poll\<close>: \<open>co_poll_inner\<close>, before and after the suspension of its caller.
  \<^item> \<open>Poll_Loop\<close>: the two together: what the loop does between the yield of a polling coroutine and its
    resume. \<open>active_until\<close> is the processing loop cut at its turn, \<open>others\<close> is the contract of the
    coroutines that run in between.
  \<^item> \<open>Coroutine\<close>: \<open>co_create_env\<close>, \<open>co_resume\<close>, \<open>co_yield_env\<close>, \<open>co_swap\<close>, \<open>co_reset\<close>, the shared stacks whose
    contents are copied out and in, and \<open>coctx_make\<close>. \<open>co_step\<close> is the step relation of a thread; the
    invariants hold in every state it reaches.
  \<^item> \<open>Context_Switch\<close>: the instructions of \<open>coctx_swap.S\<close> for \<open>x86_64\<close> on registers and memory.
  \<^item> \<open>Co_Sync\<close>: condition variables and \<open>clsCoMutex\<close> (\<open>coroutine/co_comm.cpp\<close>), with the step relation
    \<open>mutex_step\<close>.
  \<^item> \<open>Timewheel\<close>: the time wheel of \<open>timewheel/timewheel.cpp\<close>, a near wheel of 256 slots and four levels of
    64 slots over a 32-bit tick that wraps.
  \<^item> \<open>Hook_Fd\<close>: the socket calls that \<open>coroutine/co_hook_sys_call.cpp\<close> puts in place of those of the C
    library, and the table of hooked descriptors. The locale \<open>piecewise_put\<close> is what the loop of \<open>write\<close> and \<open>send\<close>
    relies on; both calls are its interpretations.
  \<^item> \<open>Hook_Env\<close>: the environment that each coroutine has for itself, of the same file.
  \<^item> \<open>Hook_Dns\<close>: \<open>co_getspecific\<close> and \<open>co_setspecific\<close>, \<open>gethostbyname\<close> on a buffer of each coroutine, and
    \<open>__res_state\<close>.
  \<^item> \<open>Dns_Lock\<close>: \<open>gethostbyname_r\<close>, which holds the mutex of \<open>Co_Sync\<close> while the C library is at work;
    \<open>dns_step\<close> is the step relation of the coroutines that call it.
  \<^item> \<open>Sock_Util\<close>: \<open>socket/co_socktool.cpp\<close> and the accepting loop of \<open>main.cpp\<close>. The locale
    \<open>stream_writer\<close> is what \<open>co_write\<close> relies on; the hooked \<open>write\<close> is its interpretation.
  \<^item> \<open>Hook_Loop\<close>: the hooked reads and the accepting loop on top of \<open>co_poll\<close> and the event loop.
  \<^item> \<open>Wire\<close>: the message classes of \<open>env/co_env.h\<close> as layouts of the x86-64 ABI: their sizes, offsets and
    constructors.
  \<^item> \<open>Framing\<close>: \<open>stEnv_t\<close>, \<open>co_recvData\<close> and \<open>run\<close> of \<open>myserver.cpp\<close>: how reads are cut into messages.
  \<^item> \<open>Clients\<close>: the clients of the thread and the rounds of their coroutines (\<open>main.cpp\<close>), in any order.
  \<^item> \<open>Db_Pool\<close>, \<open>Db_Conn\<close>: the connection pool, and the wrappers around the MySQL client library
    (\<open>dbpool/DBPool.cpp\<close>).
  \<^item> \<open>Pool_Thread\<close>: the pool under the coroutines of one thread, whose step relation is \<open>thread_step\<close>.
  \<^item> \<open>Db_Models\<close>: the tables of users, relations, messages and sessions (\<open>usermodel\<close>, \<open>relationmodel\<close>,
    \<open>messagemodel\<close>, \<open>sessionmodel\<close>). The locale \<open>connection_source\<close> states what they rely on when they take a
    connection and give it back; the pool is its interpretation.
  \<^item> \<open>Detect\<close>: the face model of \<open>detectmodel/CDetectModel.cpp\<close>; \<open>Db_Frame\<close>: the operations on the tables
    and the face model change the pool and the database only.
  \<^item> \<open>Handlers\<close>: the \<open>doEvent\<close> functions of \<open>env/co_env.cpp\<close> and \<open>myServer::co_work\<close>, which picks one by
    the command of a message.
  \<^item> \<open>Startup\<close>: the configuration (\<open>params/co_params.cpp\<close>), the connections the pool is filled with
    (\<open>CDBConn\<close>), the constructor of the face model, and \<open>main\<close> up to the rounds of the accepting coroutine. The
    locale \<open>connection_maker\<close> is the contract of a new connection; \<open>CDBConn\<close> is its interpretation.
  \<^item> \<open>File_Util\<close>: the file helpers of \<open>env/co_env.cpp\<close>, \<open>dbpool/DBPool.cpp\<close> and \<open>detectmodel/CDetectModel.cpp\<close>.
  \<^item> this theory: the server on one connection and on all of them, \<open>run\<close> of \<open>Framing\<close> and the rounds of \<open>Clients\<close>
    on \<open>co_work\<close> of \<open>Handlers\<close>.

  \<^bold>\<open>State and errors.\<close> State is passed explicitly in records that extend each other: \<open>stTimeout\<close>,
  \<open>stCoEpoll\<close> and \<open>stCoSync\<close> for the event loop, \<open>srv\<close> and \<open>server\<close> for the tables and the handlers.
  \<open>None\<close> is the result of a call that does not return or whose effect the language leaves undefined:
  a null pointer that is followed, a write outside of a buffer, a wait of the only thread for itself. A
  theorem whose conclusion is \<open>Some\<close> says that nothing of this happens. Integers that can wrap are
  words or are narrowed with \<open>to_int32\<close>; message fields are four bytes in two's complement.

  \<^bold>\<open>What the lemmas show.\<close>

  \<^item> Refinement: the pointer lists behave as lists (\<open>intrusive_lists_refine\<close>), the sorted arrays of the
    environment as a map for each coroutine (\<open>env_refines\<close>), and a connection as the sequence of its
    messages (\<open>framing_exact\<close>, \<open>server_in_order\<close>), also when many clients are served in any interleaving
    (\<open>clients_in_order\<close>).
  \<^item> Invariants of reachable states: the stacks of the coroutines, shared or their own, where none that occupies a shared
    stack is reset (\<open>shared_stack_isolation\<close>, \<open>resume_yield_nest\<close>), the mutex
    (\<open>mutex_exclusive\<close>), the pool (\<open>pool_exclusive\<close>), the map of the online users (\<open>co_work_serves\<close>) and
    the balance of the connections over all handlers but the registration (\<open>models_balanced\<close>, \<open>co_work_balanced\<close>).
  \<^item> Composition: a poll is answered in the first iteration of the loop that concerns it and with the events
    of that iteration, whatever other coroutines run before (\<open>poll_answered\<close>), so a hooked read and the
    accepting coroutine wait without stopping the others (\<open>hooked_read_waits\<close>, \<open>accept_waits_at_start\<close>);
    cutting the loop at the turn of a coroutine is exact (\<open>loop_split\<close>), and so is leaving out the buffer of
    the events (\<open>co_eventloop_serves\<close>).
  \<^item> Lookups that yield inside the C library are answered one after the other (\<open>lookups_serialised\<close>), which
    is how \<open>gethostbyname_ends\<close> sees them.
  \<^item> The context switch: a coroutine that is switched in again goes on behind its call with its
    registers (\<open>swap_returns\<close>), a new one enters its function as the ABI asks for (\<open>first_switch\<close>).
  \<^item> The start: the connections of the pool and their server (\<open>start_pool_exact\<close>).
  \<^item> Exact behaviour: timeouts (\<open>TakeAllTimeout_exact\<close>, \<open>AddTimeout_placed\<close>, \<open>timer_fires_on_time\<close>,
    \<open>timers_never_early\<close>, \<open>eventloop_iteration_serves\<close>, \<open>eventloop_never_early\<close>), descriptors
    (\<open>co_poll_suspends_and_cleans\<close>, \<open>poll_merges\<close>, \<open>fcntl_user_view\<close>, \<open>hook_write_exact\<close>,
    \<open>hook_write_complete\<close>, \<open>gethostbyname_ends\<close>), waking (\<open>cond_signal_fifo\<close>, \<open>cond_broadcast_all\<close>, \<open>release_serves_waiter\<close>),
    answers (\<open>login_answer\<close>, \<open>status_answers\<close>, \<open>recognised_sound\<close>).
  \<^item> The pool under coroutines: when a request stops the thread with all its clients, and that this is for ever
    (\<open>pool_blocks_thread\<close>); three clients are enough (\<open>three_clients_block\<close>).
  \<^item> Where the program does not do what it is meant to: each of these theorems states the condition and
    the effect, among them \<open>TakeAllTimeout_stall_window\<close>, \<open>timer_lost\<close>, \<open>reset_occupant_corrupts\<close>,
    \<open>zero_length_hangs\<close>, \<open>oversize_overflows\<close>, \<open>listen_failure_deaf\<close>, \<open>unconfigured_pool\<close>, \<open>history_blocks\<close>, \<open>co_write_offsets\<close>, \<open>client_not_hooked\<close>,
    \<open>register_false_success\<close> and \<open>empty_names_detected\<close>.

  \<^bold>\<open>Loops.\<close> A loop that may run for ever is a \<open>partial_function\<close> with \<open>None\<close> for not returning
  (among them \<open>process_active\<close>, \<open>active_until\<close>, \<open>co_cond_broadcast\<close>, \<open>move_list\<close>, \<open>handle_frames\<close>, \<open>eventloop_for\<close>,
  \<open>uninterrupted\<close>, \<open>resolve_loop\<close>, \<open>getSystemDomainIP\<close>), and that it returns is proved
  under the conditions of its theorem. The others are structural or come with a measure; no fuel is
  used except in \<open>connect_wait\<close>, whose three rounds are those of the code.

  \<^bold>\<open>Parameters.\<close> The kernel (\<open>epoll_ctl\<close>, the calls behind \<open>dlsym\<close>), the resumption of a coroutine out of
  the event loop, the callbacks of timers, the MySQL client library and the database behind it, the
  face SDK, OpenCV and the JSON library are arguments of the definitions that use them. What a theorem
  needs of them is a named hypothesis (\<open>kernel_appends\<close>, \<open>kernel_setfl\<close>, \<open>quiet_poll\<close>, ...), shown to hold
  for a concrete instance in its witness.

  \<^bold>\<open>Not modelled.\<close> The interleaving of coroutines within a handler: a handler is one step of \<open>Handlers\<close>, which
  is exact as long as the client library blocks the thread. Where the library waits in hooked calls, handlers
  interleave at their calls of the database; what this does to the pool is \<open>Pool_Thread\<close>, what it does to the
  tables is not modelled. A handler reads from its client only for the recent sessions: \<open>sv_in\<close> holds what waits on
  each descriptor, and \<open>skip_answer\<close> takes the answer from it; the bytes it takes are none of those of
  \<open>clients_in_order\<close>, and how they arrive is not modelled. A request for a connection with a time-out is taken as
  waiting no longer than this time, during which the thread stands still. The lengths that \<open>co_write\<close> adds up are unbounded
  numbers, as no buffer of the server comes near the bound of \<open>int\<close>. The other branch of
  \<open>coctx_swap.S\<close>, which is for 32 bits; the closure macros, which the server does not use; the release of
  memory that nothing refers to any more; what is printed; the headers of the SDK and the files that
  CMake has generated.
\<close>

section \<open>The server on a connection\<close>

lemma fold_co_work_serves: "fold_opt (co_work w fildes) bufs s = Some t \<Longrightarrow> serves fildes s t"
  by (rule fold_opt_serves [OF co_work_serve])

text \<open>The server as a whole on one connection: however the reads cut the bytes a client sends, the
  messages in them are handled one after the other in the order in which they were sent. If handling
  them in a row succeeds, \<open>run\<close> returns with the same state of the tables, the users and the replies,
  and has only written to this client.\<close>

theorem server_in_order:
  assumes "\<forall>m \<in> set ms. message (7 * BUFFER_LENGTH) m" "message (7 * BUFFER_LENGTH) (p @ q)" "q \<noteq> []"
    and "concat cs = concat ms @ p" "\<forall>c \<in> set cs. c \<noteq> [] \<and> length c \<le> BUFFER_LENGTH"
  shows "\<exists>env1 bufs. map frame_at bufs = ms \<and> unread env1 = p \<and>
    (\<forall>s1. fold_opt (co_work w fildes) bufs s = Some s1 \<longrightarrow>
       run (co_work w fildes) (reads cs) (stEnv_ctor fildes) s = Some (False, env1, s1) \<and>
       (\<exists>ys. sv_out s1 = sv_out s @ ys \<and> (\<forall>y \<in> set ys. fst y = fildes)))"
proof -
  obtain env1 bufs where r: "unread env1 = p" "map frame_at bufs = ms"
    "\<forall>s1. fold_opt (co_work w fildes) bufs s = Some s1 \<longrightarrow>
       run (co_work w fildes) (reads cs) (stEnv_ctor fildes) s = Some (False, env1, s1)"
    using framing_partial [OF stEnv_ctor_ok [of fildes] assms, where work = "co_work w fildes" and s = s] by blast
  moreover have "\<exists>ys. sv_out s1 = sv_out s @ ys \<and> (\<forall>y \<in> set ys. fst y = fildes)"
    if "fold_opt (co_work w fildes) bufs s = Some s1" for s1
    using fold_co_work_serves [OF that] by (simp add: serves_def)
  ultimately show ?thesis by blast
qed

lemma co_work_noop:
  assumes "frame_at buf = noop_message"
  shows "co_work w fildes buf s = Some s"
proof -
  have b: "buf = noop_message @ drop (frame_length buf) buf"
    using append_take_drop_id [of "frame_length buf" buf] assms by simp
  have "get_int m_cmd_off noop_message = 0" by (simp add: get_int_def peek_def dec32_def)
  then have "get_int m_cmd_off buf = 0"
    using get_int_append [of 0 noop_message "drop (frame_length buf) buf"] b by simp
  then show ?thesis by (simp add: co_work_def handler_of_def)
qed

lemma server_in_order_witness:
  "\<exists>env1. run (co_work (demo_world demo_api) 7) (reads [[0, 0, 0, 0, 8], [0, 0, 0, 0, 0, 0]]) (stEnv_ctor 7)
     (demo_server [1, 2] [] no_rows) = Some (False, env1, demo_server [1, 2] [] no_rows) \<and> unread env1 = [0, 0, 0]"
proof -
  let ?w = "demo_world demo_api" let ?s = "demo_server [1, 2] [] no_rows"
  have m: "\<forall>m \<in> set [noop_message]. message (7 * BUFFER_LENGTH) m"
    "message (7 * BUFFER_LENGTH) ([0, 0, 0] @ [0, 8, 0, 0, 0])" "[0, 8, 0, 0, 0 :: byte] \<noteq> []"
    "concat [[0, 0, 0, 0, 8], [0, 0, 0, 0, 0, 0]] = concat [noop_message] @ [0, 0, 0 :: byte]"
    "\<forall>c \<in> set [[0, 0, 0, 0, 8], [0, 0, 0, 0, 0, 0 :: byte]]. c \<noteq> [] \<and> length c \<le> BUFFER_LENGTH"
    using noop_message by simp_all
  obtain env1 bufs where r: "map frame_at bufs = [noop_message]" "unread env1 = [0, 0, 0]"
    "\<forall>s1. fold_opt (co_work ?w 7) bufs ?s = Some s1 \<longrightarrow>
       run (co_work ?w 7) (reads [[0, 0, 0, 0, 8], [0, 0, 0, 0, 0, 0]]) (stEnv_ctor 7) ?s = Some (False, env1, s1) \<and>
       (\<exists>ys. sv_out s1 = sv_out ?s @ ys \<and> (\<forall>y \<in> set ys. fst y = 7))"
    using server_in_order [OF m, of ?w 7 ?s] by (elim exE conjE)
  then obtain b where "bufs = [b]" "frame_at b = noop_message" by auto
  then have "fold_opt (co_work ?w 7) bufs ?s = Some ?s" by (simp add: co_work_noop)
  then show ?thesis using r by blast
qed

section \<open>The server on all connections\<close>

text \<open>A call answers its own client, and unless it registers a face it gives its connection back.\<close>

lemma calls_serve:
  "fold_opt (handle_call (co_work w)) calls s = Some s1 \<Longrightarrow>
     (\<exists>yss. sv_out s1 = sv_out s @ concat yss \<and>
        list_all2 (\<lambda>(e, fildes, buf) ys. \<forall>y \<in> set ys. fst y = fildes) calls yss)"
proof (induction calls arbitrary: s)
  case (Cons c calls)
  obtain e fildes buf where c: "c = (e, fildes, buf)" by (metis prod_cases3)
  obtain t where t: "co_work w fildes buf s = Some t" "fold_opt (handle_call (co_work w)) calls t = Some s1"
    using Cons.prems c by (auto split: option.splits)
  obtain ys where ys: "sv_out t = sv_out s @ ys" "\<forall>y \<in> set ys. fst y = fildes"
    using co_work_serve [OF t(1)] by (auto simp: serves_def)
  obtain yss where "sv_out s1 = sv_out t @ concat yss"
    "list_all2 (\<lambda>(e, fildes, buf) ys. \<forall>y \<in> set ys. fst y = fildes) calls yss" using Cons.IH [OF t(2)] by blast
  then show ?case using ys c by (intro exI [of _ "ys # yss"]) simp
qed simp

lemma calls_balanced:
  "fold_opt (handle_call (co_work w)) calls s = Some s1 \<Longrightarrow>
     \<forall>(e, fildes, buf) \<in> set calls. get_int m_cmd_off buf \<noteq> cmd_code ADDFACE \<Longrightarrow> sv_keeps r s \<Longrightarrow> sv_keeps r s1"
proof (induction calls arbitrary: s)
  case (Cons c calls)
  obtain e fildes buf where c: "c = (e, fildes, buf)" by (metis prod_cases3)
  obtain t where t: "co_work w fildes buf s = Some t" "fold_opt (handle_call (co_work w)) calls t = Some s1"
    using Cons.prems(1) c by (auto split: option.splits)
  show ?case
    by (rule Cons.IH [OF t(2)]) (use Cons.prems(2,3) c co_work_keeps [OF t(1)] in auto)
qed simp

lemma calls_read:
  assumes "fold_opt (handle_call (co_work w)) calls s = Some s1"
    and "\<forall>(e, f, buf) \<in> set calls. f = fildes \<longrightarrow> get_int m_cmd_off buf \<noteq> cmd_code MESSAGR_RECENT_SESSION"
  shows "sv_in s1 fildes = sv_in s fildes"
  using assms
proof (induction calls arbitrary: s)
  case (Cons c calls)
  obtain e f buf where c: "c = (e, f, buf)" by (metis prod_cases3)
  obtain t where t: "co_work w f buf s = Some t" "fold_opt (handle_call (co_work w)) calls t = Some s1"
    using Cons.prems(1) c by (auto split: option.splits)
  have "sv_in t fildes = sv_in s fildes"
  proof (cases "f = fildes")
    case True
    then show ?thesis using co_work_reads(2) [OF t(1)] Cons.prems(2) c by simp
  next
    case False
    then show ?thesis using co_work_reads(1) [OF t(1)] by auto
  qed
  moreover have "sv_in s1 fildes = sv_in t fildes" using Cons.prems(2) c by (intro Cons.IH [OF t(2)]) auto
  ultimately show ?case by simp
qed simp

lemma call_command:
  assumes "\<forall>e. from_client e calls = ms e" "(e, fildes, buf) \<in> set calls" "\<forall>m \<in> set (ms e). message L m"
  shows "frame_at buf \<in> set (ms e)" "get_int m_cmd_off (frame_at buf) = get_int m_cmd_off buf"
proof -
  have "frame_at buf \<in> set (from_client e calls)" using assms(2) by (force simp: from_client_def)
  then show m: "frame_at buf \<in> set (ms e)" using assms(1) by simp
  then have "8 \<le> length (frame_at buf)" using assms(3) by (auto simp: message_def)
  then show "get_int m_cmd_off (frame_at buf) = get_int m_cmd_off buf"
    using get_int_append [of m_cmd_off "frame_at buf" "drop (frame_length buf) buf"] by simp
qed

text \<open>C2: the server as a whole on all its connections: clients are accepted, what \<open>co_recvData\<close> reads from them is cut in
  any way and comes in any order, and clients leave. Of the bytes \<open>co_recvData\<close> reads from a client, the
  messages are handled in the order in which they lie there, each exactly once and as a whole, one message at a
  time on the state that all clients share: if all these calls of \<open>co_work\<close> return, so do the rounds of the
  server, with the state that the calls leave. What is written while a message is handled goes to the client that
  sent it, and what remains of an incomplete message is kept for the next read of its client. If moreover
  nobody registers a face and the pool is sound at the start, the connections of the pool in use at the end
  are those in use at the start. And the bytes \<open>co_recvData\<close> reads are all that a client sends, unless the client asks for its
  recent sessions: without such a request nothing that waits on its descriptor is read by a handler, with one
  the handler takes bytes for itself that are no part of any message here.\<close>

theorem clients_in_order:
  assumes "trace_ok {} es" "\<forall>e. conversation (received e False es) (ms e) (p e)"
  shows "\<exists>calls. (\<forall>e. from_client e calls = ms e) \<and>
    (\<forall>(e, fildes, buf) \<in> set calls. (e, fildes) \<in> set (accepted es)) \<and>
    (\<forall>s1. fold_opt (handle_call (co_work w)) calls s = Some s1 \<longrightarrow>
       (\<exists>C. fold_opt (serve_event (co_work w)) es \<lparr>clients = Map.empty, shared = s\<rparr> = Some \<lparr>clients = C, shared = s1\<rparr> \<and>
          (\<forall>e env. C e = Some env \<longrightarrow> unread env = p e)) \<and>
       (\<exists>yss. sv_out s1 = sv_out s @ concat yss \<and>
          list_all2 (\<lambda>(e, fildes, buf) ys. \<forall>y \<in> set ys. fst y = fildes) calls yss) \<and>
       ((\<forall>e. \<forall>m \<in> set (ms e). get_int m_cmd_off m \<noteq> cmd_code ADDFACE) \<and> pool_inv (sv_pool s) \<longrightarrow>
          m_used_list (sv_pool s1) = m_used_list (sv_pool s)) \<and>
       (\<forall>fildes. (\<forall>e m. (e, fildes) \<in> set (accepted es) \<and> m \<in> set (ms e) \<longrightarrow>
            get_int m_cmd_off m \<noteq> cmd_code MESSAGR_RECENT_SESSION) \<longrightarrow>
          sv_in s1 fildes = sv_in s fildes))"
proof -
  from clients_partial [OF assms, of "co_work w" s] obtain calls where
    c: "\<forall>e. from_client e calls = ms e" "\<forall>(e, fildes, buf) \<in> set calls. (e, fildes) \<in> set (accepted es)"
    "\<And>s1. fold_opt (handle_call (co_work w)) calls s = Some s1 \<Longrightarrow>
       \<exists>C. fold_opt (serve_event (co_work w)) es \<lparr>clients = Map.empty, shared = s\<rparr> = Some \<lparr>clients = C, shared = s1\<rparr> \<and>
          (\<forall>e env. C e = Some env \<longrightarrow> unread env = p e)" by blast
  have msg: "\<forall>m \<in> set (ms e). message (7 * BUFFER_LENGTH) m" for e
    using assms(2) by (auto simp: conversation_def)
  have "m_used_list (sv_pool s1) = m_used_list (sv_pool s)"
    if "fold_opt (handle_call (co_work w)) calls s = Some s1"
      "\<forall>e. \<forall>m \<in> set (ms e). get_int m_cmd_off m \<noteq> cmd_code ADDFACE" "pool_inv (sv_pool s)" for s1
  proof -
    have "get_int m_cmd_off buf \<noteq> cmd_code ADDFACE" if "(e, fildes, buf) \<in> set calls" for e fildes buf
      using call_command [OF c(1) that msg] \<open>\<forall>e. \<forall>m \<in> set (ms e). _\<close> by metis
    then have "sv_keeps s s1" using calls_balanced [OF that(1)] keeps_refl by fast
    then show ?thesis using that(3) by (simp add: keeps_def)
  qed
  moreover have "sv_in s1 fildes = sv_in s fildes"
    if "fold_opt (handle_call (co_work w)) calls s = Some s1"
      "\<forall>e m. (e, fildes) \<in> set (accepted es) \<and> m \<in> set (ms e) \<longrightarrow> get_int m_cmd_off m \<noteq> cmd_code MESSAGR_RECENT_SESSION"
    for s1 fildes
  proof (rule calls_read [OF that(1)])
    have "get_int m_cmd_off buf \<noteq> cmd_code MESSAGR_RECENT_SESSION" if "(e, fildes, buf) \<in> set calls" for e buf
      using call_command [OF c(1) that msg] c(2) that \<open>\<forall>e m. (e, fildes) \<in> _ \<and> _ \<longrightarrow> _\<close> by fastforce
    then show "\<forall>(e, f, buf) \<in> set calls. f = fildes \<longrightarrow> get_int m_cmd_off buf \<noteq> cmd_code MESSAGR_RECENT_SESSION"
      by blast
  qed
  ultimately show ?thesis using c calls_serve by (intro exI [of _ calls]) blast
qed

lemma noop_calls:
  assumes "\<forall>(e, fildes, buf) \<in> set calls. frame_at buf = noop_message"
  shows "fold_opt (handle_call (co_work w)) calls s = Some s"
  using assms by (induction calls) (auto simp: co_work_noop)

text \<open>Two clients: the first sends a message in two pieces, and in between the second sends one and half of another,
  and leaves.\<close>

abbreviation demo_trace :: "nat event list" where
  "demo_trace \<equiv> [Accepted 0 7, Accepted 1 8, Polled 0 POLLIN (Some [0, 0, 0, 0, 8]),
     Polled 1 POLLIN (Some (noop_message @ [0, 0, 0, 0])), Polled 0 POLLIN (Some [0, 0, 0]), Polled 1 POLLIN None]"

lemma demo_conversation:
  "conversation (received e False demo_trace) (if e < 2 then [noop_message] else []) (if e = 1 then [0, 0, 0, 0] else [])"
proof -
  have "message (7 * BUFFER_LENGTH) ([] @ noop_message)" "message (7 * BUFFER_LENGTH) ([0, 0, 0, 0] @ [8, 0, 0, 0])"
    using noop_message by simp_all
  then have "\<exists>q. q \<noteq> [] \<and> message (7 * BUFFER_LENGTH) (p @ q)" if "p = [] \<or> p = [0, 0, 0, 0]" for p
    using that by (metis list.distinct(1))
  then show ?thesis using noop_message by (auto simp: conversation_def)
qed

lemma clients_in_order_witness:
  "\<exists>C. fold_opt (serve_event (co_work (demo_world demo_api))) demo_trace
       \<lparr>clients = Map.empty, shared = demo_server [1, 2] [] no_rows\<rparr> =
     Some \<lparr>clients = C, shared = demo_server [1, 2] [] no_rows\<rparr>"
proof -
  let ?w = "demo_world demo_api" let ?s = "demo_server [1, 2] [] no_rows"
  let ?ms = "\<lambda>e :: nat. if e < 2 then [noop_message] else []" and ?p = "\<lambda>e :: nat. if e = 1 then [0, 0, 0, 0] else []"
  have "trace_ok {} demo_trace" by (simp add: trace_ok_def)
  moreover have "\<forall>e. conversation (received e False demo_trace) (?ms e) (?p e)" using demo_conversation by blast
  ultimately have "\<exists>calls. (\<forall>e. from_client e calls = ?ms e) \<and>
      (\<forall>s1. fold_opt (handle_call (co_work ?w)) calls ?s = Some s1 \<longrightarrow>
         (\<exists>C. fold_opt (serve_event (co_work ?w)) demo_trace \<lparr>clients = Map.empty, shared = ?s\<rparr> = Some \<lparr>clients = C, shared = s1\<rparr>))"
    using clients_in_order [of demo_trace ?ms ?p ?w ?s] by meson
  then obtain calls where c: "\<forall>e. from_client e calls = ?ms e"
    "\<forall>s1. fold_opt (handle_call (co_work ?w)) calls ?s = Some s1 \<longrightarrow>
       (\<exists>C. fold_opt (serve_event (co_work ?w)) demo_trace \<lparr>clients = Map.empty, shared = ?s\<rparr> = Some \<lparr>clients = C, shared = s1\<rparr>)"
    by blast
  have "frame_at buf = noop_message" if "(e, fildes, buf) \<in> set calls" for e fildes buf
    using call_command(1) [OF c(1) that, of "7 * BUFFER_LENGTH"] noop_message by (simp split: if_splits)
  then have "fold_opt (handle_call (co_work ?w)) calls ?s = Some ?s" by (intro noop_calls) auto
  then show ?thesis using c(2) by blast
qed

text \<open>A client that disconnects without a message that says so stays online: the end of its coroutine changes
  nothing that the clients share, so the map of the online users, and what the others are told,
  are those of before.\<close>

lemma leaver_stays_online:
  assumes "clients h e = Some env" "rv AND POLLIN \<noteq> 0" "rc = None \<or> rc = Some []"
  shows "serve_event work (Polled e rv rc) h = Some (h\<lparr>clients := (clients h)(e := None)\<rparr>)"
  using last_round(1) [OF assms] by simp

end
